(* ===== verification/Slinet_Prelude.thy ===== *)
theory Slinet_Prelude
  imports Main "HOL-Library.Word" "HOL-Library.Sublist"
begin

text \<open>
  Shared vocabulary of the development: machine integers of the 64-bit native target, the
  standard-library data the crate passes around (results, I/O errors, poll results, the error
  values of the bounded channels) and the generic lemmas the component theories rely on.

  \<^item> \<open>usize\<close> is a \<open>nat\<close> below \<open>2 ^ 64\<close>; \<open>usize_add\<close> and \<open>usize_sub\<close> write out the
    wrap-around of a release build, so that an operation whose arithmetic never leaves the range is
    shown to be free of overflow rather than assumed to be.
  \<^item> \<open>u64\<close> counters are \<open>64 word\<close> (an atomic \<open>fetch_add\<close> wraps) and bytes are \<open>8 word\<close>.
  \<^item> A \<open>Result<T, E>\<close> is \<open>'e + 't\<close> with \<open>Inl\<close> the error.
\<close>

named_theorems usize_simps \<open>exactness of machine arithmetic that stays in range\<close>

section \<open>Machine integers\<close>

type_synonym usize = nat
type_synonym byte = "8 word"
type_synonym u64 = "64 word"

definition usize_max :: usize where
  "usize_max = 2 ^ 64 - 1"

definition usize_add :: "usize \<Rightarrow> usize \<Rightarrow> usize" where
  "usize_add a b = (a + b) mod 2 ^ 64"

definition usize_sub :: "usize \<Rightarrow> usize \<Rightarrow> usize" where
  "usize_sub a b = (if b \<le> a then a - b else a + 2 ^ 64 - b)"

lemma usize_add_exact [usize_simps]: "a + b \<le> usize_max \<Longrightarrow> usize_add a b = a + b"
  by (simp add: usize_add_def usize_max_def)

lemma usize_sub_exact [usize_simps, simp]: "b \<le> a \<Longrightarrow> usize_sub a b = a - b"
  by (simp add: usize_sub_def)

lemma usize_max_pos [simp]: "0 < usize_max"
  by (simp add: usize_max_def)

lemma one_le_usize_max [simp]: "Suc 0 \<le> usize_max"
  by (simp add: usize_max_def)

section \<open>Standard-library data\<close>

datatype 'a poll = Ready 'a | Pending

datatype io_error_kind =
    ConnectionAborted | ConnectionReset | ConnectionRefused | InvalidInput | InvalidData
  | WriteZero | WouldBlock | BrokenPipe | Interrupted | UnexpectedEof | Other
  | Uncategorized nat

datatype io_error = IoError (kind: io_error_kind) (message: string)

datatype 'a TrySendError = Full 'a | Closed 'a

datatype TryRecvError = Empty | Disconnected

datatype SocketAddr =
    V4 (addr4: "32 word") (port4: "16 word")
  | V6 (addr6: "128 word") (port6: "16 word") (flowinfo: "32 word") (scope_id: "32 word")

fun result_ok :: "'e + 'a \<Rightarrow> bool" where
  "result_ok (Inr _) = True"
| "result_ok (Inl _) = False"

section \<open>Cancellation tokens\<close>

text \<open>
  \<^verbatim>\<open>tokio_util::sync::CancellationToken\<close> is not code of the crate. Its operations are the fields of
  \<open>tokens\<close>: \<open>'k\<close> is a token handle, \<open>'ts\<close> the hidden shared state of all tokens. \<open>token_laws\<close> is
  their documented behaviour: cancelling a token cancels it and its descendants for good.
\<close>

record ('k, 'ts) tokens =
  tok_new :: "'ts \<Rightarrow> 'k \<times> 'ts"
  tok_child :: "'k \<Rightarrow> 'ts \<Rightarrow> 'k \<times> 'ts"
  tok_cancel :: "'k \<Rightarrow> 'ts \<Rightarrow> 'ts"
  tok_is_cancelled :: "'ts \<Rightarrow> 'k \<Rightarrow> bool"

definition token_laws :: "('k, 'ts) tokens \<Rightarrow> bool" where
  "token_laws T \<longleftrightarrow>
     (\<forall>k ts. tok_is_cancelled T (tok_cancel T k ts) k) \<and>
     (\<forall>k k' ts. tok_is_cancelled T ts k \<longrightarrow> tok_is_cancelled T (tok_cancel T k' ts) k) \<and>
     (\<forall>ts k ts'. tok_new T ts = (k, ts') \<longrightarrow> \<not> tok_is_cancelled T ts' k) \<and>
     (\<forall>p ts k ts'. tok_child T p ts = (k, ts') \<longrightarrow>
        tok_is_cancelled T ts' k = tok_is_cancelled T ts p)"

text \<open>
  A token store that satisfies the laws: a handle is a root number and the path of child numbers
  below it, the state is a counter with the cancelled handles, and a handle is cancelled when a
  cancelled handle is one of its ancestors or itself.
\<close>

type_synonym demo_token = "nat \<times> nat list"

definition demo_fresh :: "nat \<times> demo_token list \<Rightarrow> nat" where
  "demo_fresh ts = Suc (fst ts + sum_list (map (\<lambda>k. fst k + sum_list (snd k)) (snd ts)))"

definition demo_tokens :: "(demo_token, nat \<times> demo_token list) tokens" where
  "demo_tokens =
     \<lparr>tok_new = (\<lambda>ts. ((demo_fresh ts, []), (demo_fresh ts, snd ts))),
      tok_child = (\<lambda>p ts. ((fst p, snd p @ [demo_fresh ts]), (demo_fresh ts, snd ts))),
      tok_cancel = (\<lambda>k ts. (fst ts, k # snd ts)),
      tok_is_cancelled = (\<lambda>ts k. \<exists>c \<in> set (snd ts). fst c = fst k \<and> prefix (snd c) (snd k))\<rparr>"

lemma demo_fresh_bound:
  assumes "c \<in> set (snd ts)"
  shows "fst c < demo_fresh ts" "x \<in> set (snd c) \<Longrightarrow> x < demo_fresh ts"
proof -
  have "fst c + sum_list (snd c) \<le> sum_list (map (\<lambda>k. fst k + sum_list (snd k)) (snd ts))"
    using assms by (intro member_le_sum_list) auto
  then show "fst c < demo_fresh ts" "x \<in> set (snd c) \<Longrightarrow> x < demo_fresh ts"
    using member_le_sum_list [of x "snd c"] by (auto simp: demo_fresh_def)
qed

lemma demo_tokens_laws: "token_laws demo_tokens"
proof -
  have "\<not> (\<exists>c \<in> set (snd ts). fst c = demo_fresh ts \<and> prefix (snd c) [])" for ts
    using demo_fresh_bound(1) by fastforce
  moreover have "(\<exists>c \<in> set (snd ts). fst c = fst p \<and> prefix (snd c) (snd p @ [demo_fresh ts]))
      \<longleftrightarrow> (\<exists>c \<in> set (snd ts). fst c = fst p \<and> prefix (snd c) (snd p))" for ts and p :: demo_token
  proof -
    have "snd c \<noteq> snd p @ [demo_fresh ts]" if "c \<in> set (snd ts)" for c
      using demo_fresh_bound(2) [OF that, of "demo_fresh ts"] by auto
    then show ?thesis by (metis prefix_snoc)
  qed
  ultimately show ?thesis
    by (auto simp: token_laws_def demo_tokens_def)
qed

section \<open>Lists\<close>

lemma sum_list_take_drop: "sum_list (take n xs) + sum_list (drop n xs) = (sum_list xs :: nat)"
  by (metis append_take_drop_id sum_list_append)

lemma sum_list_map_take_drop:
  "sum_list (map f (take n xs)) + sum_list (map f (drop n xs)) = (sum_list (map f xs) :: nat)"
  by (metis append_take_drop_id map_append sum_list_append)

lemma sum_list_map_drop:
  "sum_list (map f (drop n xs)) = (sum_list (map f xs) :: nat) - sum_list (map f (take n xs))"
  using sum_list_map_take_drop [of f n xs] by simp

lemma sum_list_map_take_le: "sum_list (map f (take n xs)) \<le> (sum_list (map f xs) :: nat)"
  using sum_list_map_take_drop [of f n xs] by simp

lemma map_take_drop_append [simp]: "map f (take n xs) @ map f (drop n xs) @ ys = map f xs @ ys"
  by (metis append.assoc append_take_drop_id map_append)

lemma sum_list_map_const [simp]: "sum_list (map (\<lambda>_. c) xs) = length xs * (c :: nat)"
  by (induction xs) simp_all

end
