(* ===== verification/Queue_Interface.thy ===== *)
theory Queue_Interface
  imports Slinet_Prelude
begin

text \<open>
  The contract that the queues between ECS and transport tasks offer their clients: items leave
  only from the front (by delivery, eviction or draining), an error hands the item back and changes
  nothing, and closing empties the queue for good. The clients' accounting is proved once here, for
  any interleaving of operations; \<open>Lossy_Queue\<close> interprets the locale on the lossy queue.
\<close>

section \<open>Operation sequences\<close>

datatype 'a qop = QSend 'a | QRecv "'a \<Rightarrow> bool" | QDrain

datatype 'a qevent = Accepted 'a | Rejected "'a TrySendError" | Evicted 'a | Delivered 'a | Drained 'a

fun qstep ::
  "('a \<Rightarrow> 'q \<Rightarrow> ('a TrySendError + 'a list) \<times> 'q) \<Rightarrow>
   (('a \<Rightarrow> bool) \<Rightarrow> 'q \<Rightarrow> (TryRecvError + 'a) \<times> 'q) \<Rightarrow>
   ('q \<Rightarrow> 'a list \<times> 'q) \<Rightarrow> 'a qop \<Rightarrow> 'q \<Rightarrow> 'a qevent list \<times> 'q"
where
  "qstep snd' rcv drn (QSend x) q =
     (case snd' x q of
        (Inr ev, q') \<Rightarrow> (map Evicted ev @ [Accepted x], q')
      | (Inl e, q') \<Rightarrow> ([Rejected e], q'))"
| "qstep snd' rcv drn (QRecv ready) q =
     (case rcv ready q of (Inr x, q') \<Rightarrow> ([Delivered x], q') | (Inl _, q') \<Rightarrow> ([], q'))"
| "qstep snd' rcv drn QDrain q = (case drn q of (xs, q') \<Rightarrow> (map Drained xs, q'))"

fun qrun ::
  "('a \<Rightarrow> 'q \<Rightarrow> ('a TrySendError + 'a list) \<times> 'q) \<Rightarrow>
   (('a \<Rightarrow> bool) \<Rightarrow> 'q \<Rightarrow> (TryRecvError + 'a) \<times> 'q) \<Rightarrow>
   ('q \<Rightarrow> 'a list \<times> 'q) \<Rightarrow> 'a qop list \<Rightarrow> 'q \<Rightarrow> 'a qevent list \<times> 'q"
where
  "qrun snd' rcv drn [] q = ([], q)"
| "qrun snd' rcv drn (op # ops) q =
     (case qstep snd' rcv drn op q of
        (evs, q') \<Rightarrow> (case qrun snd' rcv drn ops q' of (evs', q'') \<Rightarrow> (evs @ evs', q'')))"

fun accepted1 :: "'a qevent \<Rightarrow> 'a list" where
  "accepted1 (Accepted x) = [x]" | "accepted1 _ = []"

fun removed1 :: "'a qevent \<Rightarrow> 'a list" where
  "removed1 (Evicted x) = [x]" | "removed1 (Delivered x) = [x]" | "removed1 (Drained x) = [x]"
| "removed1 _ = []"

fun delivered1 :: "'a qevent \<Rightarrow> 'a list" where
  "delivered1 (Delivered x) = [x]" | "delivered1 _ = []"

fun lost1 :: "'a qevent \<Rightarrow> 'a list" where
  "lost1 (Evicted x) = [x]" | "lost1 (Drained x) = [x]" | "lost1 _ = []"

definition accepted_of :: "'a qevent list \<Rightarrow> 'a list" where
  "accepted_of evs = concat (map accepted1 evs)"

definition removed_of :: "'a qevent list \<Rightarrow> 'a list" where
  "removed_of evs = concat (map removed1 evs)"

definition delivered_of :: "'a qevent list \<Rightarrow> 'a list" where
  "delivered_of evs = concat (map delivered1 evs)"

definition lost_of :: "'a qevent list \<Rightarrow> 'a list" where
  "lost_of evs = concat (map lost1 evs)"

lemmas qevent_logs = accepted_of_def removed_of_def delivered_of_def lost_of_def

lemma qevent_logs_append [simp]:
  "accepted_of (a @ b) = accepted_of a @ accepted_of b"
  "removed_of (a @ b) = removed_of a @ removed_of b"
  "delivered_of (a @ b) = delivered_of a @ delivered_of b"
  "lost_of (a @ b) = lost_of a @ lost_of b"
  by (simp_all add: qevent_logs)

lemma qevent_logs_map [simp]:
  "accepted_of (map Evicted xs) = []" "accepted_of (map Drained xs) = []"
  "removed_of (map Evicted xs) = xs" "removed_of (map Drained xs) = xs"
  "delivered_of (map Evicted xs) = []" "delivered_of (map Drained xs) = []"
  "lost_of (map Evicted xs) = xs" "lost_of (map Drained xs) = xs"
  by (induction xs) (simp_all add: qevent_logs)

lemma qevent_logs_simps [simp]:
  "accepted_of [] = []" "removed_of [] = []" "delivered_of [] = []" "lost_of [] = []"
  "accepted_of [Accepted x] = [x]" "removed_of [Accepted x] = []"
  "delivered_of [Accepted x] = []" "lost_of [Accepted x] = []"
  "accepted_of [Rejected e] = []" "removed_of [Rejected e] = []"
  "delivered_of [Rejected e] = []" "lost_of [Rejected e] = []"
  "accepted_of [Delivered x] = []" "removed_of [Delivered x] = [x]"
  "delivered_of [Delivered x] = [x]" "lost_of [Delivered x] = []"
  by (simp_all add: qevent_logs)

lemma delivered1_cases: "delivered1 e = removed1 e \<or> delivered1 e = []"
  by (cases e) simp_all

lemma delivered_subseq_removed: "subseq (delivered_of evs) (removed_of evs)"
proof (induction evs)
  case (Cons e evs)
  then show ?case
    using delivered1_cases [of e] by (auto simp: qevent_logs intro: list_emb_append_mono)
qed (simp add: qevent_logs)

lemma removed_split: "length (removed_of evs) = length (delivered_of evs) + length (lost_of evs)"
proof (induction evs)
  case (Cons e evs)
  then show ?case by (cases e) (simp_all add: qevent_logs)
qed (simp add: qevent_logs)

section \<open>The contract\<close>

locale drop_queue =
  fixes qsend :: "'a \<Rightarrow> 'q \<Rightarrow> ('a TrySendError + 'a list) \<times> 'q"
    and qrecv :: "('a \<Rightarrow> bool) \<Rightarrow> 'q \<Rightarrow> (TryRecvError + 'a) \<times> 'q"
    and qdrain :: "'q \<Rightarrow> 'a list \<times> 'q"
    and contents :: "'q \<Rightarrow> 'a list"
    and is_open :: "'q \<Rightarrow> bool"
    and invar :: "'q \<Rightarrow> bool"
  assumes send_ok: "invar q \<Longrightarrow> qsend x q = (Inr ev, q') \<Longrightarrow>
                      is_open q \<and> ev @ contents q' = contents q @ [x] \<and> is_open q'"
    and send_err: "invar q \<Longrightarrow> qsend x q = (Inl e, q') \<Longrightarrow>
                      q' = q \<and> e = (if is_open q then Full x else Closed x)"
    and recv_ok: "invar q \<Longrightarrow> qrecv ready q = (Inr x, q') \<Longrightarrow>
                      ready x \<and> contents q = x # contents q' \<and> is_open q' = is_open q"
    and recv_err: "invar q \<Longrightarrow> qrecv ready q = (Inl f, q') \<Longrightarrow>
                      q' = q \<and> (contents q = [] \<or> \<not> ready (hd (contents q)))"
    and drain_all: "invar q \<Longrightarrow> qdrain q = (xs, q') \<Longrightarrow>
                      xs = contents q \<and> contents q' = [] \<and> \<not> is_open q'"
    and invar_send: "invar q \<Longrightarrow> invar (snd (qsend x q))"
    and invar_recv: "invar q \<Longrightarrow> invar (snd (qrecv ready q))"
    and invar_drain: "invar q \<Longrightarrow> invar (snd (qdrain q))"
begin

lemma step_conserves:
  assumes "invar q" and "qstep qsend qrecv qdrain op q = (evs, q')"
  shows "invar q' \<and> removed_of evs @ contents q' = contents q @ accepted_of evs
         \<and> (\<not> is_open q \<longrightarrow> \<not> is_open q' \<and> accepted_of evs = [])"
proof (cases op)
  case (QSend x)
  show ?thesis
  proof (cases "qsend x q")
    case (Pair r q1)
    then show ?thesis
      using assms QSend invar_send [of q x]
      by (cases r) (auto dest: send_ok send_err)
  qed
next
  case (QRecv ready)
  show ?thesis
  proof (cases "qrecv ready q")
    case (Pair r q1)
    then show ?thesis
      using assms QRecv invar_recv [of q ready]
      by (cases r) (auto dest: recv_ok recv_err)
  qed
next
  case QDrain
  then show ?thesis
    using assms invar_drain [of q] by (auto split: prod.splits dest: drain_all)
qed

lemma run_conserves:
  assumes "invar q" and "qrun qsend qrecv qdrain ops q = (evs, q')"
  shows "invar q' \<and> removed_of evs @ contents q' = contents q @ accepted_of evs"
  using assms
proof (induction ops arbitrary: q evs q')
  case Nil
  then show ?case by simp
next
  case (Cons op ops)
  obtain e1 q1 where step: "qstep qsend qrecv qdrain op q = (e1, q1)" by fastforce
  obtain e2 q2 where run: "qrun qsend qrecv qdrain ops q1 = (e2, q2)" by fastforce
  have s: "invar q1" "removed_of e1 @ contents q1 = contents q @ accepted_of e1"
    using step_conserves [OF Cons.prems(1) step] by simp_all
  have "removed_of e2 @ contents q2 = contents q1 @ accepted_of e2" "invar q2"
    using Cons.IH [OF s(1) run] by simp_all
  moreover have "evs = e1 @ e2" "q' = q2"
    using Cons.prems(2) step run by simp_all
  ultimately show ?case
    using s(2) by (metis append.assoc qevent_logs_append(1,2))
qed

text \<open>From an empty queue: deliveries respect the order of acceptance, and every accepted item is
  delivered, lost to eviction or draining, or still queued.\<close>

lemma run_fifo:
  assumes "invar q" "contents q = []" and "qrun qsend qrecv qdrain ops q = (evs, q')"
  shows "accepted_of evs = removed_of evs @ contents q'"
    and "subseq (delivered_of evs) (accepted_of evs)"
    and "length (accepted_of evs) =
           length (delivered_of evs) + length (lost_of evs) + length (contents q')"
proof -
  show eq: "accepted_of evs = removed_of evs @ contents q'"
    using run_conserves [OF assms(1,3)] assms(2) by simp
  show "subseq (delivered_of evs) (accepted_of evs)"
    unfolding eq by (rule list_emb_prefix [OF delivered_subseq_removed])
  show "length (accepted_of evs) =
           length (delivered_of evs) + length (lost_of evs) + length (contents q')"
    by (simp add: eq removed_split)
qed

lemma closed_stays_closed:
  assumes "invar q" "\<not> is_open q" and "qrun qsend qrecv qdrain ops q = (evs, q')"
  shows "\<not> is_open q' \<and> accepted_of evs = []"
  using assms
proof (induction ops arbitrary: q evs q')
  case (Cons op ops)
  obtain e1 q1 where step: "qstep qsend qrecv qdrain op q = (e1, q1)" by fastforce
  obtain e2 q2 where run: "qrun qsend qrecv qdrain ops q1 = (e2, q2)" by fastforce
  show ?case
    using step_conserves [OF Cons.prems(1) step] Cons.prems Cons.IH [OF _ _ run] step run
    by auto
qed simp

end

end
