(* ===== verification/Lossy_Queue.thy ===== *)
theory Lossy_Queue
  imports Queue_Interface
begin

text \<open>
  The bounded lossy queue of \<^verbatim>\<open>src/src/connection/queue/lossy.rs\<close>: one mutex-protected state,
  many senders, one receiver, item and byte limits, and an overflow policy that either rejects the
  new item or evicts the oldest ones.

  Every critical section of the source is one definition on the shared state. The two
  \<^verbatim>\<open>tokio::sync::Notify\<close> objects are not code of the crate, so an operation returns the
  notifications it sends, and what they must achieve is stated over those outputs.
  An asynchronous loop (\<open>send\<close>, \<open>recv\<close>) is modelled by its loop body: \<open>Ready\<close> when it returns,
  \<open>Pending\<close> when it goes on to await a notification.
\<close>

section \<open>State\<close>

datatype OverflowPolicy = DropNewest | DropOldest

record 'a State =
  items :: "('a \<times> usize) list"
  bytes :: usize
  senders :: usize
  receiver_open :: bool

record 'a Shared =
  state :: "'a State"
  max_items :: usize
  max_bytes :: usize
  policy :: OverflowPolicy

datatype notification =
    Changed_notify_one | Changed_notify_waiters | Space_notify_one | Space_notify_waiters

record QueueSnapshot =
  queued :: usize
  capacity :: usize

section \<open>Operations\<close>

definition lossy_channel :: "usize \<Rightarrow> usize \<Rightarrow> OverflowPolicy \<Rightarrow> 'a Shared" where
  "lossy_channel mi mb p =
     \<lparr>state = \<lparr>items = [], bytes = 0, senders = 1, receiver_open = True\<rparr>,
      max_items = mi, max_bytes = mb, policy = p\<rparr>"

definition sender_clone :: "'a Shared \<Rightarrow> 'a Shared" where
  "sender_clone sh = sh\<lparr>state := (state sh)\<lparr>senders := usize_add (senders (state sh)) 1\<rparr>\<rparr>"

definition sender_drop :: "'a Shared \<Rightarrow> 'a Shared \<times> notification list" where
  "sender_drop sh =
     (let st = (state sh)\<lparr>senders := usize_sub (senders (state sh)) 1\<rparr>
      in (sh\<lparr>state := st\<rparr>, if senders st = 0 then [Changed_notify_waiters] else []))"

definition is_closed :: "'a Shared \<Rightarrow> bool" where
  "is_closed sh = (\<not> receiver_open (state sh))"

definition snapshot :: "'a Shared \<Rightarrow> QueueSnapshot" where
  "snapshot sh = \<lparr>queued = length (items (state sh)), capacity = max_items sh\<rparr>"

text \<open>
  The eviction scan of \<open>try_send_where\<close>: it walks the queue from the oldest item until the new
  item of weight \<open>w\<close> fits; \<open>None\<close> is the early return at a protected item.
\<close>

fun evict_scan ::
  "usize \<Rightarrow> usize \<Rightarrow> usize \<Rightarrow> ('a \<Rightarrow> bool) \<Rightarrow> ('a \<times> usize) list \<Rightarrow> usize \<Rightarrow> usize \<Rightarrow> (usize \<times> usize) option"
where
  "evict_scan mi mb w can [] ri rb = Some (ri, rb)"
| "evict_scan mi mb w can ((old, ow) # rest) ri rb =
     (if ri < mi \<and> rb \<le> usize_sub mb w then Some (ri, rb)
      else if \<not> can old then None
      else evict_scan mi mb w can rest (usize_sub ri 1) (usize_sub rb ow))"

definition evict_oldest ::
  "'a Shared \<Rightarrow> usize \<Rightarrow> ('a \<Rightarrow> bool) \<Rightarrow> ('a list \<times> 'a State) option"
where
  "evict_oldest sh w can =
     (let st = state sh in
      if policy sh = DropOldest then
        (case evict_scan (max_items sh) (max_bytes sh) w can (items st) (length (items st)) (bytes st) of
           None \<Rightarrow> None
         | Some (ri, rb) \<Rightarrow>
             let n = usize_sub (length (items st)) ri
             in Some (map fst (take n (items st)), st\<lparr>items := drop n (items st), bytes := rb\<rparr>))
      else Some ([], st))"

definition try_send_where ::
  "'a \<Rightarrow> usize \<Rightarrow> ('a \<Rightarrow> bool) \<Rightarrow> 'a Shared
     \<Rightarrow> ('a TrySendError + 'a list) \<times> 'a Shared \<times> notification list"
where
  "try_send_where v w can sh =
     (if \<not> receiver_open (state sh) then (Inl (Closed v), sh, [])
      else if max_items sh = 0 \<or> max_bytes sh < w then (Inl (Full v), sh, [])
      else case evict_oldest sh w can of
        None \<Rightarrow> (Inl (Full v), sh, [])
      | Some (evicted, st) \<Rightarrow>
          if max_items sh \<le> length (items st) \<or> usize_sub (max_bytes sh) w < bytes st
          then (Inl (Full v), sh\<lparr>state := st\<rparr>, [])
          else (Inr evicted,
                sh\<lparr>state := st\<lparr>bytes := usize_add (bytes st) w, items := items st @ [(v, w)]\<rparr>\<rparr>,
                [Changed_notify_one]))"

definition try_send ::
  "'a \<Rightarrow> usize \<Rightarrow> 'a Shared \<Rightarrow> ('a TrySendError + 'a list) \<times> 'a Shared \<times> notification list"
where
  "try_send v w sh = try_send_where v w (\<lambda>_. True) sh"

text \<open>
  The body of \<open>send\<close>: the size check runs once before the loop and depends only on the limits, so
  repeating it in each iteration does not change the result.
\<close>

definition send_poll ::
  "'a \<Rightarrow> usize \<Rightarrow> 'a Shared \<Rightarrow> ('a TrySendError + unit) poll \<times> 'a Shared \<times> notification list"
where
  "send_poll v w sh =
     (if max_items sh = 0 \<or> max_bytes sh < w then (Ready (Inl (Full v)), sh, [])
      else if \<not> receiver_open (state sh) then (Ready (Inl (Closed v)), sh, [])
      else if length (items (state sh)) < max_items sh
              \<and> bytes (state sh) \<le> usize_sub (max_bytes sh) w
      then (Ready (Inr ()),
            sh\<lparr>state := (state sh)\<lparr>bytes := usize_add (bytes (state sh)) w,
                                    items := items (state sh) @ [(v, w)]\<rparr>\<rparr>,
            [Changed_notify_one])
      else (Pending, sh, []))"

definition try_recv_if ::
  "('a \<Rightarrow> bool) \<Rightarrow> 'a Shared \<Rightarrow> (TryRecvError + 'a) \<times> 'a Shared \<times> notification list"
where
  "try_recv_if ready sh =
     (let st = state sh;
          otherwise = (Inl (if items st = [] \<and> (senders st = 0 \<or> \<not> receiver_open st)
                            then Disconnected else Empty), sh, [])
      in case items st of
           [] \<Rightarrow> otherwise
         | (v, w) # rest \<Rightarrow>
             if ready v
             then (Inr v, sh\<lparr>state := st\<lparr>items := rest, bytes := usize_sub (bytes st) w\<rparr>\<rparr>,
                   [Space_notify_one])
             else otherwise)"

definition try_recv :: "'a Shared \<Rightarrow> (TryRecvError + 'a) \<times> 'a Shared \<times> notification list" where
  "try_recv sh = try_recv_if (\<lambda>_. True) sh"

definition recv_poll :: "'a Shared \<Rightarrow> 'a option poll \<times> 'a Shared \<times> notification list" where
  "recv_poll sh =
     (case try_recv sh of
        (Inr v, sh', ns) \<Rightarrow> (Ready (Some v), sh', ns)
      | (Inl Disconnected, sh', ns) \<Rightarrow> (Ready None, sh', ns)
      | (Inl Empty, sh', ns) \<Rightarrow> (Pending, sh', ns))"

definition close_and_drain :: "'a Shared \<Rightarrow> 'a list \<times> 'a Shared \<times> notification list" where
  "close_and_drain sh =
     (map fst (items (state sh)),
      sh\<lparr>state := (state sh)\<lparr>receiver_open := False, bytes := 0, items := []\<rparr>\<rparr>,
      [Changed_notify_waiters, Space_notify_waiters])"

definition receiver_drop :: "'a Shared \<Rightarrow> 'a Shared \<times> notification list" where
  "receiver_drop sh = (case close_and_drain sh of (_, sh', ns) \<Rightarrow> (sh', ns))"


section \<open>Well-formedness\<close>

definition weight :: "('a \<times> usize) list \<Rightarrow> nat" where
  "weight xs = sum_list (map snd xs)"

lemma weight_simps [simp]:
  "weight [] = 0" "weight (x # xs) = snd x + weight xs" "weight (xs @ ys) = weight xs + weight ys"
  by (simp_all add: weight_def)

lemma weight_drop_le: "weight (drop n xs) \<le> weight xs"
  using sum_list_map_take_drop [of snd n xs] by (simp add: weight_def)

definition lossy_wf :: "'a Shared \<Rightarrow> bool" where
  "lossy_wf sh \<longleftrightarrow>
     bytes (state sh) = weight (items (state sh)) \<and>
     length (items (state sh)) \<le> max_items sh \<and>
     bytes (state sh) \<le> max_bytes sh \<and>
     max_items sh \<le> usize_max \<and> max_bytes sh \<le> usize_max \<and>
     (\<not> receiver_open (state sh) \<longrightarrow> items (state sh) = [])"

section \<open>The eviction scan against its specification\<close>

text \<open>The declarative reading of the scan: the fewest oldest items whose removal makes room.\<close>

definition fits :: "usize \<Rightarrow> usize \<Rightarrow> usize \<Rightarrow> ('a \<times> usize) list \<Rightarrow> bool" where
  "fits mi mb w xs \<longleftrightarrow> length xs < mi \<and> weight xs + w \<le> mb"

fun evict_need :: "usize \<Rightarrow> usize \<Rightarrow> usize \<Rightarrow> ('a \<times> usize) list \<Rightarrow> nat" where
  "evict_need mi mb w [] = 0"
| "evict_need mi mb w (x # xs) = (if fits mi mb w (x # xs) then 0 else Suc (evict_need mi mb w xs))"

lemma evict_need_le: "evict_need mi mb w xs \<le> length xs"
  by (induction xs) auto

lemma evict_need_fits: "0 < mi \<Longrightarrow> w \<le> mb \<Longrightarrow> fits mi mb w (drop (evict_need mi mb w xs) xs)"
  by (induction xs) (auto simp: fits_def)

lemma evict_need_minimal: "i < evict_need mi mb w xs \<Longrightarrow> \<not> fits mi mb w (drop i xs)"
proof (induction xs arbitrary: i)
  case (Cons x xs)
  then show ?case by (cases i) (auto split: if_splits)
qed simp

lemma evict_scan_eq:
  assumes "w \<le> mb"
  shows "evict_scan mi mb w can xs (length xs) (weight xs) =
    (let n = evict_need mi mb w xs in
     if \<forall>x \<in> set (take n xs). can (fst x)
     then Some (length xs - n, weight (drop n xs)) else None)"
proof (induction xs)
  case (Cons x xs)
  obtain v ow where x: "x = (v, ow)" by fastforce
  have "usize_sub (length (x # xs)) 1 = length xs" "usize_sub (weight (x # xs)) ow = weight xs"
    by (simp_all add: x)
  moreover have "length (x # xs) < mi \<and> weight (x # xs) \<le> usize_sub mb w \<longleftrightarrow> fits mi mb w (x # xs)"
    using assms by (auto simp: fits_def)
  ultimately show ?case
    using Cons.IH by (auto simp: x Let_def)
qed (simp add: Let_def)

definition spec_try_send ::
  "usize \<Rightarrow> usize \<Rightarrow> OverflowPolicy \<Rightarrow> 'a \<Rightarrow> usize \<Rightarrow> ('a \<Rightarrow> bool) \<Rightarrow> bool \<times> ('a \<times> usize) list
     \<Rightarrow> ('a TrySendError + 'a list) \<times> bool \<times> ('a \<times> usize) list"
where
  "spec_try_send mi mb p v w can q =
     (case q of (opn, xs) \<Rightarrow>
        if \<not> opn then (Inl (Closed v), q)
        else if mi = 0 \<or> mb < w then (Inl (Full v), q)
        else case find (\<lambda>n. fits mi mb w (drop n xs))
                       (if p = DropOldest then [0 ..< Suc (length xs)] else [0]) of
          None \<Rightarrow> (Inl (Full v), q)
        | Some n \<Rightarrow>
            if \<forall>x \<in> set (take n xs). can (fst x)
            then (Inr (map fst (take n xs)), (opn, drop n xs @ [(v, w)]))
            else (Inl (Full v), q))"

definition abs_queue :: "'a Shared \<Rightarrow> bool \<times> ('a \<times> usize) list" where
  "abs_queue sh = (receiver_open (state sh), items (state sh))"

lemma find_first_upt:
  assumes "n \<le> m" "P n" "\<And>i. i < n \<Longrightarrow> \<not> P i"
  shows "find P [0 ..< Suc m] = Some n"
  unfolding find_Some_iff using assms
  by (auto simp del: upt_Suc intro!: exI [of _ n])

definition evict_amount :: "'a Shared \<Rightarrow> usize \<Rightarrow> nat" where
  "evict_amount sh w =
     (if policy sh = DropOldest
      then evict_need (max_items sh) (max_bytes sh) w (items (state sh)) else 0)"

lemma evict_amount_le: "evict_amount sh w \<le> length (items (state sh))"
  by (simp add: evict_amount_def evict_need_le)

lemma evict_amount_fits:
  "policy sh = DropOldest \<Longrightarrow> 0 < max_items sh \<Longrightarrow> w \<le> max_bytes sh \<Longrightarrow>
     fits (max_items sh) (max_bytes sh) w (drop (evict_amount sh w) (items (state sh)))"
  by (simp add: evict_amount_def evict_need_fits)

text \<open>On a well-formed queue \<open>try_send_where\<close> has exactly one way to succeed and every rejection
  leaves the state untouched; all later facts go through this form.\<close>

lemma try_send_where_form:
  assumes wf: "lossy_wf sh"
  shows "try_send_where v w can sh =
    (let xs = items (state sh); n = evict_amount sh w in
     if \<not> receiver_open (state sh) then (Inl (Closed v), sh, [])
     else if max_items sh = 0 \<or> max_bytes sh < w
             \<or> \<not> fits (max_items sh) (max_bytes sh) w (drop n xs)
             \<or> (\<exists>x \<in> set (take n xs). \<not> can (fst x))
     then (Inl (Full v), sh, [])
     else (Inr (map fst (take n xs)),
           sh\<lparr>state := (state sh)\<lparr>bytes := weight (drop n xs) + w, items := drop n xs @ [(v, w)]\<rparr>\<rparr>,
           [Changed_notify_one]))"
proof (cases "receiver_open (state sh) \<and> max_items sh \<noteq> 0 \<and> w \<le> max_bytes sh")
  case False
  then show ?thesis by (auto simp: try_send_where_def Let_def)
next
  case True
  let ?xs = "items (state sh)" and ?mi = "max_items sh" and ?mb = "max_bytes sh"
  have b: "bytes (state sh) = weight ?xs" and mb: "?mb \<le> usize_max"
    using wf by (simp_all add: lossy_wf_def)
  show ?thesis
  proof (cases "policy sh")
    case DropNewest
    then show ?thesis
      using True b mb
      by (auto simp: try_send_where_def evict_oldest_def evict_amount_def Let_def fits_def
          usize_add_exact)
  next
    case DropOldest
    let ?n = "evict_need ?mi ?mb w ?xs"
    have fit: "fits ?mi ?mb w (drop ?n ?xs)"
      using True by (simp add: evict_need_fits)
    have len: "usize_sub (length ?xs) (length ?xs - ?n) = ?n"
      using evict_need_le [of ?mi ?mb w ?xs] by simp
    show ?thesis
      using True b mb DropOldest fit len evict_scan_eq [of w ?mb ?mi can ?xs]
      by (auto simp: try_send_where_def evict_oldest_def evict_amount_def Let_def fits_def
          usize_add_exact)
  qed
qed

lemma weight_take_drop: "weight (take n xs) + weight (drop n xs) = weight xs"
  using sum_list_map_take_drop [of snd n xs] by (simp add: weight_def)

section \<open>Every operation keeps the queue well-formed\<close>

lemma lossy_channel_wf: "mi \<le> usize_max \<Longrightarrow> mb \<le> usize_max \<Longrightarrow> lossy_wf (lossy_channel mi mb p)"
  by (simp add: lossy_wf_def lossy_channel_def)

lemma try_send_fresh:
  assumes "0 < mi" "w \<le> mb" "mb \<le> usize_max"
  shows "try_send v w (lossy_channel mi mb p) =
    (Inr [], \<lparr>state = \<lparr>items = [(v, w)], bytes = w, senders = 1, receiver_open = True\<rparr>,
              max_items = mi, max_bytes = mb, policy = p\<rparr>, [Changed_notify_one])"
  using assms
  by (auto simp: try_send_def try_send_where_def evict_oldest_def lossy_channel_def Let_def
      usize_add_exact)

lemma try_send_where_wf:
  assumes "lossy_wf sh" and "try_send_where v w can sh = (r, sh', ns)"
  shows "lossy_wf sh'"
  using assms by (auto simp: try_send_where_form Let_def lossy_wf_def fits_def split: if_splits)

lemma send_poll_wf:
  assumes "lossy_wf sh" and "send_poll v w sh = (r, sh', ns)"
  shows "lossy_wf sh'"
  using assms by (auto simp: send_poll_def lossy_wf_def usize_add_exact split: if_splits)

lemma try_recv_if_form:
  "try_recv_if ready sh =
     (if items (state sh) \<noteq> [] \<and> ready (fst (hd (items (state sh))))
      then (Inr (fst (hd (items (state sh)))),
            sh\<lparr>state := (state sh)\<lparr>items := tl (items (state sh)),
              bytes := usize_sub (bytes (state sh)) (snd (hd (items (state sh))))\<rparr>\<rparr>, [Space_notify_one])
      else (Inl (if items (state sh) = [] \<and> (senders (state sh) = 0 \<or> \<not> receiver_open (state sh))
                 then Disconnected else Empty), sh, []))"
  by (cases "items (state sh)") (auto simp: try_recv_if_def Let_def split: prod.splits)

lemma try_recv_if_wf:
  assumes "lossy_wf sh" and "try_recv_if ready sh = (r, sh', ns)"
  shows "lossy_wf sh'"
proof (cases "items (state sh)")
  case Nil
  then show ?thesis using assms by (auto simp: try_recv_if_form)
next
  case (Cons x xs)
  then show ?thesis
    using assms by (auto simp: try_recv_if_form lossy_wf_def split: if_splits)
qed

lemma close_and_drain_wf:
  "lossy_wf sh \<Longrightarrow> close_and_drain sh = (xs, sh', ns) \<Longrightarrow> lossy_wf sh'"
  by (auto simp: close_and_drain_def lossy_wf_def)

lemma sender_clone_wf: "lossy_wf sh \<Longrightarrow> lossy_wf (sender_clone sh)"
  by (simp add: sender_clone_def lossy_wf_def)

lemma sender_drop_wf: "lossy_wf sh \<Longrightarrow> sender_drop sh = (sh', ns) \<Longrightarrow> lossy_wf sh'"
  by (auto simp: sender_drop_def lossy_wf_def Let_def)

lemmas lossy_wf_preserved =
  try_send_where_wf send_poll_wf try_recv_if_wf close_and_drain_wf sender_clone_wf sender_drop_wf

lemma lossy_limits_fixed:
  "try_send_where v w can sh = (r1, sh', ns) \<Longrightarrow>
     max_items sh' = max_items sh \<and> max_bytes sh' = max_bytes sh \<and> policy sh' = policy sh"
  "try_recv_if ready sh = (r2, sh', ns) \<Longrightarrow>
     max_items sh' = max_items sh \<and> max_bytes sh' = max_bytes sh \<and> policy sh' = policy sh"
  by (auto simp: try_send_where_def try_recv_if_def Let_def
      split: if_splits option.splits list.splits prod.splits)

section \<open>Interleavings\<close>

text \<open>
  All access goes through the mutex, so an execution of any number of sender and receiver tasks is a
  sequence of critical sections. \<open>lossy_step sh acc rem ns sh'\<close> is one of them: it accepts the items
  \<open>acc\<close>, removes the items \<open>rem\<close> and sends the notifications \<open>ns\<close>. Operations of the sending side
  need a live sender handle.
\<close>

inductive lossy_step ::
  "'a Shared \<Rightarrow> 'a list \<Rightarrow> 'a list \<Rightarrow> notification list \<Rightarrow> 'a Shared \<Rightarrow> bool"
where
  send_accepted: "0 < senders (state sh) \<Longrightarrow>
    try_send_where v w can sh = (Inr ev, sh', ns) \<Longrightarrow> lossy_step sh [v] ev ns sh'"
| send_rejected: "0 < senders (state sh) \<Longrightarrow>
    try_send_where v w can sh = (Inl e, sh', ns) \<Longrightarrow> lossy_step sh [] [] ns sh'"
| send_completes: "0 < senders (state sh) \<Longrightarrow>
    send_poll v w sh = (Ready (Inr ()), sh', ns) \<Longrightarrow> lossy_step sh [v] [] ns sh'"
| send_waits: "0 < senders (state sh) \<Longrightarrow>
    send_poll v w sh = (r, sh', ns) \<Longrightarrow> r \<noteq> Ready (Inr ()) \<Longrightarrow> lossy_step sh [] [] ns sh'"
| recv_item: "try_recv_if ready sh = (Inr v, sh', ns) \<Longrightarrow> lossy_step sh [] [v] ns sh'"
| recv_none: "try_recv_if ready sh = (Inl f, sh', ns) \<Longrightarrow> lossy_step sh [] [] ns sh'"
| close: "close_and_drain sh = (xs, sh', ns) \<Longrightarrow> lossy_step sh [] xs ns sh'"
| clone: "0 < senders (state sh) \<Longrightarrow> senders (state sh) < usize_max \<Longrightarrow>
    lossy_step sh [] [] [] (sender_clone sh)"
| drop_sender: "0 < senders (state sh) \<Longrightarrow> sender_drop sh = (sh', ns) \<Longrightarrow> lossy_step sh [] [] ns sh'"

inductive lossy_reach ::
  "usize \<Rightarrow> usize \<Rightarrow> OverflowPolicy \<Rightarrow> 'a Shared \<Rightarrow> 'a list \<Rightarrow> 'a list \<Rightarrow> bool"
  for mi mb p
where
  channel: "lossy_reach mi mb p (lossy_channel mi mb p) [] []"
| step: "lossy_reach mi mb p sh acc rem \<Longrightarrow> lossy_step sh a r ns sh' \<Longrightarrow>
    lossy_reach mi mb p sh' (acc @ a) (rem @ r)"

lemma try_send_where_log:
  assumes "lossy_wf sh" and "try_send_where v w can sh = (Inr ev, sh', ns)"
  shows "ev @ map fst (items (state sh')) = map fst (items (state sh)) @ [v]"
  using assms by (auto simp: try_send_where_form Let_def split: if_splits)

lemma send_poll_log:
  "send_poll v w sh = (Ready (Inr ()), sh', ns) \<Longrightarrow>
     map fst (items (state sh')) = map fst (items (state sh)) @ [v]"
  "send_poll v w sh = (r, sh', ns) \<Longrightarrow> r \<noteq> Ready (Inr ()) \<Longrightarrow> sh' = sh"
  by (auto simp: send_poll_def split: if_splits)

lemma try_recv_if_log:
  "try_recv_if ready sh = (Inr v, sh', ns) \<Longrightarrow>
     ready v \<and> map fst (items (state sh)) = v # map fst (items (state sh'))"
  "try_recv_if ready sh = (Inl f, sh', ns) \<Longrightarrow> sh' = sh"
  by (cases "items (state sh)"; auto simp: try_recv_if_form split: if_splits)+

lemma try_send_where_err:
  assumes "lossy_wf sh" and "try_send_where v w can sh = (Inl e, sh', ns)"
  shows "sh' = sh \<and> ns = [] \<and> e = (if receiver_open (state sh) then Full v else Closed v)"
  using assms by (auto simp: try_send_where_form Let_def split: if_splits)

lemma lossy_step_wf: "lossy_step sh a r ns sh' \<Longrightarrow> lossy_wf sh \<Longrightarrow> lossy_wf sh'"
  by (induction rule: lossy_step.induct) (auto intro: lossy_wf_preserved)

lemma lossy_step_log:
  "lossy_step sh a r ns sh' \<Longrightarrow> lossy_wf sh \<Longrightarrow>
     r @ map fst (items (state sh')) = map fst (items (state sh)) @ a"
  by (induction rule: lossy_step.induct)
    (auto dest: try_send_where_log try_send_where_err send_poll_log try_recv_if_log
      simp: close_and_drain_def sender_clone_def sender_drop_def Let_def)

lemma lossy_step_limits:
  "lossy_step sh a r ns sh' \<Longrightarrow> max_items sh' = max_items sh \<and> max_bytes sh' = max_bytes sh
     \<and> policy sh' = policy sh"
  by (induction rule: lossy_step.induct)
    (auto dest: lossy_limits_fixed send_poll_log(2)
      simp: send_poll_def close_and_drain_def sender_clone_def sender_drop_def Let_def
      split: if_splits)

lemma lossy_reach_inv:
  assumes "lossy_reach mi mb p sh acc rem" and "mi \<le> usize_max" "mb \<le> usize_max"
  shows "lossy_wf sh \<and> max_items sh = mi \<and> max_bytes sh = mb \<and> policy sh = p
         \<and> acc = rem @ map fst (items (state sh))"
  using assms
proof (induction rule: lossy_reach.induct)
  case channel
  then show ?case by (auto simp: lossy_wf_def lossy_channel_def)
next
  case (step sh acc rem a r ns sh')
  then show ?case
    using lossy_step_log [OF step.hyps(2)] lossy_step_limits [OF step.hyps(2)]
      lossy_step_wf [OF step.hyps(2)]
    by auto
qed

section \<open>Wake-ups\<close>

definition recv_blocked :: "'a Shared \<Rightarrow> bool" where
  "recv_blocked sh \<longleftrightarrow> fst (recv_poll sh) = Pending"

definition send_blocked :: "'a \<Rightarrow> usize \<Rightarrow> 'a Shared \<Rightarrow> bool" where
  "send_blocked v w sh \<longleftrightarrow> fst (send_poll v w sh) = Pending"

lemma recv_blocked_iff:
  "recv_blocked sh \<longleftrightarrow>
     items (state sh) = [] \<and> 0 < senders (state sh) \<and> receiver_open (state sh)"
  by (auto simp: recv_blocked_def recv_poll_def try_recv_def try_recv_if_form)

lemma send_blocked_iff:
  "send_blocked v w sh \<longleftrightarrow>
     receiver_open (state sh) \<and> max_items sh \<noteq> 0 \<and> w \<le> max_bytes sh
     \<and> \<not> (length (items (state sh)) < max_items sh \<and> bytes (state sh) \<le> max_bytes sh - w)"
  by (auto simp: send_blocked_def send_poll_def)

lemma lossy_step_wakes_receiver:
  assumes "lossy_step sh a r ns sh'" and "recv_blocked sh" "\<not> recv_blocked sh'"
  shows "Changed_notify_one \<in> set ns \<or> Changed_notify_waiters \<in> set ns"
  using assms
proof (induction rule: lossy_step.induct)
  case (send_accepted sh v w can ev sh' ns)
  then show ?case
    by (auto simp: try_send_where_def split: if_splits option.splits prod.splits)
next
  case (send_rejected sh v w can e sh' ns)
  then show ?case
    by (auto simp: try_send_where_def recv_blocked_iff evict_oldest_def Let_def
        split: if_splits option.splits prod.splits)
qed (auto simp: recv_blocked_iff send_poll_def try_recv_if_form close_and_drain_def
      sender_clone_def sender_drop_def Let_def usize_add_exact split: if_splits)

lemma lossy_step_wakes_sender:
  assumes "lossy_step sh a r ns sh'" and "lossy_wf sh" "policy sh = DropNewest"
    and "send_blocked v w sh" "\<not> send_blocked v w sh'"
  shows "Space_notify_one \<in> set ns \<or> Space_notify_waiters \<in> set ns"
  using assms
proof (induction rule: lossy_step.induct)
  case (send_accepted sh v' w' can ev sh' ns)
  then show ?case
    by (auto simp: try_send_where_def evict_oldest_def send_blocked_iff lossy_wf_def usize_add_exact
        split: if_splits)
next
  case (send_rejected sh v' w' can e sh' ns)
  then show ?case
    by (auto simp: try_send_where_def evict_oldest_def send_blocked_iff Let_def split: if_splits)
next
  case (send_completes sh v' w' sh' ns)
  then show ?case
    by (auto simp: send_poll_def send_blocked_iff lossy_wf_def usize_add_exact split: if_splits)
qed (auto simp: send_blocked_iff send_poll_def try_recv_if_form close_and_drain_def
      sender_clone_def sender_drop_def Let_def split: if_splits)

section \<open>The queue as its clients see it\<close>

text \<open>Callers give every item a fixed weight: 1 for packets, the payload length for datagrams.\<close>

definition weighted_send ::
  "('a \<Rightarrow> usize) \<Rightarrow> 'a \<Rightarrow> 'a Shared \<Rightarrow> ('a TrySendError + 'a list) \<times> 'a Shared"
where
  "weighted_send wt x sh = (case try_send x (wt x) sh of (r, sh', _) \<Rightarrow> (r, sh'))"

definition queue_recv :: "('a \<Rightarrow> bool) \<Rightarrow> 'a Shared \<Rightarrow> (TryRecvError + 'a) \<times> 'a Shared" where
  "queue_recv ready sh = (case try_recv_if ready sh of (r, sh', _) \<Rightarrow> (r, sh'))"

definition queue_drain :: "'a Shared \<Rightarrow> 'a list \<times> 'a Shared" where
  "queue_drain sh = (case close_and_drain sh of (xs, sh', _) \<Rightarrow> (xs, sh'))"

definition queue_contents :: "'a Shared \<Rightarrow> 'a list" where
  "queue_contents sh = map fst (items (state sh))"

definition queue_open :: "'a Shared \<Rightarrow> bool" where
  "queue_open sh = receiver_open (state sh)"

lemmas queue_view_defs =
  weighted_send_def queue_recv_def queue_drain_def queue_contents_def queue_open_def try_send_def

lemma try_send_where_open:
  assumes "lossy_wf sh" and "try_send_where v w can sh = (Inr ev, sh', ns)"
  shows "receiver_open (state sh) \<and> receiver_open (state sh')"
  using assms by (auto simp: try_send_where_form Let_def split: if_splits)

lemma try_recv_if_open:
  "try_recv_if ready sh = (r, sh', ns) \<Longrightarrow> receiver_open (state sh') = receiver_open (state sh)"
  by (auto simp: try_recv_if_form split: if_splits)

lemma try_recv_if_none:
  "try_recv_if ready sh = (Inl f, sh', ns) \<Longrightarrow>
     items (state sh) = [] \<or> \<not> ready (fst (hd (items (state sh))))"
  by (auto simp: try_recv_if_form split: if_splits)

interpretation lq: drop_queue "weighted_send wt" queue_recv queue_drain
  queue_contents queue_open lossy_wf
  for wt
proof (unfold_locales, goal_cases)
  case (1 q x ev q')
  then show ?case
    by (auto simp: queue_view_defs dest: try_send_where_log try_send_where_open split: prod.splits)
next
  case (2 q x e q')
  then show ?case
    by (auto simp: queue_view_defs dest: try_send_where_err split: prod.splits)
next
  case (3 q ready x q')
  then show ?case
    by (auto simp: queue_view_defs dest: try_recv_if_log try_recv_if_open split: prod.splits)
next
  case (4 q ready f q')
  then show ?case
    by (auto simp: queue_view_defs hd_map dest: try_recv_if_log try_recv_if_none split: prod.splits)
next
  case (5 q xs q')
  then show ?case by (auto simp: queue_view_defs close_and_drain_def)
next
  case (6 q x)
  then show ?case by (auto simp: queue_view_defs dest: try_send_where_wf split: prod.splits)
next
  case (7 q ready)
  then show ?case by (auto simp: queue_view_defs dest: try_recv_if_wf split: prod.splits)
next
  case (8 q)
  then show ?case by (auto simp: queue_view_defs dest: close_and_drain_wf split: prod.splits)
qed

section \<open>Properties\<close>

text \<open>A concrete run used by the witnesses: a queue of two items and five bytes that evicts the
  oldest, filled with 1 and 2 and then made to admit 4 (weights 2, 3 and 4).\<close>

definition demo_full :: "nat Shared" where
  "demo_full = \<lparr>state = \<lparr>items = [(1, 2), (2, 3)], bytes = 5, senders = 1, receiver_open = True\<rparr>,
     max_items = 2, max_bytes = 5, policy = DropOldest\<rparr>"

definition demo_evicted :: "nat Shared" where
  "demo_evicted = \<lparr>state = \<lparr>items = [(4, 4)], bytes = 4, senders = 1, receiver_open = True\<rparr>,
     max_items = 2, max_bytes = 5, policy = DropOldest\<rparr>"

lemmas lossy_eval =
  demo_full_def demo_evicted_def lossy_channel_def try_send_def try_send_where_def evict_oldest_def
  send_poll_def try_recv_if_def try_recv_def recv_poll_def close_and_drain_def sender_drop_def
  usize_add_def

lemma demo_sends:
  "try_send_where 1 2 (\<lambda>_. True) (lossy_channel 2 5 DropOldest) =
     (Inr [], demo_full\<lparr>state := (state demo_full)\<lparr>items := [(1, 2)], bytes := 2\<rparr>\<rparr>, [Changed_notify_one])"
  "try_send_where 2 3 (\<lambda>_. True) (demo_full\<lparr>state := (state demo_full)\<lparr>items := [(1, 2)], bytes := 2\<rparr>\<rparr>) =
     (Inr [], demo_full, [Changed_notify_one])"
  "try_send_where 4 4 (\<lambda>_. True) demo_full = (Inr [1, 2], demo_evicted, [Changed_notify_one])"
  by (simp_all add: lossy_eval)

lemma demo_reach_full: "lossy_reach 2 5 DropOldest demo_full [1, 2] []"
proof -
  have s: "0 < senders (state (lossy_channel 2 5 DropOldest :: nat Shared))"
    "0 < senders (state (demo_full\<lparr>state := (state demo_full)\<lparr>items := [(1, 2)], bytes := 2\<rparr>\<rparr>))"
    by (simp_all add: lossy_channel_def demo_full_def)
  show ?thesis
    using lossy_reach.step [OF lossy_reach.step [OF lossy_reach.channel
          lossy_step.send_accepted [OF s(1) demo_sends(1)]]
        lossy_step.send_accepted [OF s(2) demo_sends(2)]]
    by simp
qed

lemma demo_reach_evicted: "lossy_reach 2 5 DropOldest demo_evicted [1, 2, 4] [1, 2]"
proof -
  have "0 < senders (state demo_full)" by (simp add: demo_full_def)
  from lossy_reach.step [OF demo_reach_full lossy_step.send_accepted [OF this demo_sends(3)]]
  show ?thesis by simp
qed

lemma demo_full_wf: "lossy_wf demo_full"
  by (simp add: lossy_wf_def demo_full_def usize_max_def)

text \<open>
  (C20) Memory safety of the queue: in every state reachable by any interleaving of sends, receives,
  handle clones and drops and closing, the byte counter equals the summed weights of the queued
  items, the item and byte limits hold, all of it within \<open>usize\<close> (so no counter ever wraps), and a
  closed queue is empty.
\<close>

theorem lossy_queue_invariant:
  assumes "lossy_reach mi mb p sh acc rem" and "mi \<le> usize_max" and "mb \<le> usize_max"
  shows "bytes (state sh) = sum_list (map snd (items (state sh)))
         \<and> length (items (state sh)) \<le> mi \<and> bytes (state sh) \<le> mb \<and> mb \<le> usize_max
         \<and> (is_closed sh \<longrightarrow> items (state sh) = [])"
  using lossy_reach_inv [OF assms] assms(3)
  by (auto simp: lossy_wf_def weight_def is_closed_def)

theorem lossy_queue_invariant_witness:
  "lossy_reach 2 5 DropOldest demo_evicted [1, 2, 4] [1, 2] \<and> bytes (state demo_evicted) \<le> 5"
  using lossy_queue_invariant [OF demo_reach_evicted] demo_reach_evicted
  by (simp add: usize_max_def)

text \<open>
  (C21) No packet is invented, duplicated, reordered or silently lost by the queue: in every reachable
  state the accepted items are, in order, exactly the removed ones (received, evicted or drained)
  followed by those still queued.
\<close>

theorem lossy_queue_fifo:
  assumes "lossy_reach mi mb p sh acc rem" and "mi \<le> usize_max" and "mb \<le> usize_max"
  shows "acc = rem @ map fst (items (state sh))"
  using lossy_reach_inv [OF assms] by simp

theorem lossy_queue_fifo_witness: "[1, 2, 4] = [1, 2] @ map fst (items (state demo_evicted))"
  by (rule lossy_queue_fifo [OF demo_reach_evicted]) (simp_all add: usize_max_def)

text \<open>
  (C9) \<open>try_send_where\<close> implements the abstract policy: it admits an item exactly when removing the
  fewest oldest items (none under \<open>DropNewest\<close>) makes it fit and all of those may be evicted, and
  then returns exactly those items; otherwise the queue content is unchanged.
\<close>

theorem try_send_where_refines_spec:
  assumes "lossy_wf sh"
  shows "(case try_send_where v w can sh of (r, sh', _) \<Rightarrow> (r, abs_queue sh')) =
         spec_try_send (max_items sh) (max_bytes sh) (policy sh) v w can (abs_queue sh)"
proof (cases "receiver_open (state sh) \<and> max_items sh \<noteq> 0 \<and> w \<le> max_bytes sh")
  case False
  then show ?thesis
    by (auto simp: try_send_where_form [OF assms] spec_try_send_def abs_queue_def Let_def)
next
  case True
  let ?f = "\<lambda>n. fits (max_items sh) (max_bytes sh) w (drop n (items (state sh)))"
  show ?thesis
  proof (cases "policy sh")
    case DropNewest
    then show ?thesis
      using True
      by (auto simp: try_send_where_form [OF assms] spec_try_send_def abs_queue_def Let_def
          evict_amount_def)
  next
    case DropOldest
    have "find ?f [0 ..< Suc (length (items (state sh)))] = Some (evict_amount sh w)"
      using True DropOldest
      by (intro find_first_upt evict_amount_le evict_amount_fits)
        (auto simp: evict_amount_def evict_need_minimal)
    then show ?thesis
      using True DropOldest evict_amount_fits [OF DropOldest, of w]
      by (auto simp: try_send_where_form [OF assms] spec_try_send_def abs_queue_def Let_def
          simp del: upt_Suc)
  qed
qed

theorem try_send_where_refines_spec_witness:
  "(case try_send_where 4 4 (\<lambda>_. True) demo_full of (r, sh', _) \<Rightarrow> (r, abs_queue sh')) =
     spec_try_send 2 5 DropOldest 4 4 (\<lambda>_. True) (abs_queue demo_full)"
  using try_send_where_refines_spec [OF demo_full_wf, of 4 4 "\<lambda>_. True"] by (simp add: demo_full_def)

text \<open>
  A rejected send is atomic: it hands the very item back, says \<open>Closed\<close> exactly when the
  receiver is gone, evicts nothing, changes nothing and notifies nobody.
\<close>

theorem try_send_where_error_atomic:
  assumes "lossy_wf sh" and "try_send_where v w can sh = (Inl e, sh', ns)"
  shows "sh' = sh \<and> ns = [] \<and> e = (if is_closed sh then Closed v else Full v)"
  using try_send_where_err [OF assms] by (simp add: is_closed_def)

lemma demo_oversized: "try_send_where 3 6 (\<lambda>_. True) demo_full = (Inl (Full 3), demo_full, [])"
  by (simp add: lossy_eval)

theorem try_send_where_error_atomic_witness:
  "demo_full = demo_full \<and> ([] :: notification list) = [] \<and>
     Full 3 = (if is_closed demo_full then Closed 3 else Full (3 :: nat))"
  by (rule try_send_where_error_atomic [OF demo_full_wf demo_oversized])

text \<open>
  Under \<open>DropOldest\<close> with no protected items a live queue never refuses an item that fits an
  empty queue; it keeps the newest suffix of the old content, and evicting one item fewer would not
  have made room.
\<close>

theorem drop_oldest_admits:
  assumes "lossy_wf sh" "policy sh = DropOldest" "receiver_open (state sh)"
    and "0 < max_items sh" "w \<le> max_bytes sh"
  shows "\<exists>n \<le> length (items (state sh)). \<exists>sh'.
           try_send v w sh = (Inr (map fst (take n (items (state sh)))), sh', [Changed_notify_one])
           \<and> items (state sh') = drop n (items (state sh)) @ [(v, w)]
           \<and> (\<forall>m < n. \<not> (length (drop m (items (state sh))) < max_items sh
                           \<and> weight (drop m (items (state sh))) + w \<le> max_bytes sh))"
proof -
  have "\<forall>m < evict_amount sh w. \<not> fits (max_items sh) (max_bytes sh) w (drop m (items (state sh)))"
    using assms(2) by (simp add: evict_amount_def evict_need_minimal)
  then show ?thesis
    using assms evict_amount_fits [of sh w] evict_amount_le [of sh w]
    by (intro exI [of _ "evict_amount sh w"])
      (auto simp: try_send_def try_send_where_form Let_def fits_def)
qed

theorem drop_oldest_admits_witness:
  "\<exists>n \<le> length (items (state demo_full)). \<exists>sh'.
     try_send 4 4 demo_full = (Inr (map fst (take n (items (state demo_full)))), sh', [Changed_notify_one])"
  using drop_oldest_admits [OF demo_full_wf, of 4 4] by (auto simp: demo_full_def)

text \<open>
  The receiver cannot miss its wake-up: any critical section that turns a state in which \<open>recv\<close>
  would wait into one in which it would return notifies \<open>changed\<close>.
\<close>

theorem receiver_woken:
  assumes "lossy_step sh a r ns sh'" and "fst (recv_poll sh) = Pending" and "fst (recv_poll sh') \<noteq> Pending"
  shows "Changed_notify_one \<in> set ns \<or> Changed_notify_waiters \<in> set ns"
  using lossy_step_wakes_receiver [OF assms(1)] assms(2,3) by (simp add: recv_blocked_def)

lemma demo_drop_step:
  "lossy_step (lossy_channel 1 1 DropNewest :: nat Shared) [] [] [Changed_notify_waiters]
     (fst (sender_drop (lossy_channel 1 1 DropNewest)))"
  by (rule lossy_step.drop_sender) (simp_all add: lossy_channel_def sender_drop_def)

theorem receiver_woken_witness:
  "Changed_notify_one \<in> set [Changed_notify_waiters] \<or> Changed_notify_waiters \<in> set [Changed_notify_waiters]"
  by (rule receiver_woken [OF demo_drop_step]) (simp_all add: lossy_eval)

text \<open>
  With \<open>DropNewest\<close> a waiting \<open>send\<close> cannot miss freed capacity or the closing of the receiver:
  any critical section after which it could return notifies \<open>space\<close>.
\<close>

theorem sender_woken:
  assumes "lossy_step sh a r ns sh'" "lossy_wf sh" "policy sh = DropNewest"
    and "fst (send_poll v w sh) = Pending" "fst (send_poll v w sh') \<noteq> Pending"
  shows "Space_notify_one \<in> set ns \<or> Space_notify_waiters \<in> set ns"
  using lossy_step_wakes_sender [OF assms(1-3)] assms(4,5) by (simp add: send_blocked_def)

definition demo_one :: "nat Shared" where
  "demo_one = \<lparr>state = \<lparr>items = [(1, 1)], bytes = 1, senders = 1, receiver_open = True\<rparr>,
     max_items = 1, max_bytes = 1, policy = DropNewest\<rparr>"

lemma demo_one_recv: "lossy_step demo_one [] [1] [Space_notify_one]
    (demo_one\<lparr>state := (state demo_one)\<lparr>items := [], bytes := 0\<rparr>\<rparr>)"
  by (rule lossy_step.recv_item [of "\<lambda>_. True"]) (simp add: demo_one_def try_recv_if_def)

theorem sender_woken_witness:
  "Space_notify_one \<in> set [Space_notify_one] \<or> Space_notify_waiters \<in> set [Space_notify_one]"
proof (rule sender_woken [OF demo_one_recv, of 2 1])
  show "lossy_wf demo_one" by (simp add: lossy_wf_def demo_one_def usize_max_def)
qed (simp_all add: demo_one_def send_poll_def)

text \<open>
  Accounting over any sequence of offers, conditional receives and closings on a weighted queue:
  deliveries come in the order of acceptance, every accepted item is delivered, lost to eviction or
  closing, or still queued, and nothing is accepted after the receiver has closed.
\<close>

theorem weighted_queue_accounting:
  assumes "lossy_wf sh" "queue_contents sh = []"
    and "qrun (weighted_send wt) queue_recv queue_drain ops sh = (evs, sh')"
  shows "accepted_of evs = removed_of evs @ queue_contents sh'
         \<and> subseq (delivered_of evs) (accepted_of evs)
         \<and> length (accepted_of evs) =
             length (delivered_of evs) + length (lost_of evs) + length (queue_contents sh')
         \<and> (\<not> queue_open sh \<longrightarrow> accepted_of evs = [])"
  using lq.run_fifo [OF assms] lq.closed_stays_closed [OF assms(1) _ assms(3)] by blast

theorem weighted_queue_accounting_witness:
  "accepted_of [Accepted 1, Accepted 2, Delivered 1, Drained 2] =
     removed_of [Accepted 1, Accepted 2, Delivered 1, Drained (2 :: nat)] @ []"
proof -
  let ?sh = "lossy_channel 2 5 DropOldest :: nat Shared"
  have wf: "lossy_wf ?sh" "queue_contents ?sh = []"
    by (simp_all add: lossy_wf_def lossy_channel_def usize_max_def queue_contents_def)
  obtain sh' where run: "qrun (weighted_send (\<lambda>_. 1)) queue_recv queue_drain
      [QSend 1, QSend 2, QRecv (\<lambda>_. True), QDrain] ?sh
      = ([Accepted 1, Accepted 2, Delivered 1, Drained 2], sh')" "queue_contents sh' = []"
    by (simp add: lossy_eval queue_view_defs)
  show ?thesis
    using weighted_queue_accounting [OF wf run(1)] run(2) by simp
qed

text \<open>The \<open>DropOldest\<close> eviction frees byte capacity without notifying \<open>space\<close>: a sender waiting
  with weight 2 could proceed after the eviction of the first item, but only \<open>changed\<close> is notified.\<close>

definition demo_bytes :: "nat Shared" where
  "demo_bytes = \<lparr>state = \<lparr>items = [(1, 3), (2, 1)], bytes = 4, senders = 1, receiver_open = True\<rparr>,
     max_items = 10, max_bytes = 4, policy = DropOldest\<rparr>"

lemma eviction_without_space_wakeup:
  "\<exists>sh'. try_send 3 1 demo_bytes = (Inr [1], sh', [Changed_notify_one])
     \<and> fst (send_poll 9 2 demo_bytes) = Pending \<and> fst (send_poll 9 2 sh') \<noteq> Pending"
  by (simp add: demo_bytes_def lossy_eval)

end
