(* ===== verification/Transport_Handle.thy ===== *)
theory Transport_Handle
  imports Slinet_Prelude
begin

text \<open>
  Drop reasons and diagnostics: \<^verbatim>\<open>src/src/protocols/transport.rs\<close> (the \<open>TransportHandle\<close> trait) and
  \<^verbatim>\<open>src/src/protocols/udp/diagnostics.rs\<close> (the UDP handle and its counters). The counters are
  \<open>AtomicU64\<close>s bumped with \<open>fetch_add\<close>, so they are 64-bit words that wrap. The watched send rate is
  the handle's current value of the \<^verbatim>\<open>tokio::sync::watch\<close> channel.
\<close>

section \<open>The trait\<close>

datatype QueueDropReason =
    OutgoingQueueFull | OutgoingQueueEvicted | ReceiveQueueFull | ReceiveQueueEvicted
  | ClosedBeforeDelivery

text \<open>The default method, which the unit handle of TCP inherits.\<close>

definition unit_record_drop :: "QueueDropReason \<Rightarrow> unit \<Rightarrow> unit" where
  "unit_record_drop reason h = h"

text \<open>
  What the packet queues rely on when a transport keeps diagnostics: recording a drop bumps the
  counter of its reason by one and no other.
\<close>

locale counting_handle =
  fixes record_drop' :: "QueueDropReason \<Rightarrow> 'h \<Rightarrow> 'h"
    and drops :: "QueueDropReason \<Rightarrow> 'h \<Rightarrow> u64"
  assumes record_drop_counts:
    "drops r (record_drop' r' h) = drops r h + (if r = r' then 1 else 0)"
begin

lemma fold_record_drop:
  "drops r (fold record_drop' rs h) = drops r h + of_nat (count_list rs r)"
  by (induction rs arbitrary: h) (simp_all add: record_drop_counts)

lemma replicate_record_drop:
  "drops r ((record_drop' r' ^^ n) h) = drops r h + (if r = r' then of_nat n else 0)"
  by (induction n) (simp_all add: record_drop_counts)

end

section \<open>UDP diagnostics\<close>

datatype UdpDropReason =
    UOutgoingQueueFull | UOutgoingQueueEvicted | URawQueueFull | URawQueueEvicted
  | UReceiveQueueFull | UReceiveQueueEvicted | UClosedBeforeDelivery | UOversizedPayload
  | UReceiveLimit | UMalformedPayload | USocketSendError

record Counters =
  sent_data_packets :: u64
  sent_data_bytes :: u64
  received_data_packets :: u64
  received_data_bytes :: u64
  dropped_outgoing_queue_full :: u64
  dropped_outgoing_queue_evicted :: u64
  dropped_raw_queue_full :: u64
  dropped_raw_queue_evicted :: u64
  dropped_receive_queue_full :: u64
  dropped_receive_queue_evicted :: u64
  dropped_closed_before_delivery :: u64
  dropped_oversized_payload :: u64
  dropped_receive_limit :: u64
  dropped_malformed_payload :: u64
  dropped_socket_send_error :: u64

type_synonym UdpStatsSnapshot = Counters

record UdpConnectionHandle =
  counters :: Counters
  handle_max_payload_size :: usize
  rate :: "u64 option"

definition zero_counters :: Counters where
  "zero_counters =
     \<lparr>sent_data_packets = 0, sent_data_bytes = 0, received_data_packets = 0, received_data_bytes = 0,
      dropped_outgoing_queue_full = 0, dropped_outgoing_queue_evicted = 0,
      dropped_raw_queue_full = 0, dropped_raw_queue_evicted = 0,
      dropped_receive_queue_full = 0, dropped_receive_queue_evicted = 0,
      dropped_closed_before_delivery = 0, dropped_oversized_payload = 0,
      dropped_receive_limit = 0, dropped_malformed_payload = 0, dropped_socket_send_error = 0\<rparr>"

definition handle_new :: "usize \<Rightarrow> u64 option \<Rightarrow> UdpConnectionHandle" where
  "handle_new mps r = \<lparr>counters = zero_counters, handle_max_payload_size = mps, rate = r\<rparr>"

definition stats :: "UdpConnectionHandle \<Rightarrow> UdpStatsSnapshot" where
  "stats h =
     \<lparr>sent_data_packets = sent_data_packets (counters h),
      sent_data_bytes = sent_data_bytes (counters h),
      received_data_packets = received_data_packets (counters h),
      received_data_bytes = received_data_bytes (counters h),
      dropped_outgoing_queue_full = dropped_outgoing_queue_full (counters h),
      dropped_outgoing_queue_evicted = dropped_outgoing_queue_evicted (counters h),
      dropped_raw_queue_full = dropped_raw_queue_full (counters h),
      dropped_raw_queue_evicted = dropped_raw_queue_evicted (counters h),
      dropped_receive_queue_full = dropped_receive_queue_full (counters h),
      dropped_receive_queue_evicted = dropped_receive_queue_evicted (counters h),
      dropped_closed_before_delivery = dropped_closed_before_delivery (counters h),
      dropped_oversized_payload = dropped_oversized_payload (counters h),
      dropped_receive_limit = dropped_receive_limit (counters h),
      dropped_malformed_payload = dropped_malformed_payload (counters h),
      dropped_socket_send_error = dropped_socket_send_error (counters h)\<rparr>"

definition set_send_rate :: "u64 option \<Rightarrow> UdpConnectionHandle \<Rightarrow> UdpConnectionHandle" where
  "set_send_rate r h = h\<lparr>rate := r\<rparr>"

definition data_sent :: "usize \<Rightarrow> UdpConnectionHandle \<Rightarrow> UdpConnectionHandle" where
  "data_sent n h = h\<lparr>counters := (counters h)
     \<lparr>sent_data_packets := sent_data_packets (counters h) + 1,
      sent_data_bytes := sent_data_bytes (counters h) + of_nat n\<rparr>\<rparr>"

definition received :: "usize \<Rightarrow> UdpConnectionHandle \<Rightarrow> UdpConnectionHandle" where
  "received n h = h\<lparr>counters := (counters h)
     \<lparr>received_data_packets := received_data_packets (counters h) + 1,
      received_data_bytes := received_data_bytes (counters h) + of_nat n\<rparr>\<rparr>"

definition count_drop :: "UdpDropReason \<Rightarrow> UdpConnectionHandle \<Rightarrow> UdpConnectionHandle" where
  "count_drop reason h =
     (let c = counters h in h\<lparr>counters :=
        (case reason of
           UOutgoingQueueFull \<Rightarrow> c\<lparr>dropped_outgoing_queue_full := dropped_outgoing_queue_full c + 1\<rparr>
         | UOutgoingQueueEvicted \<Rightarrow> c\<lparr>dropped_outgoing_queue_evicted := dropped_outgoing_queue_evicted c + 1\<rparr>
         | URawQueueFull \<Rightarrow> c\<lparr>dropped_raw_queue_full := dropped_raw_queue_full c + 1\<rparr>
         | URawQueueEvicted \<Rightarrow> c\<lparr>dropped_raw_queue_evicted := dropped_raw_queue_evicted c + 1\<rparr>
         | UReceiveQueueFull \<Rightarrow> c\<lparr>dropped_receive_queue_full := dropped_receive_queue_full c + 1\<rparr>
         | UReceiveQueueEvicted \<Rightarrow> c\<lparr>dropped_receive_queue_evicted := dropped_receive_queue_evicted c + 1\<rparr>
         | UClosedBeforeDelivery \<Rightarrow> c\<lparr>dropped_closed_before_delivery := dropped_closed_before_delivery c + 1\<rparr>
         | UOversizedPayload \<Rightarrow> c\<lparr>dropped_oversized_payload := dropped_oversized_payload c + 1\<rparr>
         | UReceiveLimit \<Rightarrow> c\<lparr>dropped_receive_limit := dropped_receive_limit c + 1\<rparr>
         | UMalformedPayload \<Rightarrow> c\<lparr>dropped_malformed_payload := dropped_malformed_payload c + 1\<rparr>
         | USocketSendError \<Rightarrow> c\<lparr>dropped_socket_send_error := dropped_socket_send_error c + 1\<rparr>)\<rparr>)"

fun udp_reason :: "QueueDropReason \<Rightarrow> UdpDropReason" where
  "udp_reason OutgoingQueueFull = UOutgoingQueueFull"
| "udp_reason OutgoingQueueEvicted = UOutgoingQueueEvicted"
| "udp_reason ReceiveQueueFull = UReceiveQueueFull"
| "udp_reason ReceiveQueueEvicted = UReceiveQueueEvicted"
| "udp_reason ClosedBeforeDelivery = UClosedBeforeDelivery"

definition record_drop :: "QueueDropReason \<Rightarrow> UdpConnectionHandle \<Rightarrow> UdpConnectionHandle" where
  "record_drop reason h = count_drop (udp_reason reason) h"

section \<open>Counter laws\<close>

fun drop_stat :: "UdpDropReason \<Rightarrow> UdpStatsSnapshot \<Rightarrow> u64" where
  "drop_stat UOutgoingQueueFull = dropped_outgoing_queue_full"
| "drop_stat UOutgoingQueueEvicted = dropped_outgoing_queue_evicted"
| "drop_stat URawQueueFull = dropped_raw_queue_full"
| "drop_stat URawQueueEvicted = dropped_raw_queue_evicted"
| "drop_stat UReceiveQueueFull = dropped_receive_queue_full"
| "drop_stat UReceiveQueueEvicted = dropped_receive_queue_evicted"
| "drop_stat UClosedBeforeDelivery = dropped_closed_before_delivery"
| "drop_stat UOversizedPayload = dropped_oversized_payload"
| "drop_stat UReceiveLimit = dropped_receive_limit"
| "drop_stat UMalformedPayload = dropped_malformed_payload"
| "drop_stat USocketSendError = dropped_socket_send_error"

lemma stats_eq [simp]: "stats h = counters h"
  by (simp add: stats_def)

lemma drop_stat_count_drop:
  "drop_stat r (stats (count_drop r' h)) = drop_stat r (stats h) + (if r = r' then 1 else 0)"
  by (cases r'; cases r) (simp_all add: count_drop_def Let_def)

lemma count_drop_frame [simp]:
  "sent_data_packets (counters (count_drop r h)) = sent_data_packets (counters h)"
  "sent_data_bytes (counters (count_drop r h)) = sent_data_bytes (counters h)"
  "received_data_packets (counters (count_drop r h)) = received_data_packets (counters h)"
  "received_data_bytes (counters (count_drop r h)) = received_data_bytes (counters h)"
  "handle_max_payload_size (count_drop r h) = handle_max_payload_size h"
  "rate (count_drop r h) = rate h"
  by (cases r; simp add: count_drop_def Let_def)+

lemma udp_reason_inj [simp]: "udp_reason r = udp_reason r' \<longleftrightarrow> r = r'"
  by (cases r; cases r') simp_all

lemma drop_stat_transfers [simp]:
  "drop_stat r (counters (data_sent n h)) = drop_stat r (counters h)"
  "drop_stat r (counters (received n h)) = drop_stat r (counters h)"
  by (cases r; simp add: data_sent_def received_def)+

definition udp_drops :: "QueueDropReason \<Rightarrow> UdpConnectionHandle \<Rightarrow> u64" where
  "udp_drops r h = drop_stat (udp_reason r) (stats h)"

interpretation uh: counting_handle record_drop udp_drops
  by unfold_locales (simp add: record_drop_def udp_drops_def drop_stat_count_drop del: stats_eq)

lemma fold_count_drop:
  "drop_stat r (stats (fold count_drop rs h)) = drop_stat r (stats h) + of_nat (count_list rs r)"
  by (induction rs arbitrary: h) (simp_all add: drop_stat_count_drop del: stats_eq)

lemma fold_count_drop_frame:
  "sent_data_packets (counters (fold count_drop rs h)) = sent_data_packets (counters h)
   \<and> sent_data_bytes (counters (fold count_drop rs h)) = sent_data_bytes (counters h)
   \<and> received_data_packets (counters (fold count_drop rs h)) = received_data_packets (counters h)
   \<and> received_data_bytes (counters (fold count_drop rs h)) = received_data_bytes (counters h)"
  by (induction rs arbitrary: h) simp_all

text \<open>
  Diagnostics are exact modulo \<open>2 ^ 64\<close>: after any sequence of recorded drops the snapshot's
  counter of each reason has grown by precisely the number of drops with that reason, and the
  traffic counters are untouched.
\<close>

theorem drop_counters_exact:
  "drop_stat r (stats (fold count_drop rs h)) = drop_stat r (stats h) + of_nat (count_list rs r)
   \<and> sent_data_packets (stats (fold count_drop rs h)) = sent_data_packets (stats h)
   \<and> sent_data_bytes (stats (fold count_drop rs h)) = sent_data_bytes (stats h)
   \<and> received_data_packets (stats (fold count_drop rs h)) = received_data_packets (stats h)
   \<and> received_data_bytes (stats (fold count_drop rs h)) = received_data_bytes (stats h)"
  using fold_count_drop [of r rs h] fold_count_drop_frame [of rs h] by simp

end
