(* ===== verification/Outgoing_Queue.thy ===== *)
theory Outgoing_Queue
  imports Lossy_Queue Transport_Handle
begin

text \<open>
  The queues between ECS and the transport tasks: \<^verbatim>\<open>src/src/connection/queue/mod.rs\<close> and
  \<^verbatim>\<open>src/src/connection/send_error.rs\<close>. An outgoing queue is either a bounded
  \<^verbatim>\<open>tokio::sync::mpsc\<close> channel (streams) or the lossy queue (datagrams).

  The tokio channel is not code of the crate: its operations are the fields of \<open>mpsc\<close>, a
  parameter of every definition that uses it, and \<open>mpsc_laws\<close> states the documented FIFO behaviour
  the proofs rely on. A \<open>TransportHandle\<close> is the function \<open>rd\<close> (its \<open>record_drop\<close>) on the handle's
  shared state; the receiver's \<open>transport\<close> field says whether a clone of the handle is set.
\<close>

section \<open>Errors\<close>

datatype 'p SendError = SendFull 'p | SendClosed 'p

fun into_inner :: "'p SendError \<Rightarrow> 'p" where
  "into_inner (SendFull p) = p"
| "into_inner (SendClosed p) = p"

section \<open>The bounded tokio channel as a parameter\<close>

record ('p, 'c) mpsc =
  mpsc_channel :: "usize \<Rightarrow> 'c"
  mpsc_try_send :: "'p \<Rightarrow> 'c \<Rightarrow> ('p TrySendError + unit) \<times> 'c"
  mpsc_try_recv :: "'c \<Rightarrow> (TryRecvError + 'p) \<times> 'c"
  mpsc_recv :: "'c \<Rightarrow> 'p option poll \<times> 'c"
  mpsc_close :: "'c \<Rightarrow> 'c"
  mpsc_drop_receiver :: "'c \<Rightarrow> 'c"
  mpsc_clone_sender :: "'c \<Rightarrow> 'c"
  mpsc_is_closed :: "'c \<Rightarrow> bool"
  mpsc_capacity :: "'c \<Rightarrow> usize"
  mpsc_max_capacity :: "'c \<Rightarrow> usize"

section \<open>Senders and receivers\<close>

datatype ('p, 'c) OutgoingInner = Reliable 'c | Lossy "'p Shared"

record OutgoingReceiver =
  transport :: bool

definition sender_clone_outgoing ::
  "('p, 'c) mpsc \<Rightarrow> ('p, 'c) OutgoingInner \<Rightarrow> ('p, 'c) OutgoingInner"
where
  "sender_clone_outgoing M inner =
     (case inner of
        Reliable tx \<Rightarrow> Reliable (mpsc_clone_sender M tx)
      | Lossy tx \<Rightarrow> Lossy (sender_clone tx))"

definition outgoing_is_closed :: "('p, 'c) mpsc \<Rightarrow> ('p, 'c) OutgoingInner \<Rightarrow> bool" where
  "outgoing_is_closed M inner =
     (case inner of Reliable tx \<Rightarrow> mpsc_is_closed M tx | Lossy tx \<Rightarrow> is_closed tx)"

definition outgoing_snapshot :: "('p, 'c) mpsc \<Rightarrow> ('p, 'c) OutgoingInner \<Rightarrow> QueueSnapshot" where
  "outgoing_snapshot M inner =
     (case inner of
        Reliable tx \<Rightarrow>
          let cap = mpsc_max_capacity M tx
          in \<lparr>queued = usize_sub cap (mpsc_capacity M tx), capacity = cap\<rparr>
      | Lossy tx \<Rightarrow> snapshot tx)"

definition outgoing_try_send ::
  "('p, 'c) mpsc \<Rightarrow> (QueueDropReason \<Rightarrow> 'h \<Rightarrow> 'h) \<Rightarrow> 'p \<Rightarrow> ('p, 'c) OutgoingInner \<Rightarrow> 'h
     \<Rightarrow> ('p SendError + unit) \<times> ('p, 'c) OutgoingInner \<times> 'h"
where
  "outgoing_try_send M rd packet inner h =
     (let (result, inner', h') =
        (case inner of
           Reliable tx \<Rightarrow>
             (case mpsc_try_send M packet tx of (r, tx') \<Rightarrow> (r, Reliable tx', h))
         | Lossy tx \<Rightarrow>
             (case try_send packet 1 tx of
                (Inr evicted, tx', _) \<Rightarrow>
                  (Inr (), Lossy tx', fold (\<lambda>_. rd OutgoingQueueEvicted) evicted h)
              | (Inl err, tx', _) \<Rightarrow> (Inl err, Lossy tx', h)))
      in case result of
           Inr _ \<Rightarrow> (Inr (), inner', h')
         | Inl (Full p) \<Rightarrow> (Inl (SendFull p), inner', rd OutgoingQueueFull h')
         | Inl (Closed p) \<Rightarrow> (Inl (SendClosed p), inner', h'))"

definition receiver_from :: "'c \<Rightarrow> ('p, 'c) OutgoingInner \<times> OutgoingReceiver" where
  "receiver_from rx = (Reliable rx, \<lparr>transport = False\<rparr>)"

definition set_transport :: "OutgoingReceiver \<Rightarrow> OutgoingReceiver" where
  "set_transport r = r\<lparr>transport := True\<rparr>"

definition outgoing_recv ::
  "('p, 'c) mpsc \<Rightarrow> ('p, 'c) OutgoingInner \<Rightarrow> 'p option poll \<times> ('p, 'c) OutgoingInner"
where
  "outgoing_recv M inner =
     (case inner of
        Reliable rx \<Rightarrow> (case mpsc_recv M rx of (r, rx') \<Rightarrow> (r, Reliable rx'))
      | Lossy rx \<Rightarrow> (case recv_poll rx of (r, rx', _) \<Rightarrow> (r, Lossy rx')))"

text \<open>The drain loop of the reliable receiver's \<open>Drop\<close>: it ends when \<open>try_recv\<close> fails.\<close>

partial_function (option) drain_reliable ::
  "('p, 'c) mpsc \<Rightarrow> (QueueDropReason \<Rightarrow> 'h \<Rightarrow> 'h) \<Rightarrow> 'c \<Rightarrow> 'h \<Rightarrow> ('c \<times> 'h) option"
where
  "drain_reliable M rd rx h =
     (case mpsc_try_recv M rx of
        (Inr p, rx') \<Rightarrow> drain_reliable M rd rx' (rd ClosedBeforeDelivery h)
      | (Inl e, rx') \<Rightarrow> Some (rx', h))"

text \<open>\<open>Drop\<close> of the receiver: the method body, then the drop of the field \<open>inner\<close>.\<close>

definition outgoing_receiver_drop ::
  "('p, 'c) mpsc \<Rightarrow> (QueueDropReason \<Rightarrow> 'h \<Rightarrow> 'h) \<Rightarrow> OutgoingReceiver \<Rightarrow> ('p, 'c) OutgoingInner
     \<Rightarrow> 'h \<Rightarrow> (('p, 'c) OutgoingInner \<times> 'h) option"
where
  "outgoing_receiver_drop M rd r inner h =
     (case inner of
        Reliable rx \<Rightarrow>
          (case (if transport r then drain_reliable M rd (mpsc_close M rx) h else Some (rx, h)) of
             None \<Rightarrow> None
           | Some (rx', h') \<Rightarrow> Some (Reliable (mpsc_drop_receiver M rx'), h'))
      | Lossy rx \<Rightarrow>
          let (rx', h') =
            (if transport r
             then (case close_and_drain rx of
                     (pending, rx', _) \<Rightarrow> (rx', fold (\<lambda>_. rd ClosedBeforeDelivery) pending h))
             else (rx, h))
          in Some (Lossy (fst (receiver_drop rx')), h'))"

section \<open>Settings\<close>

record NetworkQueueSettings =
  send_capacity :: usize
  receive_capacity :: usize
  events_per_frame :: usize
  datagram_send_overflow :: OverflowPolicy
  datagram_receive_overflow :: OverflowPolicy

definition default_queue_settings :: NetworkQueueSettings where
  "default_queue_settings =
     \<lparr>send_capacity = 1024, receive_capacity = 4096, events_per_frame = 256,
      datagram_send_overflow = DropNewest, datagram_receive_overflow = DropNewest\<rparr>"

definition outgoing_channel ::
  "('p, 'c) mpsc \<Rightarrow> NetworkQueueSettings \<Rightarrow> bool \<Rightarrow> ('p, 'c) OutgoingInner \<times> OutgoingReceiver"
where
  "outgoing_channel M s datagram =
     (if datagram
      then (Lossy (lossy_channel (max (send_capacity s) 1) usize_max (datagram_send_overflow s)),
            \<lparr>transport = False\<rparr>)
      else receiver_from (mpsc_channel M (max (send_capacity s) 1)))"

definition incoming_channel :: "('p, 'c) mpsc \<Rightarrow> NetworkQueueSettings \<Rightarrow> 'c" where
  "incoming_channel M s = mpsc_channel M (max (receive_capacity s) 1)"

section \<open>Forwarding decoded packets to ECS\<close>

record 'p PacketForwarder =
  fwd_sender :: "'p Shared"
  fwd_datagram :: bool

text \<open>
  One poll of \<open>forward\<close>: \<open>cancelled\<close> is what the token answers at this poll, \<open>on_evict\<close> acts on the
  handles' state like \<open>rd\<close> does. The result is \<open>Ready False\<close> when forwarding must stop.
\<close>

definition forward ::
  "(QueueDropReason \<Rightarrow> 'h \<Rightarrow> 'h) \<Rightarrow> ('p \<Rightarrow> 'h \<Rightarrow> 'h) \<Rightarrow> bool \<Rightarrow> 'p \<Rightarrow> 'p PacketForwarder \<Rightarrow> 'h
     \<Rightarrow> bool poll \<times> 'p PacketForwarder \<times> 'h \<times> notification list"
where
  "forward rd on_evict cancelled packet fw h =
     (if fwd_datagram fw then
        (case try_send packet 1 (fwd_sender fw) of
           (Inr evicted, sh, ns) \<Rightarrow>
             (Ready True, fw\<lparr>fwd_sender := sh\<rparr>, fold on_evict evicted h, ns)
         | (Inl (Closed _), sh, ns) \<Rightarrow> (Ready False, fw\<lparr>fwd_sender := sh\<rparr>, h, ns)
         | (Inl (Full _), sh, ns) \<Rightarrow>
             (Ready True, fw\<lparr>fwd_sender := sh\<rparr>, rd ReceiveQueueFull h, ns))
      else if cancelled then (Ready False, fw, h, [])
      else (case send_poll packet 1 (fwd_sender fw) of
              (Ready r, sh, ns) \<Rightarrow> (Ready (result_ok r), fw\<lparr>fwd_sender := sh\<rparr>, h, ns)
            | (Pending, sh, ns) \<Rightarrow> (Pending, fw\<lparr>fwd_sender := sh\<rparr>, h, ns)))"

section \<open>Documented behaviour of the bounded channel\<close>

text \<open>
  \<open>pend c\<close> are the messages buffered in \<open>c\<close>: closing the receiving side keeps them, \<open>try_recv\<close>
  returns them in order and fails once there are none.
\<close>

definition mpsc_laws :: "('p, 'c) mpsc \<Rightarrow> ('c \<Rightarrow> 'p list) \<Rightarrow> bool" where
  "mpsc_laws M pend \<longleftrightarrow>
     (\<forall>c. pend (mpsc_close M c) = pend c) \<and>
     (\<forall>c p ps. pend c = p # ps \<longrightarrow> (\<exists>c'. mpsc_try_recv M c = (Inr p, c') \<and> pend c' = ps)) \<and>
     (\<forall>c. pend c = [] \<longrightarrow> (\<exists>e c'. mpsc_try_recv M c = (Inl e, c') \<and> pend c' = []))"

text \<open>A list-based channel that satisfies them.\<close>

record 'p list_chan =
  lc_items :: "'p list"
  lc_cap :: usize
  lc_closed :: bool

definition list_mpsc :: "('p, 'p list_chan) mpsc" where
  "list_mpsc =
     \<lparr>mpsc_channel = (\<lambda>n. \<lparr>lc_items = [], lc_cap = n, lc_closed = False\<rparr>),
      mpsc_try_send = (\<lambda>p c. if lc_closed c then (Inl (Closed p), c)
                              else if lc_cap c \<le> length (lc_items c) then (Inl (Full p), c)
                              else (Inr (), c\<lparr>lc_items := lc_items c @ [p]\<rparr>)),
      mpsc_try_recv = (\<lambda>c. case lc_items c of
                              [] \<Rightarrow> (Inl (if lc_closed c then Disconnected else Empty), c)
                            | p # ps \<Rightarrow> (Inr p, c\<lparr>lc_items := ps\<rparr>)),
      mpsc_recv = (\<lambda>c. case lc_items c of
                          [] \<Rightarrow> (if lc_closed c then Ready None else Pending, c)
                        | p # ps \<Rightarrow> (Ready (Some p), c\<lparr>lc_items := ps\<rparr>)),
      mpsc_close = (\<lambda>c. c\<lparr>lc_closed := True\<rparr>),
      mpsc_drop_receiver = (\<lambda>c. c\<lparr>lc_items := [], lc_closed := True\<rparr>),
      mpsc_clone_sender = (\<lambda>c. c),
      mpsc_is_closed = lc_closed,
      mpsc_capacity = (\<lambda>c. lc_cap c - length (lc_items c)),
      mpsc_max_capacity = lc_cap\<rparr>"

lemma list_mpsc_laws: "mpsc_laws list_mpsc lc_items"
  by (auto simp: mpsc_laws_def list_mpsc_def)

section \<open>The drain loop ends\<close>

lemma drain_reliable_total:
  assumes "mpsc_laws M pend"
  shows "\<exists>rx'. drain_reliable M rd rx h = Some (rx', (rd ClosedBeforeDelivery ^^ length (pend rx)) h)
               \<and> pend rx' = []"
proof (induction "pend rx" arbitrary: rx h)
  case Nil
  then obtain e rx' where "mpsc_try_recv M rx = (Inl e, rx')" "pend rx' = []"
    using assms unfolding mpsc_laws_def by metis
  then show ?case
    using Nil by (subst drain_reliable.simps) auto
next
  case (Cons p ps)
  then obtain rx' where "mpsc_try_recv M rx = (Inr p, rx')" and p: "pend rx' = ps"
    using assms unfolding mpsc_laws_def by metis
  moreover have "length (pend rx) = Suc (length (pend rx'))"
    using Cons.hyps(2) p by (metis length_Cons)
  ultimately show ?case
    using Cons.hyps(1) [of rx' "rd ClosedBeforeDelivery h"]
    by (subst drain_reliable.simps) (auto simp: funpow_swap1)
qed

section \<open>Accounting of the datagram queue\<close>

datatype 'p out_op = OSend 'p | ORecv | ODropReceiver

datatype 'p out_event = SentOk 'p | SentFull 'p | SentClosed 'p | Received 'p

fun out_step ::
  "('p, 'c) mpsc \<Rightarrow> (QueueDropReason \<Rightarrow> 'h \<Rightarrow> 'h) \<Rightarrow> 'p out_op \<Rightarrow> ('p, 'c) OutgoingInner \<times> 'h
     \<Rightarrow> ('p out_event list \<times> ('p, 'c) OutgoingInner \<times> 'h) option"
where
  "out_step M rd (OSend p) (inner, h) =
     (case outgoing_try_send M rd p inner h of
        (Inr _, inner', h') \<Rightarrow> Some ([SentOk p], inner', h')
      | (Inl (SendFull q), inner', h') \<Rightarrow> Some ([SentFull q], inner', h')
      | (Inl (SendClosed q), inner', h') \<Rightarrow> Some ([SentClosed q], inner', h'))"
| "out_step M rd ORecv (inner, h) =
     (case outgoing_recv M inner of
        (Ready (Some p), inner') \<Rightarrow> Some ([Received p], inner', h)
      | (_, inner') \<Rightarrow> Some ([], inner', h))"
| "out_step M rd ODropReceiver (inner, h) =
     map_option (\<lambda>s. ([], s)) (outgoing_receiver_drop M rd \<lparr>transport = True\<rparr> inner h)"

fun out_run ::
  "('p, 'c) mpsc \<Rightarrow> (QueueDropReason \<Rightarrow> 'h \<Rightarrow> 'h) \<Rightarrow> 'p out_op list \<Rightarrow> ('p, 'c) OutgoingInner \<times> 'h
     \<Rightarrow> ('p out_event list \<times> ('p, 'c) OutgoingInner \<times> 'h) option"
where
  "out_run M rd [] s = Some ([], s)"
| "out_run M rd (op # ops) s =
     (case out_step M rd op s of
        None \<Rightarrow> None
      | Some (ev, s') \<Rightarrow> map_option (\<lambda>(evs, s''). (ev @ evs, s'')) (out_run M rd ops s'))"

fun is_ok :: "'p out_event \<Rightarrow> bool" where "is_ok (SentOk _) = True" | "is_ok _ = False"
fun is_full :: "'p out_event \<Rightarrow> bool" where "is_full (SentFull _) = True" | "is_full _ = False"
fun is_received :: "'p out_event \<Rightarrow> bool" where
  "is_received (Received _) = True" | "is_received _ = False"

definition count_ev :: "('p out_event \<Rightarrow> bool) \<Rightarrow> 'p out_event list \<Rightarrow> nat" where
  "count_ev P evs = length (filter P evs)"

lemma count_ev_simps [simp]:
  "count_ev P [] = 0" "count_ev P (e # es) = (if P e then 1 else 0) + count_ev P es"
  "count_ev P (as @ bs) = count_ev P as + count_ev P bs"
  by (simp_all add: count_ev_def)

lemma fold_const_funpow: "fold (\<lambda>_. f) xs h = (f ^^ length xs) h"
  by (induction xs arbitrary: h) (simp_all add: funpow_swap1)

text \<open>The balance of one datagram queue and its handle, as \<open>u64\<close> words.\<close>

definition lossy_queued :: "('p, 'c) OutgoingInner \<Rightarrow> nat" where
  "lossy_queued inner = (case inner of Lossy sh \<Rightarrow> length (items (state sh)) | Reliable _ \<Rightarrow> 0)"

fun lossy_inner_wf :: "('p, 'c) OutgoingInner \<Rightarrow> bool" where
  "lossy_inner_wf (Lossy sh) = lossy_wf sh"
| "lossy_inner_wf (Reliable c) = False"

definition lost :: "UdpConnectionHandle \<Rightarrow> u64" where
  "lost h = udp_drops OutgoingQueueEvicted h + udp_drops ClosedBeforeDelivery h"

definition balanced_step ::
  "'p out_event list \<Rightarrow> ('p, 'c) OutgoingInner \<times> UdpConnectionHandle
     \<Rightarrow> ('p, 'c) OutgoingInner \<times> UdpConnectionHandle \<Rightarrow> bool"
where
  "balanced_step evs s s' \<longleftrightarrow>
     of_nat (count_ev is_ok evs) + of_nat (lossy_queued (fst s)) + lost (snd s) =
       of_nat (count_ev is_received evs) + of_nat (lossy_queued (fst s')) + lost (snd s') \<and>
     udp_drops OutgoingQueueFull (snd s') =
       udp_drops OutgoingQueueFull (snd s) + of_nat (count_ev is_full evs)"

lemma balance_add:
  fixes i :: "'a :: ab_group_add"
  assumes "i + q + l = r + q' + l'" and "i' + q' + l' = r' + q'' + l''"
  shows "(i + i') + q + l = (r + r') + q'' + l''"
proof -
  have "(i + i') + q + l = i' + (i + q + l)" by (simp add: add_ac)
  also have "\<dots> = i' + (r + q' + l')" by (simp only: assms(1))
  also have "\<dots> = r + (i' + q' + l')" by (simp add: add_ac)
  also have "\<dots> = r + (r' + q'' + l'')" by (simp only: assms(2))
  finally show ?thesis by (simp add: add_ac)
qed

lemma balanced_step_trans:
  "balanced_step a s s' \<Longrightarrow> balanced_step b s' s'' \<Longrightarrow> balanced_step (a @ b) s s''"
  unfolding balanced_step_def count_ev_simps of_nat_add
  by (intro conjI balance_add) (auto simp: add_ac)

lemma outgoing_send_balanced:
  assumes wf: "lossy_wf sh"
    and step: "out_step M record_drop (OSend p) (Lossy sh, h) = Some (evs, s')"
  shows "lossy_inner_wf (fst s') \<and> balanced_step evs (Lossy sh, h) s'"
proof -
  obtain r sh' ns where t: "try_send_where p 1 (\<lambda>_. True) sh = (r, sh', ns)"
    by (metis prod_cases3)
  have wf': "lossy_wf sh'" by (rule try_send_where_wf [OF wf t])
  show ?thesis
  proof (cases r)
    case (Inl e)
    then have "sh' = sh" "e = (if receiver_open (state sh) then Full p else Closed p)"
      using try_send_where_err [OF wf] t by simp_all
    then show ?thesis
      using t step wf Inl
      by (auto simp: outgoing_try_send_def try_send_def balanced_step_def lost_def lossy_queued_def
          uh.record_drop_counts split: if_splits)
  next
    case (Inr ev)
    have "length ev + length (items (state sh')) = Suc (length (items (state sh)))"
      using arg_cong [OF try_send_where_log [OF wf t [unfolded Inr]], of length] by simp
    then have "of_nat (length ev) + of_nat (length (items (state sh')))
                 = (1 :: u64) + of_nat (length (items (state sh)))"
      by (metis Suc_eq_plus1_left of_nat_1 of_nat_add)
    then show ?thesis
      using t step wf' Inr
      by (auto simp: outgoing_try_send_def try_send_def balanced_step_def lost_def lossy_queued_def
          fold_const_funpow uh.replicate_record_drop algebra_simps)
  qed
qed

lemma outgoing_recv_balanced:
  assumes wf: "lossy_wf sh"
    and step: "out_step M record_drop ORecv (Lossy sh, h) = Some (evs, s')"
  shows "lossy_inner_wf (fst s') \<and> balanced_step evs (Lossy sh, h) s'"
proof -
  obtain r sh' ns where t: "try_recv_if (\<lambda>_. True) sh = (r, sh', ns)"
    by (metis prod_cases3)
  have wf': "lossy_wf sh'" by (rule try_recv_if_wf [OF wf t])
  show ?thesis
  proof (cases r)
    case (Inl e)
    then show ?thesis
      using t step wf' try_recv_if_log(2) [OF t [unfolded Inl]]
      by (cases e) (auto simp: outgoing_recv_def recv_poll_def try_recv_def balanced_step_def)
  next
    case (Inr v)
    have "length (items (state sh)) = Suc (length (items (state sh')))"
      using try_recv_if_log(1) [OF t [unfolded Inr]] by (metis length_Cons length_map)
    then show ?thesis
      using t step wf' Inr
      by (auto simp: outgoing_recv_def recv_poll_def try_recv_def balanced_step_def
          lossy_queued_def)
  qed
qed

lemma outgoing_close_balanced:
  assumes wf: "lossy_wf sh"
    and step: "out_step M record_drop ODropReceiver (Lossy sh, h) = Some (evs, s')"
  shows "lossy_inner_wf (fst s') \<and> balanced_step evs (Lossy sh, h) s'"
  using assms
  by (auto simp: outgoing_receiver_drop_def close_and_drain_def receiver_drop_def balanced_step_def
      lost_def lossy_queued_def lossy_wf_def fold_const_funpow uh.replicate_record_drop)

lemma out_step_balanced:
  assumes "lossy_inner_wf (fst s)" and "out_step M record_drop op s = Some (evs, s')"
  shows "lossy_inner_wf (fst s') \<and> balanced_step evs s s'"
proof -
  obtain sh h where s: "s = (Lossy sh, h)" and wf: "lossy_wf sh"
    using assms(1) by (cases s; cases "fst s") auto
  show ?thesis
  proof (cases op)
    case (OSend p)
    then show ?thesis using outgoing_send_balanced [OF wf] assms(2) unfolding s by blast
  next
    case ORecv
    then show ?thesis using outgoing_recv_balanced [OF wf] assms(2) unfolding s by blast
  next
    case ODropReceiver
    then show ?thesis using outgoing_close_balanced [OF wf] assms(2) unfolding s by blast
  qed
qed

lemma out_run_balanced:
  assumes "lossy_inner_wf (fst s)" and "out_run M record_drop ops s = Some (evs, s')"
  shows "lossy_inner_wf (fst s') \<and> balanced_step evs s s'"
  using assms
proof (induction ops arbitrary: s evs)
  case Nil
  then show ?case by (simp add: balanced_step_def)
next
  case (Cons op ops)
  then obtain ev s1 where st: "out_step M record_drop op s = Some (ev, s1)"
    by (auto split: option.splits)
  then obtain evs1 where run: "out_run M record_drop ops s1 = Some (evs1, s')" and e: "evs = ev @ evs1"
    using Cons.prems(2) by auto
  show ?case
    using out_step_balanced [OF Cons.prems(1) st] Cons.IH [OF _ run] balanced_step_trans
    unfolding e by blast
qed

lemma outgoing_channel_wf:
  "send_capacity s \<le> usize_max \<Longrightarrow> lossy_inner_wf (fst (outgoing_channel M s True))"
  by (simp add: outgoing_channel_def lossy_channel_wf)

lemma lossy_queued_snapshot: "lossy_inner_wf i \<Longrightarrow> lossy_queued i = queued (outgoing_snapshot M i)"
  by (cases i) (simp_all add: lossy_queued_def outgoing_snapshot_def snapshot_def)

section \<open>Properties\<close>

lemma out_step_total: "\<exists>evs sh' h'. out_step M rd op (Lossy sh, h) = Some (evs, Lossy sh', h')"
  by (cases op)
    (auto simp: outgoing_try_send_def outgoing_recv_def outgoing_receiver_drop_def Let_def
      split: prod.split sum.split TrySendError.split poll.split option.split)

lemma out_run_total: "\<exists>evs sh' h'. out_run M rd ops (Lossy sh, h) = Some (evs, Lossy sh', h')"
proof (induction ops arbitrary: sh h)
  case (Cons op ops)
  obtain ev sh1 h1 where "out_step M rd op (Lossy sh, h) = Some (ev, Lossy sh1, h1)"
    using out_step_total [of M rd op sh h] by auto
  then show ?case using Cons [of sh1 h1] by auto
qed simp

text \<open>
  (C26) No datagram submitted by ECS disappears without trace: over any sequence of sends, receives by
  the writer and the closing of the receiver, on a queue made by \<open>outgoing_channel\<close>, the number of
  accepted packets equals the packets taken by the writer, plus those still queued, plus those the
  UDP handle's counters report as evicted or closed before delivery; and every \<open>Full\<close> error is
  counted as a full-queue drop.
\<close>

theorem outgoing_drop_accounting:
  assumes "send_capacity s \<le> usize_max"
  shows "\<exists>evs inner h. out_run M record_drop ops (fst (outgoing_channel M s True), handle_new mps r)
           = Some (evs, inner, h)
     \<and> (of_nat (count_ev is_ok evs) :: u64) =
           of_nat (count_ev is_received evs) + of_nat (queued (outgoing_snapshot M inner))
           + udp_drops OutgoingQueueEvicted h + udp_drops ClosedBeforeDelivery h
     \<and> udp_drops OutgoingQueueFull h = of_nat (count_ev is_full evs)"
proof -
  have z: "udp_drops x (handle_new mps r) = 0" for x
    by (cases x) (simp_all add: udp_drops_def handle_new_def zero_counters_def)
  have q: "lossy_queued (fst (outgoing_channel M s True)) = 0"
    by (simp add: outgoing_channel_def lossy_queued_def lossy_channel_def)
  obtain sh0 where sh0: "fst (outgoing_channel M s True) = Lossy sh0"
    by (simp add: outgoing_channel_def)
  then obtain evs sh h where run: "out_run M record_drop ops (fst (outgoing_channel M s True), handle_new mps r)
      = Some (evs, Lossy sh, h)"
    using out_run_total [of M record_drop ops sh0 "handle_new mps r"] by auto
  then show ?thesis
    using out_run_balanced [OF _ run] outgoing_channel_wf [OF assms, of M]
      lossy_queued_snapshot [of "Lossy sh" M]
    by (auto simp: balanced_step_def lost_def z q algebra_simps)
qed

lemmas outgoing_eval =
  outgoing_try_send_def outgoing_channel_def outgoing_recv_def outgoing_receiver_drop_def
  outgoing_snapshot_def snapshot_def receiver_drop_def lossy_eval
  record_drop_def count_drop_def handle_new_def zero_counters_def udp_drops_def

definition demo_queue_settings :: NetworkQueueSettings where
  "demo_queue_settings = default_queue_settings\<lparr>send_capacity := 2, datagram_send_overflow := DropOldest\<rparr>"

theorem outgoing_drop_accounting_witness:
  "\<exists>inner h. out_run list_mpsc record_drop
       [OSend 1, OSend 2, OSend (3 :: nat), ORecv, ODropReceiver, OSend 4]
       (fst (outgoing_channel list_mpsc demo_queue_settings True), handle_new 1200 None)
     = Some ([SentOk 1, SentOk 2, SentOk 3, Received 2, SentClosed 4], inner, h)
     \<and> (3 :: u64) = 1 + of_nat (queued (outgoing_snapshot list_mpsc inner))
         + udp_drops OutgoingQueueEvicted h + udp_drops ClosedBeforeDelivery h"
proof -
  have c: "send_capacity demo_queue_settings \<le> usize_max"
    by (simp add: demo_queue_settings_def usize_max_def)
  obtain inner h where run: "out_run list_mpsc record_drop
       [OSend 1, OSend 2, OSend (3 :: nat), ORecv, ODropReceiver, OSend 4]
       (fst (outgoing_channel list_mpsc demo_queue_settings True), handle_new 1200 None)
     = Some ([SentOk 1, SentOk 2, SentOk 3, Received 2, SentClosed 4], inner, h)"
    by (simp add: outgoing_eval demo_queue_settings_def default_queue_settings_def usize_max_def)
  show ?thesis
    using run outgoing_drop_accounting [OF c, of list_mpsc "[OSend 1, OSend 2, OSend (3 :: nat), ORecv, ODropReceiver, OSend 4]"
        1200 None] by auto
qed

text \<open>
  Dropping the receiver of a reliable queue terminates and counts every buffered packet as
  closed before delivery, and nothing else, when a transport handle is set; without one it leaves
  the counters alone.
\<close>

theorem reliable_receiver_drop_counts:
  assumes "mpsc_laws M pend"
  shows "\<exists>rx' h'. outgoing_receiver_drop M record_drop rc (Reliable rx) h = Some (Reliable rx', h')
    \<and> (\<forall>r. udp_drops r h' = udp_drops r h
           + (if transport rc \<and> r = ClosedBeforeDelivery then of_nat (length (pend rx)) else 0))"
proof -
  have "length (pend (mpsc_close M rx)) = length (pend rx)"
    using assms by (simp add: mpsc_laws_def)
  then show ?thesis
    using drain_reliable_total [OF assms, of record_drop "mpsc_close M rx" h]
    by (auto simp: outgoing_receiver_drop_def uh.replicate_record_drop)
qed

theorem reliable_receiver_drop_counts_witness:
  "\<exists>rx' h'. outgoing_receiver_drop list_mpsc record_drop \<lparr>transport = True\<rparr>
       (Reliable \<lparr>lc_items = [7, 8 :: nat], lc_cap = 4, lc_closed = False\<rparr>) (handle_new 9 None)
     = Some (Reliable rx', h') \<and> udp_drops ClosedBeforeDelivery h' = 2"
  using reliable_receiver_drop_counts [OF list_mpsc_laws, of "\<lparr>transport = True\<rparr>"
      "\<lparr>lc_items = [7, 8 :: nat], lc_cap = 4, lc_closed = False\<rparr>" "handle_new 9 None"]
  by (auto simp: udp_drops_def handle_new_def zero_counters_def dest: spec [of _ ClosedBeforeDelivery])

text \<open>
  (C35) Forwarding of decoded packets. For datagrams a poll always completes, and stops the reader
  exactly when the ECS side is gone; a full queue counts one drop and goes on. For streams nothing
  is dropped or counted: the packet is appended exactly when forwarding succeeds, and waiting or
  stopping leaves the queue as it was.
\<close>

theorem forward_semantics:
  assumes "lossy_wf (fwd_sender fw)" and "forward rd on_evict cancelled p fw h = (res, fw', h', ns)"
  shows "if fwd_datagram fw
         then res = Ready (receiver_open (state (fwd_sender fw)))
              \<and> (\<exists>ev. (queue_contents (fwd_sender fw') = queue_contents (fwd_sender fw)
                        \<and> h' = (if res = Ready True then rd ReceiveQueueFull h else h))
                    \<or> (ev @ queue_contents (fwd_sender fw') = queue_contents (fwd_sender fw) @ [p]
                        \<and> h' = fold on_evict ev h))
         else h' = h \<and> queue_contents (fwd_sender fw') =
                queue_contents (fwd_sender fw) @ (if res = Ready True then [p] else [])"
proof (cases "fwd_datagram fw")
  case True
  obtain r sh n where t: "try_send_where p 1 (\<lambda>_. True) (fwd_sender fw) = (r, sh, n)"
    by (metis prod_cases3)
  show ?thesis
  proof (cases r)
    case (Inl e)
    then show ?thesis
      using True assms t try_send_where_err [OF assms(1) t [unfolded Inl]]
      by (cases "receiver_open (state (fwd_sender fw))")
        (auto simp: forward_def try_send_def queue_contents_def)
  next
    case (Inr ev)
    then show ?thesis
      using True assms t try_send_where_log [OF assms(1) t [unfolded Inr]]
        try_send_where_open [OF assms(1) t [unfolded Inr]]
      by (auto simp: forward_def try_send_def queue_contents_def)
  qed
next
  case False
  then show ?thesis
    using assms by (auto simp: forward_def queue_contents_def send_poll_def split: if_splits)
qed

theorem forward_semantics_witness:
  "\<exists>fw' ns. forward record_drop (\<lambda>_. record_drop ReceiveQueueEvicted) False (9 :: nat)
       \<lparr>fwd_sender = demo_full, fwd_datagram = True\<rparr> (handle_new 5 None)
     = (Ready True, fw', record_drop ReceiveQueueEvicted (handle_new 5 None), ns)
     \<and> [1] @ queue_contents (fwd_sender fw') = [1, 2, 9]"
proof -
  let ?fw = "\<lparr>fwd_sender = demo_full, fwd_datagram = True\<rparr>"
  obtain fw' ns where f: "forward record_drop (\<lambda>_. record_drop ReceiveQueueEvicted) False (9 :: nat) ?fw
      (handle_new 5 None) = (Ready True, fw', record_drop ReceiveQueueEvicted (handle_new 5 None), ns)"
    and q: "queue_contents (fwd_sender fw') = [2, 9]"
    by (simp add: forward_def lossy_eval queue_contents_def)
  have wf: "lossy_wf (fwd_sender ?fw)" by (simp add: demo_full_wf)
  show ?thesis
    using forward_semantics [OF wf f] f q by (simp add: demo_full_def queue_contents_def)
qed

end
