(* ===== verification/Net_Settings.thy ===== *)
theory Net_Settings
  imports Outgoing_Queue
begin

text \<open>
  App-wide and endpoint-specific settings: \<^verbatim>\<open>src/src/connection/settings.rs\<close> and the receive limits
  of \<^verbatim>\<open>src/src/connection/mod.rs\<close>. A \<open>ReceiveLimits\<close> is a shared \<open>AtomicUsize\<close>; its value is passed
  explicitly. Resources are \<open>option\<close> values, as the systems receive them.
\<close>

section \<open>Receive limits\<close>

type_synonym ReceiveLimits = usize

definition limits_new :: "usize \<Rightarrow> ReceiveLimits" where
  "limits_new n = n"

definition default_limits :: ReceiveLimits where
  "default_limits = limits_new usize_max"

definition max_packet_size :: "ReceiveLimits \<Rightarrow> usize" where
  "max_packet_size l = l"

definition set_max_packet_size :: "usize \<Rightarrow> ReceiveLimits \<Rightarrow> ReceiveLimits" where
  "set_max_packet_size n l = n"

datatype MaxPacketSize = MaxPacketSize usize

fun max_packet_size_0 :: "MaxPacketSize \<Rightarrow> usize" where
  "max_packet_size_0 (MaxPacketSize n) = n"

definition set_system :: "MaxPacketSize option \<Rightarrow> ReceiveLimits \<Rightarrow> ReceiveLimits" where
  "set_system res limits =
     set_max_packet_size (case res of None \<Rightarrow> usize_max | Some r \<Rightarrow> max_packet_size_0 r) limits"

section \<open>Endpoint settings\<close>

record NetworkSettings =
  queues :: "NetworkQueueSettings option"
  ns_max_packet_size :: "usize option"

definition default_network_settings :: NetworkSettings where
  "default_network_settings = \<lparr>queues = None, ns_max_packet_size = None\<rparr>"

definition with_queues :: "NetworkQueueSettings \<Rightarrow> NetworkSettings \<Rightarrow> NetworkSettings" where
  "with_queues q s = s\<lparr>queues := Some q\<rparr>"

definition with_max_packet_size :: "usize \<Rightarrow> NetworkSettings \<Rightarrow> NetworkSettings" where
  "with_max_packet_size n s = s\<lparr>ns_max_packet_size := Some n\<rparr>"

definition resolve_queues ::
  "NetworkSettings option \<Rightarrow> NetworkQueueSettings option \<Rightarrow> NetworkQueueSettings"
where
  "resolve_queues settings global =
     (case Option.bind settings queues of
        Some q \<Rightarrow> q
      | None \<Rightarrow> (case global of Some q \<Rightarrow> q | None \<Rightarrow> default_queue_settings))"

definition sync_limits ::
  "NetworkSettings option \<Rightarrow> MaxPacketSize option \<Rightarrow> ReceiveLimits \<Rightarrow> ReceiveLimits"
where
  "sync_limits settings global limits =
     set_max_packet_size
       (case Option.bind settings ns_max_packet_size of
          Some n \<Rightarrow> n
        | None \<Rightarrow> (case global of Some g \<Rightarrow> max_packet_size_0 g | None \<Rightarrow> usize_max)) limits"

definition warns_unlimited :: "NetworkSettings option \<Rightarrow> MaxPacketSize option \<Rightarrow> bool" where
  "warns_unlimited settings global \<longleftrightarrow>
     Option.bind settings ns_max_packet_size = None \<and> global = None"

record EndpointSetup =
  global_queues :: "NetworkQueueSettings option"
  setup_settings :: "NetworkSettings option"
  setup_limits :: ReceiveLimits

definition setup_queues :: "EndpointSetup \<Rightarrow> NetworkQueueSettings" where
  "setup_queues e = resolve_queues (setup_settings e) (global_queues e)"

definition setup_receive_limits :: "EndpointSetup \<Rightarrow> ReceiveLimits" where
  "setup_receive_limits e = setup_limits e"

lemmas settings_defs =
  resolve_queues_def sync_limits_def with_queues_def with_max_packet_size_def set_max_packet_size_def
  max_packet_size_def set_system_def warns_unlimited_def setup_queues_def

text \<open>
  Precedence of settings: an endpoint override wins over the app-wide resource and that over
  the library default, for queues and for the packet size limit; the limit stays at \<open>usize::MAX\<close>
  whenever the missing-limit warning is given.
\<close>

theorem settings_precedence:
  "resolve_queues (Some (with_queues q s)) g = q
   \<and> (\<forall>e. queues e = None \<longrightarrow> resolve_queues (Some e) (Some gq) = gq \<and> resolve_queues (Some e) None = default_queue_settings)
   \<and> resolve_queues None (Some gq) = gq \<and> resolve_queues None None = default_queue_settings
   \<and> max_packet_size (sync_limits (Some (with_max_packet_size n s)) gm l) = n
   \<and> (\<forall>e. ns_max_packet_size e = None \<longrightarrow>
        max_packet_size (sync_limits (Some e) gm l) = max_packet_size (set_system gm l))
   \<and> (warns_unlimited es gm \<longrightarrow> max_packet_size (sync_limits es gm l) = usize_max)"
  by (auto simp: settings_defs split: option.splits)

theorem settings_precedence_witness:
  "max_packet_size (sync_limits (Some (with_max_packet_size 512 default_network_settings))
      (Some (MaxPacketSize 64)) default_limits) = 512
   \<and> resolve_queues (Some default_network_settings) (Some demo_queue_settings) = demo_queue_settings"
  using settings_precedence [of demo_queue_settings default_network_settings None
      demo_queue_settings 512 "Some (MaxPacketSize 64)" default_limits]
  by (simp add: default_network_settings_def)

end
