(* ===== verification/Ecs_Connection.thy ===== *)
theory Ecs_Connection
  imports Net_Settings
begin

text \<open>
  The two sides of a connection: \<^verbatim>\<open>src/src/connection/mod.rs\<close>, \<^verbatim>\<open>parts.rs\<close> and \<^verbatim>\<open>transport.rs\<close>. An
  \<open>EcsConnection\<close> is a clonable handle whose clones share everything mutable through \<open>Arc\<close>s, so one
  record stands for all clones: the outgoing queue, the \<open>published\<close> flag and the transport handle's
  state are kept in it. Cancellation tokens live in the token state \<open>ts\<close>.
\<close>

section \<open>Connection identifiers\<close>

type_synonym ConnectionId = usize

text \<open>\<open>ConnectionId::next\<close> on the process-wide counter.\<close>

definition id_next :: "usize \<Rightarrow> ConnectionId \<times> usize" where
  "id_next counter = (counter, usize_add counter 1)"

fun id_next_n :: "nat \<Rightarrow> usize \<Rightarrow> ConnectionId list \<times> usize" where
  "id_next_n 0 c = ([], c)"
| "id_next_n (Suc n) c =
     (case id_next c of (i, c') \<Rightarrow> (case id_next_n n c' of (is, c'') \<Rightarrow> (i # is, c'')))"

section \<open>The ECS side\<close>

record ('p, 'c, 'h, 'k) EcsConnection =
  disconnect_task :: 'k
  conn_id :: ConnectionId
  published :: bool
  packet_tx :: "('p, 'c) OutgoingInner"
  conn_transport :: 'h
  local_addr :: SocketAddr
  peer_addr :: SocketAddr

definition ecs_clone ::
  "('p, 'c) mpsc \<Rightarrow> ('p, 'c, 'h, 'k) EcsConnection \<Rightarrow> ('p, 'c, 'h, 'k) EcsConnection"
where
  "ecs_clone M conn = conn\<lparr>packet_tx := sender_clone_outgoing M (packet_tx conn)\<rparr>"

definition with_endpoint ::
  "('p, 'c, 'h, 'k) EcsConnection \<Rightarrow> ('p, 'c, 'h, 'k) EcsConnection"
where
  "with_endpoint conn =
     \<lparr>disconnect_task = disconnect_task conn, conn_id = conn_id conn, published = published conn,
      packet_tx = packet_tx conn, conn_transport = conn_transport conn,
      local_addr = local_addr conn, peer_addr = peer_addr conn\<rparr>"

definition mark_published ::
  "('p, 'c, 'h, 'k) EcsConnection \<Rightarrow> ('p, 'c, 'h, 'k) EcsConnection"
where
  "mark_published conn = conn\<lparr>published := True\<rparr>"

definition is_published :: "('p, 'c, 'h, 'k) EcsConnection \<Rightarrow> bool" where
  "is_published conn = published conn"

definition ecs_is_closed ::
  "('p, 'c) mpsc \<Rightarrow> ('k, 'ts) tokens \<Rightarrow> ('p, 'c, 'h, 'k) EcsConnection \<Rightarrow> 'ts \<Rightarrow> bool"
where
  "ecs_is_closed M T conn ts =
     (tok_is_cancelled T ts (disconnect_task conn) \<or> outgoing_is_closed M (packet_tx conn))"

definition outgoing_queue ::
  "('p, 'c) mpsc \<Rightarrow> ('p, 'c, 'h, 'k) EcsConnection \<Rightarrow> QueueSnapshot"
where
  "outgoing_queue M conn = outgoing_snapshot M (packet_tx conn)"

definition ecs_send ::
  "('p, 'c) mpsc \<Rightarrow> ('k, 'ts) tokens \<Rightarrow> (QueueDropReason \<Rightarrow> 'h \<Rightarrow> 'h) \<Rightarrow> 'p
     \<Rightarrow> ('p, 'c, 'h, 'k) EcsConnection \<Rightarrow> 'ts
     \<Rightarrow> ('p SendError + unit) \<times> ('p, 'c, 'h, 'k) EcsConnection"
where
  "ecs_send M T rd packet conn ts =
     (if tok_is_cancelled T ts (disconnect_task conn) then (Inl (SendClosed packet), conn)
      else (case outgoing_try_send M rd packet (packet_tx conn) (conn_transport conn) of
              (r, inner, h) \<Rightarrow> (r, conn\<lparr>packet_tx := inner, conn_transport := h\<rparr>)))"

definition ecs_record_drop ::
  "(QueueDropReason \<Rightarrow> 'h \<Rightarrow> 'h) \<Rightarrow> QueueDropReason \<Rightarrow> ('p, 'c, 'h, 'k) EcsConnection
     \<Rightarrow> ('p, 'c, 'h, 'k) EcsConnection"
where
  "ecs_record_drop rd reason conn = conn\<lparr>conn_transport := rd reason (conn_transport conn)\<rparr>"

definition ecs_disconnect ::
  "('k, 'ts) tokens \<Rightarrow> ('p, 'c, 'h, 'k) EcsConnection \<Rightarrow> 'ts \<Rightarrow> 'ts"
where
  "ecs_disconnect T conn ts = tok_cancel T (disconnect_task conn) ts"

section \<open>The task side\<close>

text \<open>The methods of \<open>NetworkStream\<close> that a connection asks of its stream.\<close>

record ('s, 'h) NetworkStream =
  ns_transport :: "'s \<Rightarrow> 'h"
  ns_local_addr :: "'s \<Rightarrow> SocketAddr"
  ns_peer_addr :: "'s \<Rightarrow> SocketAddr"

record ('s, 'z, 'l, 'k) RawConnection =
  raw_disconnect_task :: 'k
  stream :: 's
  serializer :: 'z
  packet_length_serializer :: 'l
  packets_rx :: OutgoingReceiver
  receive_limits :: ReceiveLimits
  raw_id :: ConnectionId

record ('s, 'z, 'l, 'k) RawConnectionParts =
  parts_disconnect_task :: 'k
  parts_stream :: 's
  parts_serializer :: 'z
  parts_packet_length_serializer :: 'l
  parts_packets_rx :: OutgoingReceiver
  parts_receive_limits :: ReceiveLimits
  parts_id :: ConnectionId

text \<open>\<open>tok\<close> is the result of \<open>runtime::connection_token\<close>; \<open>counter\<close> the process-wide counter.\<close>

definition with_limits ::
  "'k \<Rightarrow> 's \<Rightarrow> 'z \<Rightarrow> 'l \<Rightarrow> OutgoingReceiver \<Rightarrow> ReceiveLimits \<Rightarrow> usize
     \<Rightarrow> ('s, 'z, 'l, 'k) RawConnection \<times> usize"
where
  "with_limits tok st sr ls rx limits counter =
     (let rx' = set_transport rx; (i, counter') = id_next counter
      in (\<lparr>raw_disconnect_task = tok, stream = st, serializer = sr, packet_length_serializer = ls,
           packets_rx = rx', receive_limits = limits, raw_id = i\<rparr>, counter'))"

definition raw_new ::
  "'k \<Rightarrow> 's \<Rightarrow> 'z \<Rightarrow> 'l \<Rightarrow> 'c \<Rightarrow> usize
     \<Rightarrow> ('s, 'z, 'l, 'k) RawConnection \<times> ('p, 'c) OutgoingInner \<times> usize"
where
  "raw_new tok st sr ls rx counter =
     (let (inner, receiver) = receiver_from rx;
          (raw, counter') = with_limits tok st sr ls receiver default_limits counter
      in (raw, inner, counter'))"

definition ecs_connection ::
  "('s, 'h) NetworkStream \<Rightarrow> ('p, 'c) OutgoingInner \<Rightarrow> ('s, 'z, 'l, 'k) RawConnection
     \<Rightarrow> ('p, 'c, 'h, 'k) EcsConnection"
where
  "ecs_connection N tx raw =
     \<lparr>disconnect_task = raw_disconnect_task raw, conn_id = raw_id raw, published = False,
      packet_tx = tx, conn_transport = ns_transport N (stream raw),
      local_addr = ns_local_addr N (stream raw), peer_addr = ns_peer_addr N (stream raw)\<rparr>"

definition with_queue ::
  "('p, 'c) mpsc \<Rightarrow> ('s, 'h) NetworkStream \<Rightarrow> 'k \<Rightarrow> 's \<Rightarrow> 'z \<Rightarrow> 'l \<Rightarrow> NetworkQueueSettings
     \<Rightarrow> ReceiveLimits \<Rightarrow> bool \<Rightarrow> usize
     \<Rightarrow> ('s, 'z, 'l, 'k) RawConnection \<times> ('p, 'c, 'h, 'k) EcsConnection \<times> usize"
where
  "with_queue M N tok st sr ls qs limits datagram counter =
     (let (sender, receiver) = outgoing_channel M qs datagram;
          (raw, counter') = with_limits tok st sr ls receiver limits counter
      in (raw, ecs_connection N sender raw, counter'))"

definition into_parts ::
  "('s, 'z, 'l, 'k) RawConnection \<Rightarrow> ('s, 'z, 'l, 'k) RawConnectionParts"
where
  "into_parts raw =
     \<lparr>parts_disconnect_task = raw_disconnect_task raw, parts_stream = stream raw,
      parts_serializer = serializer raw,
      parts_packet_length_serializer = packet_length_serializer raw,
      parts_packets_rx = packets_rx raw, parts_receive_limits = receive_limits raw,
      parts_id = raw_id raw\<rparr>"

text \<open>\<open>into_stream\<close> keeps the stream and drops the rest, the queue's receiver included.\<close>

definition into_stream ::
  "('p, 'c) mpsc \<Rightarrow> (QueueDropReason \<Rightarrow> 'h \<Rightarrow> 'h) \<Rightarrow> ('s, 'z, 'l, 'k) RawConnection
     \<Rightarrow> ('p, 'c) OutgoingInner \<Rightarrow> 'h \<Rightarrow> ('s \<times> ('p, 'c) OutgoingInner \<times> 'h) option"
where
  "into_stream M rd raw inner h =
     (case outgoing_receiver_drop M rd (packets_rx raw) inner h of
        None \<Rightarrow> None
      | Some (inner', h') \<Rightarrow> Some (stream raw, inner', h'))"

definition raw_disconnect ::
  "('k, 'ts) tokens \<Rightarrow> ('s, 'z, 'l, 'k) RawConnection \<Rightarrow> 'ts \<Rightarrow> 'ts"
where
  "raw_disconnect T raw ts = tok_cancel T (raw_disconnect_task raw) ts"

section \<open>Interrupted sends\<close>

text \<open>\<open>PendingPacket\<close> holds a handle until the send has finished; the flag says whether it does.\<close>

datatype PendingPacket = PendingPacket (armed: bool)

definition pending_new :: PendingPacket where
  "pending_new = PendingPacket True"

definition pending_finish :: "io_error + unit \<Rightarrow> PendingPacket \<Rightarrow> PendingPacket" where
  "pending_finish result pp =
     (case result of
        Inl err \<Rightarrow> (if kind err = ConnectionAborted then pp else PendingPacket False)
      | Inr _ \<Rightarrow> PendingPacket False)"

definition pending_drop :: "(QueueDropReason \<Rightarrow> 'h \<Rightarrow> 'h) \<Rightarrow> PendingPacket \<Rightarrow> 'h \<Rightarrow> 'h" where
  "pending_drop rd pp h = (if armed pp then rd ClosedBeforeDelivery h else h)"

section \<open>Properties\<close>

lemma id_next_n_eq:
  "c < 2 ^ 64 \<Longrightarrow> id_next_n n c = (map (\<lambda>i. (c + i) mod 2 ^ 64) [0..<n], (c + n) mod 2 ^ 64)"
proof (induction n arbitrary: c)
  case (Suc n)
  have m: "((c + 1) mod 2 ^ 64 + i) mod 2 ^ 64 = (c + Suc i) mod 2 ^ 64" for i
    by (simp add: mod_simps)
  have "map (\<lambda>i. (c + i) mod 2 ^ 64) [0..<Suc n] =
        c mod 2 ^ 64 # map (\<lambda>i. (c + Suc i) mod 2 ^ 64) [0..<n]"
    by (simp add: upt_conv_Cons map_Suc_upt [symmetric] del: upt_Suc)
  then show ?case
    using Suc.prems Suc.IH [of "(c + 1) mod 2 ^ 64"] m
    by (simp add: id_next_def usize_add_def)
qed simp

lemma mod_shift_inj:
  assumes "(c + i) mod m = (c + j) mod (m :: nat)" and "i < m" "j < m"
  shows "i = j"
proof (rule ccontr)
  assume "i \<noteq> j"
  have *: False if "a < b" "b < m" "(c + a) mod m = (c + b) mod m" for a b
  proof -
    have "m dvd (c + b) - (c + a)"
      using that(1) mod_eq_dvd_iff_nat [of "c + a" "c + b" m] that(3) by simp
    then show False
      using that(1,2) by (auto dest: dvd_imp_le)
  qed
  from \<open>i \<noteq> j\<close> show False
    using * [of i j] * [of j i] assms by (metis linorder_neqE_nat)
qed

lemma mod_shift_inj_on: "n \<le> m \<Longrightarrow> inj_on (\<lambda>i. (c + i) mod (m :: nat)) (set [0..<n])"
  by (auto intro!: inj_onI dest: mod_shift_inj)

text \<open>
  Connection identifiers are unique: any run of at most \<open>2 ^ 64\<close> allocations from the
  process-wide counter yields pairwise distinct identifiers, wherever the counter stands.
\<close>

theorem connection_ids_unique:
  assumes "counter < 2 ^ 64" and "n \<le> 2 ^ 64"
  shows "distinct (fst (id_next_n n counter)) \<and> length (fst (id_next_n n counter)) = n"
proof -
  have "distinct (map (\<lambda>i. (counter + i) mod 2 ^ 64) [0..<n])"
    unfolding distinct_map using mod_shift_inj_on [OF assms(2)] by (rule conjI [OF distinct_upt])
  then show ?thesis
    unfolding id_next_n_eq [OF assms(1)] fst_conv by (rule conjI) (simp only: length_map length_upt diff_zero)
qed

theorem connection_ids_unique_witness:
  "fst (id_next_n 3 usize_max) = [usize_max, 0, 1] \<and> distinct [usize_max, 0, 1]"
proof -
  have e: "fst (id_next_n 3 usize_max) = [usize_max, 0, 1]"
    by (simp add: id_next_def usize_add_def usize_max_def numeral_3_eq_3)
  then show ?thesis
    using connection_ids_unique [of usize_max 3] by (simp add: usize_max_def)
qed

text \<open>
  A fresh connection pair is consistent: both sides carry the same identifier and cancellation
  token, the receiver accounts drops to the handle, the connection is unpublished, and for a live
  token a datagram connection is open and accepts its first packet whatever the settings.
\<close>

theorem with_queue_fresh:
  assumes "with_queue M N tok st sr ls qs limits datagram counter = (raw, conn, counter')"
    and "\<not> tok_is_cancelled T ts tok" and "send_capacity qs \<le> usize_max"
  shows "conn_id conn = raw_id raw \<and> raw_id raw = counter
         \<and> disconnect_task conn = tok \<and> raw_disconnect_task raw = tok
         \<and> transport (packets_rx raw) \<and> \<not> is_published conn \<and> receive_limits raw = limits
         \<and> (datagram \<longrightarrow> \<not> ecs_is_closed M T conn ts \<and> fst (ecs_send M T rd p conn ts) = Inr ()
              \<and> outgoing_queue M conn = \<lparr>queued = 0, capacity = max (send_capacity qs) 1\<rparr>)"
proof -
  have "fst (try_send p 1 (lossy_channel (max (send_capacity qs) 1) usize_max
              (datagram_send_overflow qs))) = Inr []"
    using one_le_usize_max
    by (auto simp: try_send_def try_send_where_def evict_oldest_def lossy_channel_def Let_def
        not_le max_def split: if_splits)
  then show ?thesis
    using assms
    by (auto simp: with_queue_def with_limits_def ecs_connection_def id_next_def set_transport_def
        is_published_def ecs_is_closed_def outgoing_is_closed_def is_closed_def outgoing_queue_def
        outgoing_snapshot_def snapshot_def outgoing_channel_def ecs_send_def outgoing_try_send_def
        lossy_channel_def receiver_from_def Let_def split: prod.splits if_splits)
qed

definition demo_stream :: "(nat, UdpConnectionHandle) NetworkStream" where
  "demo_stream = \<lparr>ns_transport = (\<lambda>_. handle_new 1200 None), ns_local_addr = (\<lambda>_. V4 0 1),
     ns_peer_addr = (\<lambda>n. V4 0 (of_nat n))\<rparr>"

theorem with_queue_fresh_witness:
  "\<exists>raw conn counter'.
     with_queue list_mpsc demo_stream ((1, []) :: demo_token) 7 () () default_queue_settings 64 True 5
       = (raw, conn, counter')
     \<and> conn_id conn = 5 \<and> fst (ecs_send list_mpsc demo_tokens record_drop (CHR ''x'') conn (0, [])) = Inr ()"
proof -
  obtain raw counter' and conn :: "(char, char list_chan, UdpConnectionHandle, demo_token) EcsConnection"
    where e:
    "with_queue list_mpsc demo_stream ((1, []) :: demo_token) 7 () () default_queue_settings 64 True 5
       = (raw, conn, counter')"
    by (metis prod_cases3)
  have c: "send_capacity default_queue_settings \<le> usize_max"
    by (simp add: default_queue_settings_def usize_max_def)
  have t: "\<not> tok_is_cancelled demo_tokens (0, []) (1, [])"
    by (simp add: demo_tokens_def)
  show ?thesis
    using with_queue_fresh [OF e t c, of record_drop "CHR ''x''"] e by simp
qed

text \<open>
  Once a connection is disconnected, or the task side has dropped its lossy receiver, the
  connection reports closed and every send returns the packet as \<open>Closed\<close> without touching the
  queue or the counters.
\<close>

theorem closed_connection_rejects:
  assumes "token_laws T"
    and "ts' = ecs_disconnect T conn ts
         \<or> (\<exists>rc sh h h'. outgoing_receiver_drop M rd rc (Lossy sh) h = Some (packet_tx conn, h'))"
  shows "ecs_is_closed M T conn ts' \<and> ecs_send M T rd p conn ts' = (Inl (SendClosed p), conn)"
  using assms(2)
proof
  assume "ts' = ecs_disconnect T conn ts"
  then show ?thesis
    using assms(1) by (auto simp: ecs_disconnect_def token_laws_def ecs_is_closed_def ecs_send_def)
next
  assume "\<exists>rc sh h h'. outgoing_receiver_drop M rd rc (Lossy sh) h = Some (packet_tx conn, h')"
  then obtain sh where "packet_tx conn = Lossy sh" "\<not> receiver_open (state sh)"
    by (auto simp: outgoing_receiver_drop_def receiver_drop_def close_and_drain_def Let_def
        dest!: sym [of _ "packet_tx conn"] split: if_splits)
  then show ?thesis
    by (cases conn) (auto simp: ecs_is_closed_def outgoing_is_closed_def is_closed_def ecs_send_def
        outgoing_try_send_def try_send_def try_send_where_def)
qed

definition demo_conn :: "(char, char list_chan, UdpConnectionHandle, demo_token) EcsConnection" where
  "demo_conn = \<lparr>disconnect_task = (1, []), conn_id = 0, published = True,
     packet_tx = Lossy (lossy_channel 4 usize_max DropNewest), conn_transport = handle_new 1200 None,
     local_addr = V4 0 1, peer_addr = V4 0 2\<rparr>"

theorem closed_connection_rejects_witness:
  "ecs_is_closed list_mpsc demo_tokens demo_conn (ecs_disconnect demo_tokens demo_conn (1, []))
   \<and> ecs_send list_mpsc demo_tokens record_drop (CHR ''x'') demo_conn
       (ecs_disconnect demo_tokens demo_conn (1, [])) = (Inl (SendClosed (CHR ''x'')), demo_conn)"
  using closed_connection_rejects [OF demo_tokens_laws disjI1 [OF refl],
      of list_mpsc demo_conn "(1, [])" record_drop "CHR ''x''"] by simp

end
