(* ===== verification/Length_Prefix.thy ===== *)
theory Length_Prefix
  imports Slinet_Prelude
begin

text \<open>
  Packet-length prefixes: \<^verbatim>\<open>src/src/serializers/packet_length_serializer.rs\<close>. The macro of the source
  instantiates two byte orders with five integer widths; a codec is the pair of both. Values of the
  Rust integer types are natural numbers, and \<open>try_from\<close> is the range check it performs.
\<close>

section \<open>Codecs\<close>

datatype endianness = LittleEndian | BigEndian

datatype number = U8 | U16 | U32 | U64 | U128

fun number_bits :: "number \<Rightarrow> nat" where
  "number_bits U8 = 8"
| "number_bits U16 = 16"
| "number_bits U32 = 32"
| "number_bits U64 = 64"
| "number_bits U128 = 128"

definition number_max :: "number \<Rightarrow> nat" where
  "number_max n = 2 ^ number_bits n - 1"

record PacketTooLargeError =
  err_max_length :: usize
  err_length :: usize

datatype 'e PacketLengthDeserializationError = NeedMoreBytes usize | PrefixErr 'e

definition prefix_size :: "number \<Rightarrow> usize" where
  "prefix_size n = number_bits n div 8"

fun le_bytes :: "nat \<Rightarrow> nat \<Rightarrow> byte list" where
  "le_bytes 0 v = []"
| "le_bytes (Suc k) v = of_nat (v mod 256) # le_bytes k (v div 256)"

fun of_le_bytes :: "byte list \<Rightarrow> nat" where
  "of_le_bytes [] = 0"
| "of_le_bytes (b # bs) = unat b + 256 * of_le_bytes bs"

fun to_bytes :: "endianness \<Rightarrow> nat \<Rightarrow> nat \<Rightarrow> byte list" where
  "to_bytes LittleEndian k v = le_bytes k v"
| "to_bytes BigEndian k v = rev (le_bytes k v)"

fun from_bytes :: "endianness \<Rightarrow> byte list \<Rightarrow> nat" where
  "from_bytes LittleEndian bs = of_le_bytes bs"
| "from_bytes BigEndian bs = of_le_bytes (rev bs)"

definition serialize_packet_length ::
  "endianness \<Rightarrow> number \<Rightarrow> usize \<Rightarrow> PacketTooLargeError + byte list"
where
  "serialize_packet_length e n len =
     (if len \<le> number_max n then Inr (to_bytes e (prefix_size n) len)
      else Inl \<lparr>err_max_length = (if number_max n \<le> usize_max then number_max n else usize_max),
                err_length = len\<rparr>)"

definition deserialize_packet_length ::
  "endianness \<Rightarrow> number \<Rightarrow> byte list \<Rightarrow> PacketTooLargeError PacketLengthDeserializationError + usize"
where
  "deserialize_packet_length e n buffer =
     (if length buffer < prefix_size n
      then Inl (NeedMoreBytes (usize_sub (prefix_size n) (length buffer)))
      else let v = from_bytes e (take (prefix_size n) buffer)
           in if v \<le> usize_max then Inr v
              else Inl (PrefixErr \<lparr>err_max_length = usize_max, err_length = usize_max\<rparr>))"

section \<open>Byte order\<close>

lemma length_le_bytes [simp]: "length (le_bytes k v) = k"
  by (induction k arbitrary: v) simp_all

lemma length_to_bytes [simp]: "length (to_bytes e k v) = k"
  by (cases e) simp_all

lemma unat_byte [simp]: "unat (of_nat (v mod 256) :: byte) = v mod 256"
  by (simp add: unat_of_nat)

lemma of_le_bytes_le_bytes: "v < 256 ^ k \<Longrightarrow> of_le_bytes (le_bytes k v) = v"
proof (induction k arbitrary: v)
  case (Suc k)
  then have "v div 256 < 256 ^ k"
    by (simp add: less_mult_imp_div_less mult.commute)
  with Suc.IH show ?case by simp
qed simp

lemma of_le_bytes_bound: "of_le_bytes bs < 256 ^ length bs"
proof (induction bs)
  case (Cons b bs)
  have "unat b < 256" using unsigned_less [of b, where ?'a = nat] by simp
  then show ?case using Cons by simp
qed simp

lemma from_bytes_to_bytes: "v < 256 ^ k \<Longrightarrow> from_bytes e (to_bytes e k v) = v"
  by (cases e) (simp_all add: of_le_bytes_le_bytes)

lemma from_bytes_bound: "from_bytes e bs < 256 ^ length bs"
  by (cases e) (use of_le_bytes_bound [of bs] of_le_bytes_bound [of "rev bs"] in simp_all)

lemma number_max_bound: "number_max n < 256 ^ prefix_size n"
  by (cases n) (simp_all add: number_max_def prefix_size_def)

lemma prefix_size_pos [simp]: "0 < prefix_size n"
  by (cases n) (simp_all add: prefix_size_def)

section \<open>The contract of a length codec\<close>

text \<open>
  What stream framing relies on: decoding an encoded length gives it back, however much follows,
  and a shorter prefix of at least the initial size asks for a positive number of bytes that stays
  within the encoding.
\<close>

locale length_codec =
  fixes size0 :: usize
    and encode :: "usize \<Rightarrow> 'e + byte list"
    and decode :: "byte list \<Rightarrow> 'e PacketLengthDeserializationError + usize"
  assumes encode_size: "encode len = Inr bs \<Longrightarrow> size0 \<le> length bs \<and> length bs \<le> usize_max"
    and decode_encode: "encode len = Inr bs \<Longrightarrow> len \<le> usize_max \<Longrightarrow> decode bs = Inr len"
    and decode_partial: "encode len = Inr bs \<Longrightarrow> size0 \<le> k \<Longrightarrow> k < length bs \<Longrightarrow>
           \<exists>a. decode (take k bs) = Inl (NeedMoreBytes a) \<and> 0 < a \<and> k + a \<le> length bs"

interpretation lp: length_codec "prefix_size n" "serialize_packet_length e n" "deserialize_packet_length e n"
  for e n
proof (unfold_locales, goal_cases)
  case (1 len bs)
  then show ?case
    by (cases n) (auto simp: serialize_packet_length_def prefix_size_def usize_max_def split: if_splits)
next
  case (2 len bs)
  then have "bs = to_bytes e (prefix_size n) len" "len < 256 ^ prefix_size n"
    using number_max_bound [of n] by (auto simp: serialize_packet_length_def split: if_splits)
  then have "from_bytes e bs = len" "length bs = prefix_size n"
    by (simp_all add: from_bytes_to_bytes)
  then show ?case using 2 by (simp add: deserialize_packet_length_def)
next
  case (3 len bs k)
  then show ?case by (auto simp: serialize_packet_length_def split: if_splits)
qed

section \<open>Properties\<close>

text \<open>
  Every built-in length codec (little and big endian, 8 to 128 bits) encodes exactly the lengths
  its width can hold, in exactly its fixed number of bytes, and decodes them back even when payload
  bytes follow; a longer packet is rejected with its length and the largest representable one.
\<close>

theorem length_prefix_roundtrip:
  assumes "len \<le> usize_max"
  shows "(case serialize_packet_length e n len of
            Inr bs \<Rightarrow> len \<le> number_max n \<and> length bs = prefix_size n
                      \<and> deserialize_packet_length e n (bs @ rest) = Inr len
          | Inl err \<Rightarrow> number_max n < len \<and> err_length err = len \<and> err_max_length err = number_max n)"
proof (cases "len \<le> number_max n")
  case True
  then show ?thesis
    using assms number_max_bound [of n]
    by (simp add: serialize_packet_length_def deserialize_packet_length_def from_bytes_to_bytes)
next
  case False
  then show ?thesis
    using assms by (auto simp: serialize_packet_length_def)
qed

theorem length_prefix_roundtrip_witness:
  "serialize_packet_length BigEndian U16 513 = Inr [2, 1]
   \<and> deserialize_packet_length BigEndian U16 ([2, 1] @ [9]) = Inr 513"
proof -
  have "le_bytes 2 513 = [1, 2]" by (simp add: numeral_2_eq_2)
  then have "serialize_packet_length BigEndian U16 513 = Inr [2, 1]"
    by (simp add: serialize_packet_length_def number_max_def prefix_size_def)
  then show ?thesis
    using length_prefix_roundtrip [of 513, where e = BigEndian and n = U16 and rest = "[9]"] by (simp add: usize_max_def)
qed

text \<open>
  Decoding never misreads: an incomplete prefix asks for exactly the missing bytes, a complete
  one never asks for more, and it is rejected precisely when its value exceeds \<open>usize\<close>, which only
  the 128-bit codecs can express.
\<close>

theorem length_prefix_decode_total:
  "(case deserialize_packet_length e n buffer of
      Inl (NeedMoreBytes a) \<Rightarrow> length buffer < prefix_size n \<and> a = prefix_size n - length buffer
    | Inl (PrefixErr err) \<Rightarrow> prefix_size n \<le> length buffer \<and> n = U128
                             \<and> usize_max < from_bytes e (take (prefix_size n) buffer)
    | Inr v \<Rightarrow> prefix_size n \<le> length buffer \<and> v \<le> usize_max
               \<and> v = from_bytes e (take (prefix_size n) buffer))"
proof (cases "length buffer < prefix_size n")
  case True
  then show ?thesis by (simp add: deserialize_packet_length_def)
next
  case False
  have "from_bytes e (take (prefix_size n) buffer) < 256 ^ prefix_size n"
    using from_bytes_bound [of e "take (prefix_size n) buffer"] False
    by (simp add: min_absorb2)
  then have "from_bytes e (take (prefix_size n) buffer) \<le> usize_max" if "n \<noteq> U128"
    using that by (cases n) (simp_all add: prefix_size_def usize_max_def)
  then show ?thesis
    using False by (auto simp: deserialize_packet_length_def Let_def)
qed

end
