(* ===== verification/Serializer_Adapter.thy ===== *)
theory Serializer_Adapter
  imports Slinet_Prelude
begin

text \<open>
  Packet codecs: the serializer traits and the adapter of \<^verbatim>\<open>src/src/serializers/serializer.rs\<close>, and the
  stateful example codec of \<^verbatim>\<open>src/src/serializers/custom_crypt.rs\<close>. A codec works on a state \<open>'z\<close> that
  a mutable codec changes. The \<^verbatim>\<open>bitcode\<close> package is not code of the crate: its \<open>encode\<close> and \<open>decode\<close>
  are parameters of the example codec.
\<close>

section \<open>The serializer traits and the adapter\<close>

text \<open>A shared codec as the packet readers and writers use it: \<open>'p\<close> is received and \<open>'q\<close> sent.\<close>

record ('p, 'q, 'ee, 'de, 'z) Serializer =
  ser_serialize :: "'q \<Rightarrow> 'z \<Rightarrow> ('ee + byte list) \<times> 'z"
  ser_deserialize :: "byte list \<Rightarrow> 'z \<Rightarrow> ('de + 'p) \<times> 'z"

text \<open>
  User codecs may panic, so their methods return an \<open>option\<close> (\<open>None\<close> is a panic). A panic while the
  adapter's mutex is held poisons it.
\<close>

record ('p, 'q, 'ee, 'de, 'z) ReadOnlySerializer =
  ro_serialize :: "'q \<Rightarrow> 'z \<Rightarrow> ('ee + byte list) option"
  ro_deserialize :: "byte list \<Rightarrow> 'z \<Rightarrow> ('de + 'p) option"

record ('p, 'q, 'ee, 'de, 'z) MutableSerializer =
  mut_serialize :: "'q \<Rightarrow> 'z \<Rightarrow> ('ee + byte list) option \<times> 'z"
  mut_deserialize :: "byte list \<Rightarrow> 'z \<Rightarrow> ('de + 'p) option \<times> 'z"

record 'z mutex =
  guarded :: 'z
  poisoned :: bool

definition with_lock :: "('z \<Rightarrow> 'a option \<times> 'z) \<Rightarrow> 'z mutex \<Rightarrow> 'a option \<times> 'z mutex" where
  "with_lock f m =
     (if poisoned m then (None, m)
      else case f (guarded m) of
             (r, z) \<Rightarrow> (r, \<lparr>guarded = z, poisoned = (r = None)\<rparr>))"

datatype ('p, 'q, 'ee, 'de, 'z) SerializerAdapter =
    ReadOnly "('p, 'q, 'ee, 'de, 'z) ReadOnlySerializer" 'z
  | Mutable "('p, 'q, 'ee, 'de, 'z) MutableSerializer" "'z mutex"

definition adapter_serialize ::
  "'q \<Rightarrow> ('p, 'q, 'ee, 'de, 'z) SerializerAdapter
     \<Rightarrow> ('ee + byte list) option \<times> ('p, 'q, 'ee, 'de, 'z) SerializerAdapter"
where
  "adapter_serialize packet a =
     (case a of
        ReadOnly S z \<Rightarrow> (ro_serialize S packet z, a)
      | Mutable S m \<Rightarrow> (case with_lock (mut_serialize S packet) m of (r, m') \<Rightarrow> (r, Mutable S m')))"

definition adapter_deserialize ::
  "byte list \<Rightarrow> ('p, 'q, 'ee, 'de, 'z) SerializerAdapter
     \<Rightarrow> ('de + 'p) option \<times> ('p, 'q, 'ee, 'de, 'z) SerializerAdapter"
where
  "adapter_deserialize data a =
     (case a of
        ReadOnly S z \<Rightarrow> (ro_deserialize S data z, a)
      | Mutable S m \<Rightarrow> (case with_lock (mut_deserialize S data) m of (r, m') \<Rightarrow> (r, Mutable S m')))"

text \<open>The warning is given at most once per endpoint: the result is whether to warn now, and \<open>warned\<close>.\<close>

definition warn_if_stateful_over_datagrams ::
  "bool \<Rightarrow> ('p, 'q, 'ee, 'de, 'z) SerializerAdapter \<Rightarrow> bool \<Rightarrow> bool \<times> bool"
where
  "warn_if_stateful_over_datagrams datagram a warned =
     (case a of
        Mutable _ _ \<Rightarrow> (if datagram then (\<not> warned, True) else (False, warned))
      | ReadOnly _ _ \<Rightarrow> (False, warned))"

section \<open>The example codec\<close>

datatype CustomSerializationError = CustomSerializationError

datatype CustomCryptClientPacket = ClientString string

datatype CustomCryptServerPacket = ServerString string

definition default_client_packet :: CustomCryptClientPacket where
  "default_client_packet = ClientString ''''"

definition default_server_packet :: CustomCryptServerPacket where
  "default_server_packet = ServerString ''''"

type_synonym XorPosition = byte

fun transform :: "byte list \<Rightarrow> XorPosition \<Rightarrow> byte list \<times> XorPosition" where
  "transform [] pos = ([], pos)"
| "transform (b # bs) pos = (case transform bs (pos + 1) of (cs, pos') \<Rightarrow> (xor b pos # cs, pos'))"

record ExampleKeyPair =
  send_position :: XorPosition
  receive_position :: XorPosition

record CustomCryptEngine =
  key_pair :: ExampleKeyPair

definition default_engine :: CustomCryptEngine where
  "default_engine = \<lparr>key_pair = \<lparr>send_position = 0, receive_position = 0\<rparr>\<rparr>"

definition xor_encrypt :: "byte list \<Rightarrow> CustomCryptEngine \<Rightarrow> byte list \<times> CustomCryptEngine" where
  "xor_encrypt data en =
     (case transform data (send_position (key_pair en)) of
        (out, pos) \<Rightarrow> (out, en\<lparr>key_pair := (key_pair en)\<lparr>send_position := pos\<rparr>\<rparr>))"

definition xor_decrypt :: "byte list \<Rightarrow> CustomCryptEngine \<Rightarrow> byte list \<times> CustomCryptEngine" where
  "xor_decrypt data en =
     (case transform data (receive_position (key_pair en)) of
        (out, pos) \<Rightarrow> (out, en\<lparr>key_pair := (key_pair en)\<lparr>receive_position := pos\<rparr>\<rparr>))"

text \<open>Both \<open>CryptEngine\<close> implementations have this body, with the packet types exchanged.\<close>

definition engine_encrypt ::
  "('q \<Rightarrow> byte list) \<Rightarrow> 'q \<Rightarrow> CustomCryptEngine
     \<Rightarrow> (CustomSerializationError + byte list) \<times> CustomCryptEngine"
where
  "engine_encrypt encode packet en =
     (case xor_encrypt (encode packet) en of (out, en') \<Rightarrow> (Inr out, en'))"

definition engine_decrypt ::
  "(byte list \<Rightarrow> 'be + 'p) \<Rightarrow> byte list \<Rightarrow> CustomCryptEngine
     \<Rightarrow> (CustomSerializationError + 'p) \<times> CustomCryptEngine"
where
  "engine_decrypt decode packet en =
     (case xor_decrypt packet en of
        (decrypted_data, en') \<Rightarrow>
          (case decode decrypted_data of
             Inr p \<Rightarrow> (Inr p, en')
           | Inl _ \<Rightarrow> (Inl CustomSerializationError, en')))"

definition crypt_serializer ::
  "('q \<Rightarrow> byte list) \<Rightarrow> (byte list \<Rightarrow> 'be + 'p)
     \<Rightarrow> ('p, 'q, CustomSerializationError, CustomSerializationError, CustomCryptEngine) Serializer"
where
  "crypt_serializer encode decode =
     \<lparr>ser_serialize = engine_encrypt encode, ser_deserialize = engine_decrypt decode\<rparr>"

section \<open>Codecs in step\<close>

text \<open>
  The contract that lets a receiver follow a sender: whatever the sending state encodes, the
  receiving state related to it by \<open>R\<close> decodes, and both stay related.
\<close>

definition codec_sync ::
  "('x, 'q, 'ee, 'd1, 'zs) Serializer \<Rightarrow> ('q, 'y, 'e1, 'de, 'zr) Serializer \<Rightarrow> ('zs \<Rightarrow> 'zr \<Rightarrow> bool) \<Rightarrow> bool"
where
  "codec_sync S S' R \<longleftrightarrow>
     (\<forall>zs zr p bs zs'. R zs zr \<longrightarrow> ser_serialize S p zs = (Inr bs, zs') \<longrightarrow>
        (\<exists>zr'. ser_deserialize S' bs zr = (Inr p, zr') \<and> R zs' zr'))"

fun encode_all ::
  "('x, 'q, 'ee, 'd1, 'z) Serializer \<Rightarrow> 'q list \<Rightarrow> 'z \<Rightarrow> (byte list list \<times> 'z) option"
where
  "encode_all S [] z = Some ([], z)"
| "encode_all S (p # ps) z =
     (case ser_serialize S p z of
        (Inr bs, z') \<Rightarrow> map_option (\<lambda>(bss, z''). (bs # bss, z'')) (encode_all S ps z')
      | (Inl _, _) \<Rightarrow> None)"

fun decode_all ::
  "('q, 'y, 'e1, 'de, 'z) Serializer \<Rightarrow> byte list list \<Rightarrow> 'z \<Rightarrow> ('q list \<times> 'z) option"
where
  "decode_all S [] z = Some ([], z)"
| "decode_all S (bs # bss) z =
     (case ser_deserialize S bs z of
        (Inr p, z') \<Rightarrow> map_option (\<lambda>(ps, z''). (p # ps, z'')) (decode_all S bss z')
      | (Inl _, _) \<Rightarrow> None)"

lemma decode_encode_all:
  assumes sync: "codec_sync S S' R" and "R zs zr" and "encode_all S ps zs = Some (bss, zs')"
  shows "\<exists>zr'. decode_all S' bss zr = Some (ps, zr') \<and> R zs' zr'"
  using assms(2,3)
proof (induction ps arbitrary: zs zr bss)
  case (Cons p ps)
  then obtain bs z1 bss1 where s: "ser_serialize S p zs = (Inr bs, z1)"
    and e: "encode_all S ps z1 = Some (bss1, zs')" and b: "bss = bs # bss1"
    by (auto split: prod.splits sum.splits)
  obtain zr1 where "ser_deserialize S' bs zr = (Inr p, zr1)" "R z1 zr1"
    using sync Cons.prems(1) s unfolding codec_sync_def by blast
  with Cons.IH [OF _ e, of zr1] show ?case by (auto simp: b)
qed simp

text \<open>What the crate relies on of \<^verbatim>\<open>bitcode\<close>: decoding an encoded value gives it back.\<close>

definition bitcode_laws :: "('q \<Rightarrow> byte list) \<Rightarrow> (byte list \<Rightarrow> 'be + 'q) \<Rightarrow> bool" where
  "bitcode_laws encode decode \<longleftrightarrow> (\<forall>p. decode (encode p) = Inr p)"

text \<open>
  A stateful byte transformation with independent send and receive state, as the example engine has
  one: composing it with any invertible encoding gives codecs that stay in step.
\<close>

locale stream_cipher =
  fixes enc :: "byte list \<Rightarrow> 'k \<Rightarrow> byte list \<times> 'k"
    and dec :: "byte list \<Rightarrow> 'k \<Rightarrow> byte list \<times> 'k"
    and follows :: "'k \<Rightarrow> 'k \<Rightarrow> bool"
  assumes enc_dec: "follows a b \<Longrightarrow> enc data a = (out, a') \<Longrightarrow>
                      \<exists>b'. dec out b = (data, b') \<and> follows a' b'"
begin

lemma cipher_sync:
  assumes "bitcode_laws encode decode"
    and "\<And>p z. ser_serialize S p z = (case enc (encode p) z of (out, z') \<Rightarrow> (Inr out, z'))"
    and "\<And>bs z. ser_deserialize S' bs z =
           (case dec bs z of (out, z') \<Rightarrow>
              (case decode out of Inr p \<Rightarrow> (Inr p, z') | Inl _ \<Rightarrow> (Inl e, z')))"
  shows "codec_sync S S' follows"
  unfolding codec_sync_def
proof (intro allI impI)
  fix zs zr p bs zs'
  assume f: "follows zs zr" and s: "ser_serialize S p zs = (Inr bs, zs')"
  then have "enc (encode p) zs = (bs, zs')"
    by (simp add: assms(2) split: prod.splits)
  then obtain zr' where "dec bs zr = (encode p, zr')" "follows zs' zr'"
    using enc_dec [OF f] by blast
  then show "\<exists>zr'. ser_deserialize S' bs zr = (Inr p, zr') \<and> follows zs' zr'"
    using assms(1) by (simp add: assms(3) bitcode_laws_def)
qed

end

lemma xor_cancel: "xor (xor b p) p = (b :: byte)"
  by (simp add: xor.assoc)

lemma xor_twice_same: "x = xor (xor x s) (r :: byte) \<Longrightarrow> s = r"
  by (auto simp: bit_eq_iff bit_xor_iff)

lemma transform_involution:
  "transform data pos = (out, pos') \<Longrightarrow> transform out pos = (data, pos')"
proof (induction data arbitrary: pos out pos')
  case (Cons b bs)
  obtain cs q where t: "transform bs (pos + 1) = (cs, q)" by fastforce
  then have "out = xor b pos # cs" "pos' = q" using Cons.prems by simp_all
  with Cons.IH [OF t] show ?case by (simp add: xor_cancel)
qed simp

lemma transform_position: "snd (transform data pos) = pos + of_nat (length data)"
proof (induction data arbitrary: pos)
  case (Cons b bs)
  show ?case
    using Cons.IH [of "pos + 1"] by (cases "transform bs (pos + 1)") simp
qed simp

lemma transform_hd: "data \<noteq> [] \<Longrightarrow> hd (fst (transform data pos)) = xor (hd data) pos"
  by (cases data; cases "transform (tl data) (pos + 1)") simp_all

lemma transform_nonempty: "fst (transform data pos) = [] \<longleftrightarrow> data = []"
  by (cases data; cases "transform (tl data) (pos + 1)") simp_all

definition engines_in_step :: "CustomCryptEngine \<Rightarrow> CustomCryptEngine \<Rightarrow> bool" where
  "engines_in_step a b \<longleftrightarrow> send_position (key_pair a) = receive_position (key_pair b)"

interpretation xor_pair: stream_cipher xor_encrypt xor_decrypt engines_in_step
proof (unfold_locales, goal_cases)
  case (1 a b data out a')
  then have "transform data (send_position (key_pair a)) = (out, send_position (key_pair a'))"
    by (auto simp: xor_encrypt_def split: prod.splits)
  from transform_involution [OF this] show ?case
    using 1 by (simp add: xor_decrypt_def engines_in_step_def)
qed

lemma crypt_sync:
  "bitcode_laws encode decode \<Longrightarrow>
     codec_sync (crypt_serializer encode dec') (crypt_serializer enc' decode) engines_in_step"
  by (rule xor_pair.cipher_sync [where e = CustomSerializationError and encode = encode and decode = decode])
    (simp_all add: crypt_serializer_def engine_encrypt_def engine_decrypt_def)

section \<open>Properties\<close>

text \<open>
  The example codec is invertible over a whole conversation: when the sender's send position
  equals the receiver's receive position, any sequence of packets that is encoded is decoded to the
  same sequence, with the positions still equal afterwards (also when they wrap past 255).
\<close>

theorem crypt_conversation_roundtrip:
  assumes "bitcode_laws encode decode" and "engines_in_step a b"
    and "encode_all (crypt_serializer encode dec') ps a = Some (bss, a')"
  shows "\<exists>b'. decode_all (crypt_serializer enc' decode) bss b = Some (ps, b') \<and> engines_in_step a' b'"
  by (rule decode_encode_all [OF crypt_sync [OF assms(1)] assms(2,3)])

theorem crypt_conversation_roundtrip_witness:
  "\<exists>a' b'. encode_all (crypt_serializer id (Inr :: _ \<Rightarrow> unit + byte list)) [[1, 2], [3]] default_engine
             = Some ([[1, 3], [1]], a')
     \<and> decode_all (crypt_serializer (id :: byte list \<Rightarrow> _) (Inr :: _ \<Rightarrow> unit + byte list)) [[1, 3], [1]]
         default_engine = Some ([[1, 2], [3]], b')"
proof -
  have b: "bitcode_laws id (Inr :: _ \<Rightarrow> unit + byte list)" by (simp add: bitcode_laws_def)
  have s: "engines_in_step default_engine default_engine"
    by (simp add: engines_in_step_def default_engine_def)
  obtain a' where e: "encode_all (crypt_serializer id (Inr :: _ \<Rightarrow> unit + byte list))
      [[1, 2], [3]] default_engine = Some ([[1, 3], [1]], a')"
    by (simp add: crypt_serializer_def engine_encrypt_def xor_encrypt_def default_engine_def)
  show ?thesis
    using crypt_conversation_roundtrip [OF b s e, of "id :: byte list \<Rightarrow> _"] e by blast
qed

text \<open>
  Why the example codec must not be used over datagrams: as soon as the two positions differ,
  the first non-empty payload is decoded to different bytes than were encoded.
\<close>

theorem crypt_desync_corrupts:
  assumes "\<not> engines_in_step a b" and "data \<noteq> []"
  shows "fst (xor_decrypt (fst (xor_encrypt data a)) b) \<noteq> data"
proof
  let ?s = "send_position (key_pair a)" and ?r = "receive_position (key_pair b)"
  assume "fst (xor_decrypt (fst (xor_encrypt data a)) b) = data"
  then have "fst (transform (fst (transform data ?s)) ?r) = data"
    by (simp add: xor_decrypt_def xor_encrypt_def split: prod.splits)
  then have "hd data = xor (xor (hd data) ?s) ?r"
    using assms(2) transform_hd [of data ?s] transform_hd [of "fst (transform data ?s)" ?r]
      transform_nonempty [of data ?s] by simp
  then have "?s = ?r"
    by (rule xor_twice_same)
  with assms(1) show False by (simp add: engines_in_step_def)
qed

theorem crypt_desync_corrupts_witness:
  "fst (xor_decrypt (fst (xor_encrypt [5, 6] default_engine))
     (default_engine\<lparr>key_pair := \<lparr>send_position = 0, receive_position = 1\<rparr>\<rparr>)) \<noteq> [5, 6]"
  by (rule crypt_desync_corrupts) (simp_all add: engines_in_step_def default_engine_def)

lemma with_lock_poisoned: "poisoned m \<Longrightarrow> with_lock f m = (None, m)"
  by (simp add: with_lock_def)


definition demo_panicky :: "(byte, byte, unit, unit, nat) MutableSerializer" where
  "demo_panicky =
     \<lparr>mut_serialize = (\<lambda>q z. (if q = 0 then None else Some (Inr [q]), z + 1)),
      mut_deserialize = (\<lambda>bs z. (Some (Inr (hd bs)), z))\<rparr>"


end
