(* ===== verification/Framing.thy ===== *)
theory Framing
  imports Length_Prefix Serializer_Adapter Net_Settings
begin

text \<open>
  Length-prefix framing over byte streams: \<^verbatim>\<open>src/src/protocols/framing.rs\<close> and the errors of
  \<^verbatim>\<open>src/src/protocols/packet.rs\<close>. The byte streams are implementations of the \<open>ReadStream\<close> and
  \<open>WriteStream\<close> traits: \<open>rx n r\<close> is a completed \<open>read_exact\<close> of an \<open>n\<close>-byte buffer and \<open>wr buf w\<close> a
  completed \<open>write_all\<close>. \<open>read_laws\<close> and \<open>write_laws\<close> are what the traits document: the buffer is
  filled with the next bytes, or the whole buffer is written.

  The prefix loop of \<open>read_length\<close> ends only as the length codec lets it, so it is a
  \<open>partial_function\<close> and its termination is proved for every codec of the crate.
\<close>

section \<open>Data\<close>

datatype ('d, 'l) ReceiveError =
    Io io_error
  | Deserialization 'd
  | LengthDeserialization 'l
  | PacketTooBig
  | NoConnection io_error
  | IntentionalDisconnection

record 'l PacketLengthSerializer =
  pls_size :: usize
  pls_serialize :: "usize \<Rightarrow> 'l + byte list"
  pls_deserialize :: "byte list \<Rightarrow> 'l PacketLengthDeserializationError + usize"

definition fixed_codec :: "endianness \<Rightarrow> number \<Rightarrow> PacketTooLargeError PacketLengthSerializer" where
  "fixed_codec e n =
     \<lparr>pls_size = prefix_size n, pls_serialize = serialize_packet_length e n,
      pls_deserialize = deserialize_packet_length e n\<rparr>"

section \<open>Receiving\<close>

definition resize :: "usize \<Rightarrow> byte list \<Rightarrow> byte list" where
  "resize n xs = take n xs @ replicate (n - length xs) 0"

partial_function (option) read_length_loop ::
  "(usize \<Rightarrow> 'r \<Rightarrow> (io_error + byte list) \<times> 'r) \<Rightarrow> 'l PacketLengthSerializer
     \<Rightarrow> byte list \<Rightarrow> usize \<Rightarrow> 'r \<Rightarrow> ((('d, 'l) ReceiveError + usize) \<times> 'r) option"
where
  "read_length_loop rx C pfx filled r =
     (if length pfx < filled then Some (Inl (Io (IoError InvalidData '''')), r)
      else case rx (length pfx - filled) r of
        (Inl err, r') \<Rightarrow> Some (Inl (Io err), r')
      | (Inr bs, r') \<Rightarrow>
          (let pfx' = take filled pfx @ bs in
           case pls_deserialize C pfx' of
             Inr len \<Rightarrow> Some (Inr len, r')
           | Inl (NeedMoreBytes additional) \<Rightarrow>
               read_length_loop rx C (resize (usize_add (length pfx') additional) pfx') (length pfx') r'
           | Inl (PrefixErr e) \<Rightarrow> Some (Inl (LengthDeserialization e), r')))"

definition read_length ::
  "(usize \<Rightarrow> 'r \<Rightarrow> (io_error + byte list) \<times> 'r) \<Rightarrow> 'l PacketLengthSerializer
     \<Rightarrow> 'r \<Rightarrow> ((('d, 'l) ReceiveError + usize) \<times> 'r) option"
where
  "read_length rx C r = read_length_loop rx C (replicate (pls_size C) 0) 0 r"

text \<open>\<open>now\<close> is the instant read from the clock after the payload has arrived.\<close>

definition receive_with_timestamp ::
  "(usize \<Rightarrow> 'r \<Rightarrow> (io_error + byte list) \<times> 'r) \<Rightarrow> ('p, 'q, 'ee, 'd, 'z) Serializer
     \<Rightarrow> 'l PacketLengthSerializer \<Rightarrow> ReceiveLimits \<Rightarrow> 'i \<Rightarrow> 'r \<Rightarrow> 'z
     \<Rightarrow> ((('d, 'l) ReceiveError + 'p \<times> 'i) \<times> 'r \<times> 'z) option"
where
  "receive_with_timestamp rx S C limits now r z =
     (case read_length rx C r of
        None \<Rightarrow> None
      | Some (Inl err, r') \<Rightarrow> Some (Inl err, r', z)
      | Some (Inr len, r') \<Rightarrow>
          if max_packet_size limits < len then Some (Inl PacketTooBig, r', z)
          else (case rx len r' of
                  (Inl err, r'') \<Rightarrow> Some (Inl (Io err), r'', z)
                | (Inr payload, r'') \<Rightarrow>
                    (case ser_deserialize S payload z of
                       (Inl err, z') \<Rightarrow> Some (Inl (Deserialization err), r'', z')
                     | (Inr packet, z') \<Rightarrow> Some (Inr (packet, now), r'', z'))))"

definition framed_receive ::
  "(usize \<Rightarrow> 'r \<Rightarrow> (io_error + byte list) \<times> 'r) \<Rightarrow> ('p, 'q, 'ee, 'd, 'z) Serializer
     \<Rightarrow> 'l PacketLengthSerializer \<Rightarrow> ReceiveLimits \<Rightarrow> 'i \<Rightarrow> 'r \<Rightarrow> 'z
     \<Rightarrow> ((('d, 'l) ReceiveError + 'p) \<times> 'r \<times> 'z) option"
where
  "framed_receive rx S C limits now r z =
     map_option (\<lambda>(res, s). (map_sum id fst res, s)) (receive_with_timestamp rx S C limits now r z)"

section \<open>Sending\<close>

text \<open>\<open>show_ee\<close> and \<open>show_l\<close> are the \<open>Display\<close> of the codecs' errors.\<close>

definition framed_send ::
  "(byte list \<Rightarrow> 'w \<Rightarrow> (io_error + unit) \<times> 'w) \<Rightarrow> ('p, 'q, 'ee, 'd, 'z) Serializer
     \<Rightarrow> 'l PacketLengthSerializer \<Rightarrow> ('ee \<Rightarrow> string) \<Rightarrow> ('l \<Rightarrow> string) \<Rightarrow> 'q \<Rightarrow> 'w \<Rightarrow> 'z
     \<Rightarrow> (io_error + unit) \<times> 'w \<times> 'z"
where
  "framed_send wr S C show_ee show_l packet w z =
     (case ser_serialize S packet z of
        (Inl err, z') \<Rightarrow> (Inl (IoError Other (''Error serializing packet: '' @ show_ee err)), w, z')
      | (Inr payload, z') \<Rightarrow>
          (case pls_serialize C (length payload) of
             Inl err \<Rightarrow>
               (Inl (IoError Other (''Error serializing packet length: '' @ show_l err)), w, z')
           | Inr buf \<Rightarrow> (case wr (buf @ payload) w of (res, w') \<Rightarrow> (res, w', z'))))"

section \<open>Byte streams\<close>

definition read_laws ::
  "(usize \<Rightarrow> 'r \<Rightarrow> (io_error + byte list) \<times> 'r) \<Rightarrow> ('r \<Rightarrow> byte list) \<Rightarrow> bool"
where
  "read_laws rx view \<longleftrightarrow>
     (\<forall>n r. if n \<le> length (view r)
            then \<exists>r'. rx n r = (Inr (take n (view r)), r') \<and> view r' = drop n (view r)
            else \<exists>e r'. rx n r = (Inl e, r'))"

definition write_laws ::
  "(byte list \<Rightarrow> 'w \<Rightarrow> (io_error + unit) \<times> 'w) \<Rightarrow> ('w \<Rightarrow> byte list) \<Rightarrow> bool"
where
  "write_laws wr wview \<longleftrightarrow>
     (\<forall>buf w. (\<exists>w'. wr buf w = (Inr (), w') \<and> wview w' = wview w @ buf) \<or> (\<exists>e w'. wr buf w = (Inl e, w')))"

text \<open>A pipe that satisfies them.\<close>

definition pipe_read :: "usize \<Rightarrow> byte list \<Rightarrow> (io_error + byte list) \<times> byte list" where
  "pipe_read n bs =
     (if n \<le> length bs then (Inr (take n bs), drop n bs) else (Inl (IoError UnexpectedEof ''''), []))"

definition pipe_write :: "byte list \<Rightarrow> byte list \<Rightarrow> (io_error + unit) \<times> byte list" where
  "pipe_write buf w = (Inr (), w @ buf)"

lemma pipe_laws: "read_laws pipe_read id" "write_laws pipe_write id"
  by (simp_all add: read_laws_def write_laws_def pipe_read_def pipe_write_def)

lemma read_laws_ok:
  assumes "read_laws rx view" "n \<le> length (view r)"
  obtains r' where "rx n r = (Inr (take n (view r)), r')" "view r' = drop n (view r)"
  using assms unfolding read_laws_def by metis

lemma read_laws_err:
  assumes "read_laws rx view" "length (view r) < n"
  obtains e r' where "rx n r = (Inl e, r')"
  using assms unfolding read_laws_def by (metis not_le)

section \<open>The prefix loop on any length codec\<close>

context length_codec
begin

lemma read_length_loop_encoded:
  assumes laws: "read_laws rx view"
    and C: "C = \<lparr>pls_size = size0, pls_serialize = encode, pls_deserialize = decode\<rparr>"
    and enc: "encode len = Inr bs" and len: "len \<le> usize_max"
    and pos: "filled \<le> k" "size0 \<le> k" "k \<le> length bs"
    and v: "view r = drop filled bs @ rest"
    and pfx: "length pfx = k" "take filled pfx = take filled bs"
  shows "\<exists>r'. (read_length_loop rx C pfx filled r :: ((('d, 'e) ReceiveError + usize) \<times> 'r) option)
                = Some (Inr len, r') \<and> view r' = rest"
  using pos v pfx
proof (induction "length bs - k" arbitrary: k filled r pfx rule: less_induct)
  case less
  have read: "k - filled \<le> length (view r)"
    using less.prems by simp
  obtain r' where r: "rx (k - filled) r = (Inr (take (k - filled) (view r)), r')"
    and v': "view r' = drop (k - filled) (view r)"
    by (rule read_laws_ok [OF laws read])
  have got: "take filled pfx @ take (k - filled) (view r) = take k bs"
    using less.prems by (simp add: take_drop [symmetric] min_absorb2 flip: take_add)
  have rest': "view r' = drop k bs @ rest"
    using less.prems v' by (simp add: min_def)
  show ?case
  proof (cases "k = length bs")
    case True
    then show ?thesis
      using r got rest' less.prems decode_encode [OF enc len]
      by (subst read_length_loop.simps) (simp add: C)
  next
    case False
    then have k: "k < length bs" using less.prems(3) by simp
    obtain a where d: "decode (take k bs) = Inl (NeedMoreBytes a)" "0 < a" "k + a \<le> length bs"
      using decode_partial [OF enc less.prems(2) k] by blast
    have add: "usize_add k a = k + a"
      using d(3) encode_size [OF enc] by (simp add: usize_add_exact)
    have step: "(read_length_loop rx C pfx filled r :: ((('d, 'e) ReceiveError + usize) \<times> 'r) option) =
        read_length_loop rx C (resize (k + a) (take k bs)) k r'"
      using r got less.prems d k add
      by (subst read_length_loop.simps) (simp add: C min_absorb2)
    have "\<exists>r''. (read_length_loop rx C (resize (k + a) (take k bs)) k r'
                   :: ((('d, 'e) ReceiveError + usize) \<times> 'r) option) = Some (Inr len, r'')
                \<and> view r'' = rest"
      by (rule less.hyps [of "k + a"])
        (use d k less.prems rest' in \<open>simp_all add: resize_def min_absorb2\<close>)
    then show ?thesis by (simp add: step)
  qed
qed

lemma read_length_encoded:
  assumes "read_laws rx view"
    and "C = \<lparr>pls_size = size0, pls_serialize = encode, pls_deserialize = decode\<rparr>"
    and "encode len = Inr bs" "len \<le> usize_max" and "view r = bs @ rest"
  shows "\<exists>r'. read_length rx C r = Some (Inr len, r') \<and> view r' = rest"
  using read_length_loop_encoded [OF assms(1-4), of 0 size0 r rest "replicate size0 0"]
    encode_size [OF assms(3)] assms(2,5)
  by (simp add: read_length_def)

end

section \<open>Built-in codecs\<close>

lemma fixed_read_length:
  assumes "read_laws rx view" and "serialize_packet_length e n len = Inr bs" "len \<le> usize_max"
    and "view r = bs @ rest"
  shows "\<exists>r'. read_length rx (fixed_codec e n) r = Some (Inr len, r') \<and> view r' = rest"
  by (rule lp.read_length_encoded [OF assms(1) _ assms(2-4)]) (simp add: fixed_codec_def)

text \<open>With a built-in codec one round of the loop decides.\<close>

lemma fixed_read_length_eq:
  assumes "read_laws rx view"
  shows "read_length rx (fixed_codec e n) r =
    (case rx (prefix_size n) r of
       (Inl err, r') \<Rightarrow> Some (Inl (Io err), r')
     | (Inr bs, r') \<Rightarrow>
         (let v = from_bytes e bs
          in if v \<le> usize_max then Some (Inr v, r')
             else Some (Inl (LengthDeserialization
                    \<lparr>err_max_length = usize_max, err_length = usize_max\<rparr>), r')))"
proof (cases "prefix_size n \<le> length (view r)")
  case True
  then obtain r' where "rx (prefix_size n) r = (Inr (take (prefix_size n) (view r)), r')"
    by (rule read_laws_ok [OF assms])
  then show ?thesis
    using True unfolding read_length_def
    by (subst read_length_loop.simps)
      (simp add: fixed_codec_def deserialize_packet_length_def min_absorb2 Let_def)
next
  case False
  then have "length (view r) < prefix_size n" by simp
  then obtain e' r' where "rx (prefix_size n) r = (Inl e', r')"
    by (rule read_laws_err [OF assms])
  then show ?thesis
    unfolding read_length_def by (subst read_length_loop.simps) (simp add: fixed_codec_def)
qed

section \<open>Whole conversations\<close>

fun send_all ::
  "(byte list \<Rightarrow> 'w \<Rightarrow> (io_error + unit) \<times> 'w) \<Rightarrow> ('p, 'q, 'ee, 'd, 'z) Serializer
     \<Rightarrow> 'l PacketLengthSerializer \<Rightarrow> ('ee \<Rightarrow> string) \<Rightarrow> ('l \<Rightarrow> string) \<Rightarrow> 'q list \<Rightarrow> 'w \<Rightarrow> 'z
     \<Rightarrow> (io_error + unit) \<times> 'w \<times> 'z"
where
  "send_all wr S C se sl [] w z = (Inr (), w, z)"
| "send_all wr S C se sl (p # ps) w z =
     (case framed_send wr S C se sl p w z of
        (Inl e, w', z') \<Rightarrow> (Inl e, w', z')
      | (Inr _, w', z') \<Rightarrow> send_all wr S C se sl ps w' z')"

fun receive_n ::
  "nat \<Rightarrow> (usize \<Rightarrow> 'r \<Rightarrow> (io_error + byte list) \<times> 'r) \<Rightarrow> ('p, 'q, 'ee, 'd, 'z) Serializer
     \<Rightarrow> 'l PacketLengthSerializer \<Rightarrow> ReceiveLimits \<Rightarrow> 'r \<Rightarrow> 'z
     \<Rightarrow> ((('d, 'l) ReceiveError + 'p list) \<times> 'r \<times> 'z) option"
where
  "receive_n 0 rx S C l r z = Some (Inr [], r, z)"
| "receive_n (Suc k) rx S C l r z =
     (case framed_receive rx S C l () r z of
        None \<Rightarrow> None
      | Some (Inl e, r', z') \<Rightarrow> Some (Inl e, r', z')
      | Some (Inr p, r', z') \<Rightarrow>
          map_option (\<lambda>(res, s). (map_sum id ((#) p) res, s)) (receive_n k rx S C l r' z'))"

text \<open>A sent packet appends one frame: the encoded length and the payload.\<close>

lemma framed_send_ok:
  assumes "write_laws wr wview" and "framed_send wr S C se sl p w z = (Inr u, w', z')"
  obtains payload pfx where "ser_serialize S p z = (Inr payload, z')"
    "pls_serialize C (length payload) = Inr pfx" "wview w' = wview w @ pfx @ payload"
proof -
  from assms(2) obtain payload pfx where
    p: "ser_serialize S p z = (Inr payload, z')" "pls_serialize C (length payload) = Inr pfx"
       "wr (pfx @ payload) w = (Inr u, w')"
    by (auto simp: framed_send_def split: prod.splits sum.splits)
  have "wview w' = wview w @ pfx @ payload"
    using assms(1) p(3) unfolding write_laws_def by (metis Inl_Inr_False prod.inject)
  with p that show thesis by blast
qed

lemma framed_receive_frame:
  fixes S :: "('p, 'q, 'ee, 'd, 'z) Serializer" and rx :: "usize \<Rightarrow> 'r \<Rightarrow> (io_error + byte list) \<times> 'r"
  assumes "read_laws rx view"
    and "serialize_packet_length e n (length payload) = Inr pfx"
    and "length payload \<le> max_packet_size l" "length payload \<le> usize_max"
    and "view r = pfx @ payload @ rest" and "ser_deserialize S payload z = (Inr p, z')"
  shows "\<exists>r'. framed_receive rx S (fixed_codec e n) l now r z = Some (Inr p, r', z') \<and> view r' = rest"
proof -
  obtain r1 where r1: "(read_length rx (fixed_codec e n) r
      :: ((('d, PacketTooLargeError) ReceiveError + usize) \<times> 'r) option) = Some (Inr (length payload), r1)"
    and v1: "view r1 = payload @ rest"
    using fixed_read_length [OF assms(1,2,4,5)] by blast
  obtain r2 where r2: "rx (length payload) r1 = (Inr payload, r2)" "view r2 = rest"
    using read_laws_ok [OF assms(1), of "length payload" r1] v1 by auto
  show ?thesis
    using r1 r2 assms(3,6) by (simp add: framed_receive_def receive_with_timestamp_def)
qed

lemma conversation:
  assumes w: "write_laws wr wview" and r: "read_laws rx view" and sync: "codec_sync S S' R"
    and limit: "\<And>p z bs z'. ser_serialize S p z = (Inr bs, z') \<Longrightarrow> length bs \<le> max_packet_size l \<and> length bs \<le> usize_max"
    and "R zs zr" and "send_all wr S (fixed_codec e n) se sl ps w zs = (Inr u, w', zs')"
  shows "\<exists>bytes. wview w' = wview w @ bytes
     \<and> (\<forall>r rest. view r = bytes @ rest \<longrightarrow>
          (\<exists>r' zr'. receive_n (length ps) rx S' (fixed_codec e n) l r zr = Some (Inr ps, r', zr')
                   \<and> view r' = rest \<and> R zs' zr'))"
  using assms(5,6)
proof (induction ps arbitrary: w zs zr)
  case (Cons p ps)
  obtain w1 z1 where s: "framed_send wr S (fixed_codec e n) se sl p w zs = (Inr (), w1, z1)"
    and rest: "send_all wr S (fixed_codec e n) se sl ps w1 z1 = (Inr u, w', zs')"
    using Cons.prems(2) by (auto split: prod.splits sum.splits)
  obtain payload pfx where p: "ser_serialize S p zs = (Inr payload, z1)"
    "serialize_packet_length e n (length payload) = Inr pfx" "wview w1 = wview w @ pfx @ payload"
    using framed_send_ok [OF w s] by (auto simp: fixed_codec_def)
  obtain zr1 where d: "ser_deserialize S' payload zr = (Inr p, zr1)" "R z1 zr1"
    using sync Cons.prems(1) p(1) unfolding codec_sync_def by blast
  obtain bytes where b: "wview w' = wview w1 @ bytes"
    and ih: "\<And>r rest. view r = bytes @ rest \<Longrightarrow>
       \<exists>r' zr'. receive_n (length ps) rx S' (fixed_codec e n) l r zr1 = Some (Inr ps, r', zr')
                \<and> view r' = rest \<and> R zs' zr'"
    using Cons.IH [OF d(2) rest] by blast
  have "\<exists>r' zr'. receive_n (length (p # ps)) rx S' (fixed_codec e n) l r0 zr = Some (Inr (p # ps), r', zr')
          \<and> view r' = rest0 \<and> R zs' zr'" if v: "view r0 = (pfx @ payload @ bytes) @ rest0" for r0 rest0
  proof -
    obtain r1 where f: "framed_receive rx S' (fixed_codec e n) l () r0 zr = Some (Inr p, r1, zr1)"
      and v1: "view r1 = bytes @ rest0"
      using framed_receive_frame [OF r p(2) _ _ _ d(1), of l r0 "bytes @ rest0" "()"]
        limit [OF p(1)] v by auto
    show ?thesis using ih [OF v1] f by auto
  qed
  then show ?case
    using b p(3) by (intro exI [of _ "pfx @ payload @ bytes"]) auto
qed auto

section \<open>Properties\<close>


definition demo_codec :: "(byte list, byte list, unit, unit, nat) Serializer" where
  "demo_codec =
     \<lparr>ser_serialize = (\<lambda>p k. if length p \<le> 4 then (Inr (map (\<lambda>b. b + of_nat k) p), k + 1) else (Inl (), k)),
      ser_deserialize = (\<lambda>bs k. (Inr (map (\<lambda>b. b - of_nat k) bs), k + 1))\<rparr>"


text \<open>
  (C28) The receive limit is enforced before the payload is read. With a built-in length codec,
  receiving always returns. A frame whose announced length exceeds the limit is answered with
  \<open>PacketTooBig\<close> after only the prefix has been consumed; and a packet is delivered only if it was
  decoded from the announced number of bytes, no more than the limit.
\<close>

theorem receive_limit_enforced:
  assumes "read_laws rx view"
  shows "\<exists>res r' z'. receive_with_timestamp rx S (fixed_codec e n) l now r z = Some (res, r', z')
     \<and> (prefix_size n \<le> length (view r) \<and> from_bytes e (take (prefix_size n) (view r)) \<le> usize_max
         \<and> max_packet_size l < from_bytes e (take (prefix_size n) (view r))
         \<longrightarrow> res = Inl PacketTooBig \<and> view r' = drop (prefix_size n) (view r) \<and> z' = z)
     \<and> (\<forall>p t. res = Inr (p, t) \<longrightarrow>
          t = now \<and> (\<exists>payload. fst (ser_deserialize S payload z) = Inr p
             \<and> length payload \<le> max_packet_size l
             \<and> length payload = from_bytes e (take (prefix_size n) (view r))
             \<and> view r = take (prefix_size n) (view r) @ payload @ view r'))"
proof (cases "prefix_size n \<le> length (view r)")
  case False
  then have "length (view r) < prefix_size n" by simp
  then obtain e' r' where "rx (prefix_size n) r = (Inl e', r')"
    by (rule read_laws_err [OF assms])
  then show ?thesis
    using False by (simp add: receive_with_timestamp_def fixed_read_length_eq [OF assms])
next
  case True
  let ?pfx = "take (prefix_size n) (view r)" and ?len = "from_bytes e (take (prefix_size n) (view r))"
  obtain r1 where r1: "rx (prefix_size n) r = (Inr ?pfx, r1)" "view r1 = drop (prefix_size n) (view r)"
    by (rule read_laws_ok [OF assms True])
  consider (err) "usize_max < ?len" | (big) "?len \<le> usize_max" "max_packet_size l < ?len"
    | (short) "?len \<le> usize_max" "?len \<le> max_packet_size l" "length (view r1) < ?len"
    | (ok) "?len \<le> usize_max" "?len \<le> max_packet_size l" "?len \<le> length (view r1)"
    by linarith
  then show ?thesis
  proof cases
    case err
    then show ?thesis
      using r1 by (simp add: receive_with_timestamp_def fixed_read_length_eq [OF assms] Let_def)
  next
    case big
    then show ?thesis
      using r1 by (simp add: receive_with_timestamp_def fixed_read_length_eq [OF assms] Let_def)
  next
    case short
    obtain e' r2 where "rx ?len r1 = (Inl e', r2)"
      by (rule read_laws_err [OF assms short(3)])
    then show ?thesis
      using r1 short by (simp add: receive_with_timestamp_def fixed_read_length_eq [OF assms] Let_def)
  next
    case ok
    obtain r2 where r2: "rx ?len r1 = (Inr (take ?len (view r1)), r2)" "view r2 = drop ?len (view r1)"
      by (rule read_laws_ok [OF assms ok(3)])
    have split: "view r = ?pfx @ take ?len (view r1) @ view r2"
      unfolding r2(2) append_take_drop_id r1(2) ..
    show ?thesis
    proof (cases "ser_deserialize S (take ?len (view r1)) z")
      case (Pair d z2)
      show ?thesis
        using r1 r2 ok Pair split
        by (cases d) (auto simp: receive_with_timestamp_def fixed_read_length_eq [OF assms] Let_def
            intro!: exI [of _ "take ?len (view r1)"])
    qed
  qed
qed

theorem receive_limit_enforced_witness:
  "\<exists>r' z'. receive_with_timestamp pipe_read demo_codec (fixed_codec LittleEndian U8) 2 () [3, 1, 1, 1] 0
     = Some (Inl PacketTooBig, r', z') \<and> r' = [1, 1, 1] \<and> z' = 0"
  using receive_limit_enforced [OF pipe_laws(1), of demo_codec LittleEndian U8 2 "()" "[3, 1, 1, 1]" 0]
  by (simp add: prefix_size_def max_packet_size_def usize_max_def)

end
