(* ===== verification/Tcp_Protocol.thy ===== *)
theory Tcp_Protocol
  imports Ecs_Connection Framing
begin

text \<open>
  The TCP protocol of \<^verbatim>\<open>src/src/protocols/tcp.rs\<close>: wrapping of sockets, the listener and the stream.
  Sockets are tokio's, so the calls on them are the fields of \<open>tcp_net\<close>, each with its \<open>io::Result\<close>;
  \<open>'s\<close> is a connected socket and \<open>'l\<close> a listening one. Framing of the two halves is \<open>Framing\<close>.
\<close>

record ('l, 's) tcp_net =
  tn_bind :: "SocketAddr \<Rightarrow> io_error + 'l"
  tn_listener_addr :: "'l \<Rightarrow> io_error + SocketAddr"
  tn_accept :: "'l \<Rightarrow> io_error + 's"
  tn_connect :: "SocketAddr \<Rightarrow> io_error + 's"
  tn_set_nodelay :: "bool \<Rightarrow> 's \<Rightarrow> io_error + 's"
  tn_peer_addr :: "'s \<Rightarrow> io_error + SocketAddr"
  tn_local_addr :: "'s \<Rightarrow> io_error + SocketAddr"

record 'l TcpNetworkListener =
  tcp_socket :: 'l
  address :: SocketAddr
  nodelay :: "bool option"

datatype 's TcpNetworkStream = TcpNetworkStream (tcp_stream: 's) (tcp_peer: SocketAddr) (tcp_local: SocketAddr)

definition from_listener :: "('l, 's) tcp_net \<Rightarrow> 'l \<Rightarrow> io_error + 'l TcpNetworkListener" where
  "from_listener N socket =
     (case tn_listener_addr N socket of
        Inl e \<Rightarrow> Inl e
      | Inr a \<Rightarrow> Inr \<lparr>tcp_socket = socket, address = a, nodelay = None\<rparr>)"

definition tcp_bind :: "('l, 's) tcp_net \<Rightarrow> SocketAddr \<Rightarrow> io_error + 'l TcpNetworkListener" where
  "tcp_bind N addr = (case tn_bind N addr of Inl e \<Rightarrow> Inl e | Inr l \<Rightarrow> from_listener N l)"

definition with_nodelay :: "bool \<Rightarrow> 'l TcpNetworkListener \<Rightarrow> 'l TcpNetworkListener" where
  "with_nodelay b l = l\<lparr>nodelay := Some b\<rparr>"

definition from_stream :: "('l, 's) tcp_net \<Rightarrow> 's \<Rightarrow> io_error + 's TcpNetworkStream" where
  "from_stream N s =
     (case tn_peer_addr N s of
        Inl e \<Rightarrow> Inl e
      | Inr peer \<Rightarrow> (case tn_local_addr N s of
                       Inl e \<Rightarrow> Inl e
                     | Inr local \<Rightarrow> Inr (TcpNetworkStream s peer local)))"

definition tcp_accept ::
  "('l, 's) tcp_net \<Rightarrow> 'l TcpNetworkListener \<Rightarrow> io_error + 's TcpNetworkStream"
where
  "tcp_accept N l =
     (case tn_accept N (tcp_socket l) of
        Inl e \<Rightarrow> Inl e
      | Inr s \<Rightarrow>
          (case (case nodelay l of None \<Rightarrow> Inr s | Some b \<Rightarrow> tn_set_nodelay N b s) of
             Inl e \<Rightarrow> Inl e
           | Inr s' \<Rightarrow> from_stream N s'))"

definition tcp_connect :: "('l, 's) tcp_net \<Rightarrow> SocketAddr \<Rightarrow> io_error + 's TcpNetworkStream" where
  "tcp_connect N addr = (case tn_connect N addr of Inl e \<Rightarrow> Inl e | Inr s \<Rightarrow> from_stream N s)"

definition tcp_stream_ops :: "('s TcpNetworkStream, unit) NetworkStream" where
  "tcp_stream_ops = \<lparr>ns_transport = (\<lambda>_. ()), ns_local_addr = tcp_local, ns_peer_addr = tcp_peer\<rparr>"

text \<open>
  A TCP stream handed to a connection reports the addresses its socket reports, whether it was
  accepted or connected, an accepted stream has had exactly the configured \<open>TCP_NODELAY\<close> override
  applied, and every failing socket call is passed on as the error of the whole operation.
\<close>

theorem tcp_accept_correct:
  "(case tcp_accept N l of
      Inr st \<Rightarrow> tn_peer_addr N (tcp_stream st) = Inr (ns_peer_addr tcp_stream_ops st)
               \<and> tn_local_addr N (tcp_stream st) = Inr (ns_local_addr tcp_stream_ops st)
               \<and> (\<exists>s. tn_accept N (tcp_socket l) = Inr s
                      \<and> (case nodelay l of None \<Rightarrow> tcp_stream st = s
                         | Some b \<Rightarrow> tn_set_nodelay N b s = Inr (tcp_stream st)))
    | Inl e \<Rightarrow> tn_accept N (tcp_socket l) = Inl e
               \<or> (\<exists>s. tn_accept N (tcp_socket l) = Inr s
                  \<and> ((\<exists>b. nodelay l = Some b \<and> tn_set_nodelay N b s = Inl e)
                     \<or> (\<exists>s'. tn_peer_addr N s' = Inl e \<or> tn_local_addr N s' = Inl e))))
   \<and> (case tcp_connect N addr of
        Inr st \<Rightarrow> tn_connect N addr = Inr (tcp_stream st)
                  \<and> tn_peer_addr N (tcp_stream st) = Inr (ns_peer_addr tcp_stream_ops st)
      | Inl e \<Rightarrow> tn_connect N addr = Inl e
                 \<or> (\<exists>s. tn_connect N addr = Inr s \<and> from_stream N s = Inl e))"
  by (auto simp: tcp_accept_def tcp_connect_def from_stream_def tcp_stream_ops_def
      split: sum.splits option.splits)

end
