(* ===== verification/Udp_Settings.thy ===== *)
theory Udp_Settings
  imports Lossy_Queue
begin

text \<open>
  UDP options and pacing: \<^verbatim>\<open>src/src/protocols/udp/settings.rs\<close> and \<^verbatim>\<open>src/src/protocols/udp/pacing.rs\<close>. Instants
  are nanoseconds since an arbitrary origin. \<open>spacing\<close> computes in \<open>u128\<close>; the multiplication is
  written with its wrap-around. A rate is a \<open>NonZeroU64\<close>, a positive number below \<open>2 ^ 64\<close>.
  \<^verbatim>\<open>Semaphore::MAX_PERMITS\<close> is tokio's constant and a parameter.
\<close>

section \<open>Options\<close>

definition BUFFER_SIZE :: usize where
  "BUFFER_SIZE = 65535"

definition MAX_DATAGRAM_SIZE :: usize where
  "MAX_DATAGRAM_SIZE = 65507"

record UdpOptions =
  max_peers :: usize
  max_datagram_size :: usize
  receive_queue_capacity :: usize
  receive_queue_bytes :: usize
  receive_queue_overflow :: OverflowPolicy
  send_rate :: "nat option"

definition max_payload_size :: "UdpOptions \<Rightarrow> usize option" where
  "max_payload_size o' =
     (if MAX_DATAGRAM_SIZE < max_datagram_size o' then None else Some (max_datagram_size o'))"

definition default_udp_options :: UdpOptions where
  "default_udp_options =
     \<lparr>max_peers = 1024, max_datagram_size = 1200, receive_queue_capacity = 1024,
      receive_queue_bytes = 2 ^ 20, receive_queue_overflow = DropNewest, send_rate = None\<rparr>"

datatype ValidatedOptions = ValidatedOptions (options: UdpOptions)

definition validated_new :: "usize \<Rightarrow> UdpOptions \<Rightarrow> io_error + ValidatedOptions" where
  "validated_new max_permits o' =
     (if max_payload_size o' = None \<or> max_permits < max_peers o'
      then Inl (IoError InvalidInput ''invalid UDP transport settings'')
      else Inr (ValidatedOptions o'))"

definition validated_max_payload_size :: "ValidatedOptions \<Rightarrow> usize" where
  "validated_max_payload_size v = max_datagram_size (options v)"

section \<open>Pacing\<close>

type_synonym instant = nat

text \<open>\<open>Duration::new\<close> carries whole seconds out of the nanosecond argument.\<close>

record Duration =
  dur_secs :: nat
  dur_nanos :: nat

definition duration_new :: "nat \<Rightarrow> nat \<Rightarrow> Duration" where
  "duration_new secs nanos =
     \<lparr>dur_secs = secs + nanos div 1000000000, dur_nanos = nanos mod 1000000000\<rparr>"

definition as_nanos :: "Duration \<Rightarrow> nat" where
  "as_nanos d = dur_secs d * 1000000000 + dur_nanos d"

definition div_ceil :: "nat \<Rightarrow> nat \<Rightarrow> nat" where
  "div_ceil a b = a div b + (if a mod b = 0 then 0 else 1)"

definition spacing :: "usize \<Rightarrow> nat \<Rightarrow> Duration" where
  "spacing bytes' rate =
     (let nanos = div_ceil ((bytes' * 1000000000) mod 2 ^ 128) rate in
      duration_new
        (if nanos div 1000000000 < 2 ^ 64 then nanos div 1000000000 else 2 ^ 64 - 1)
        (if nanos mod 1000000000 < 2 ^ 32 then nanos mod 1000000000 else 2 ^ 32 - 1))"

record DataPacer =
  pacer_rate :: "nat option"
  previous :: "(instant \<times> usize) option"

definition pacer_new :: "nat option \<Rightarrow> DataPacer" where
  "pacer_new r = \<lparr>pacer_rate = r, previous = None\<rparr>"

text \<open>
  What can wake the waiting writer, with the instant at which it runs again: the peer's token, the
  watch channel of the rate (with its new value, or closed) and the timer.
\<close>

datatype wake = WCancelled | WRate "nat option" instant | WRateClosed instant | WTimer instant

definition peer_closed_error :: io_error where
  "peer_closed_error = IoError ConnectionAborted ''UDP peer closed''"

text \<open>\<open>wait\<close> from the instant \<open>now\<close>, on the sequence of wake-ups it meets; \<open>Pending\<close> when they run
  out. With the result comes the instant of the return.\<close>

fun pacer_wait ::
  "instant \<Rightarrow> wake list \<Rightarrow> DataPacer \<Rightarrow> ((io_error + unit) \<times> instant) poll \<times> DataPacer"
where
  "pacer_wait now ws p =
     (case previous p of
        None \<Rightarrow> (Ready (Inr (), now), p)
      | Some (sent_at, bytes') \<Rightarrow>
          (case pacer_rate p of
             None \<Rightarrow> (Ready (Inr (), now), p)
           | Some r \<Rightarrow>
               if sent_at + as_nanos (spacing bytes' r) \<le> now then (Ready (Inr (), now), p)
               else (case ws of
                       [] \<Rightarrow> (Pending, p)
                     | WCancelled # _ \<Rightarrow> (Ready (Inl peer_closed_error, now), p)
                     | WRateClosed t # _ \<Rightarrow> (Ready (Inr (), t), p)
                     | WTimer t # _ \<Rightarrow> (Ready (Inr (), t), p)
                     | WRate r' t # ws' \<Rightarrow> pacer_wait t ws' (p\<lparr>pacer_rate := r'\<rparr>))))"

declare pacer_wait.simps [simp del]

lemma pacer_wait_err:
  "pacer_wait now ws p = (Ready (Inl err, t), p') \<Longrightarrow> WCancelled \<in> set ws \<and> err = peer_closed_error"
proof (induction now ws p rule: pacer_wait.induct)
  case (1 now ws p)
  show ?case
    using 1(2) [unfolded pacer_wait.simps [of now ws p]] 1(1)
    by (auto split: option.splits if_splits list.splits wake.splits)
qed

definition pacer_sent :: "instant \<Rightarrow> usize \<Rightarrow> DataPacer \<Rightarrow> DataPacer" where
  "pacer_sent now bytes' p = p\<lparr>previous := Some (now, bytes')\<rparr>"

section \<open>Exactness of the spacing\<close>

lemma div_ceil_bounds:
  assumes "0 < b"
  shows "a \<le> div_ceil a b * b" and "div_ceil a b * b < a + b"
proof -
  obtain q where q: "q = a div b * b" "a = q + a mod b" by simp
  have l: "a mod b < b" using assms by simp
  have d: "div_ceil a b * b = q + (if a mod b = 0 then 0 else b)"
    by (simp add: div_ceil_def add_mult_distrib q(1))
  show "a \<le> div_ceil a b * b" "div_ceil a b * b < a + b"
    unfolding d using q(2) l by (simp_all split: if_splits)
qed

lemma div_ceil_le: "0 < b \<Longrightarrow> div_ceil a b \<le> a"
proof (cases "b = 1 \<or> a = 0")
  case False
  assume "0 < b"
  then have "a div b < a" using False by (intro div_less_dividend) auto
  then show ?thesis by (auto simp: div_ceil_def)
qed (auto simp: div_ceil_def)

lemma spacing_exact:
  assumes "bytes' < 2 ^ 64" and "0 < rate"
  shows "as_nanos (spacing bytes' rate) = div_ceil (bytes' * 1000000000) rate"
    and "dur_secs (spacing bytes' rate) < 2 ^ 64" and "dur_nanos (spacing bytes' rate) < 1000000000"
proof -
  let ?n = "div_ceil (bytes' * 1000000000) rate"
  have "bytes' * 1000000000 < 2 ^ 64 * 2 ^ 30"
    using assms(1) by (intro mult_strict_mono) simp_all
  then have m: "(bytes' * 1000000000) mod 2 ^ 128 = bytes' * 1000000000"
    by (intro mod_less) simp
  have "?n \<le> bytes' * 1000000000" by (rule div_ceil_le [OF assms(2)])
  then have "?n div 1000000000 \<le> bytes'"
    by (metis div_le_mono nonzero_mult_div_cancel_right zero_neq_numeral)
  then have s: "?n div 1000000000 < 2 ^ 64" using assms(1) by simp
  have d: "spacing bytes' rate = duration_new (?n div 1000000000) (?n mod 1000000000)"
  proof -
    have "?n mod 1000000000 < 2 ^ 32"
      by (rule less_trans [OF mod_less_divisor]) simp_all
    then show ?thesis unfolding spacing_def m Let_def using s by presburger
  qed
  then show "as_nanos (spacing bytes' rate) = ?n" "dur_secs (spacing bytes' rate) < 2 ^ 64"
    "dur_nanos (spacing bytes' rate) < 1000000000"
    using s by (simp_all add: as_nanos_def duration_new_def)
qed

section \<open>Properties\<close>

text \<open>
  Validation of UDP options is exact: options are accepted if and only if the datagram size is
  within the UDP maximum and the peer limit fits the semaphore, and accepted options are unchanged,
  so that a payload of the accepted size always fits the receive buffer. The defaults are valid.
\<close>

theorem udp_options_validation:
  "(case validated_new max_permits o' of
      Inr v \<Rightarrow> options v = o' \<and> max_datagram_size o' \<le> MAX_DATAGRAM_SIZE \<and> max_peers o' \<le> max_permits
               \<and> max_payload_size o' = Some (validated_max_payload_size v)
               \<and> validated_max_payload_size v \<le> BUFFER_SIZE
    | Inl err \<Rightarrow> kind err = InvalidInput
                 \<and> (MAX_DATAGRAM_SIZE < max_datagram_size o' \<or> max_permits < max_peers o'))
   \<and> result_ok (validated_new 1024 default_udp_options)"
  by (auto simp: validated_new_def max_payload_size_def validated_max_payload_size_def
      MAX_DATAGRAM_SIZE_def BUFFER_SIZE_def default_udp_options_def)

text \<open>
  The spacing of datagrams is the exact time the bytes take at the given rate, rounded up to a
  nanosecond: no step of the \<open>u128\<close> computation overflows or saturates, for every length and rate.
\<close>

theorem spacing_rounds_up:
  assumes "bytes' < 2 ^ 64" and "0 < rate"
  shows "bytes' * 1000000000 \<le> as_nanos (spacing bytes' rate) * rate
         \<and> as_nanos (spacing bytes' rate) * rate < bytes' * 1000000000 + rate
         \<and> dur_secs (spacing bytes' rate) < 2 ^ 64 \<and> dur_nanos (spacing bytes' rate) < 1000000000"
  using spacing_exact [OF assms] div_ceil_bounds [OF assms(2), of "bytes' * 1000000000"] by simp

theorem spacing_rounds_up_witness:
  "as_nanos (spacing 37 74) * 74 = 37 * 1000000000 \<and> dur_nanos (spacing 37 74) = 500000000"
proof -
  have e: "as_nanos (spacing 37 74) = 500000000" "dur_nanos (spacing 37 74) = 500000000"
    by (simp_all add: spacing_def div_ceil_def duration_new_def as_nanos_def)
  show ?thesis
    using spacing_rounds_up [of 37 74] e by simp
qed

lemma pacer_wait_ok:
  assumes "pacer_wait now ws p = (Ready (Inr (), t), p')" and "previous p = Some (s, b)"
    and "\<And>r' t'. WRate r' t' \<notin> set ws" and "\<And>t'. WRateClosed t' \<notin> set ws"
    and "pacer_rate p = Some r"
    and "\<And>t'. WTimer t' \<in> set ws \<Longrightarrow> s + as_nanos (spacing b r) \<le> t'"
  shows "s + as_nanos (spacing b r) \<le> t"
proof (cases ws)
  case Nil
  then show ?thesis
    using assms(1) by (subst (asm) pacer_wait.simps) (auto simp: assms(2,5) split: if_splits)
next
  case (Cons w ws')
  then show ?thesis
    using assms(1,3,4,6)
    by (subst (asm) pacer_wait.simps) (cases w; auto simp: assms(2,5) split: if_splits)
qed

text \<open>
  A paced writer at a fixed rate: each send (its instant and length) follows a completed wait on a
  timer that never fires early.
\<close>

fun paced :: "nat \<Rightarrow> (instant \<times> usize) list \<Rightarrow> bool" where
  "paced r ((s, b) # (t, b') # sends) \<longleftrightarrow>
     (\<exists>now ws p'. pacer_wait now ws \<lparr>pacer_rate = Some r, previous = Some (s, b)\<rparr> = (Ready (Inr (), t), p')
        \<and> (\<forall>w \<in> set ws. w = WCancelled \<or> (\<exists>t'. w = WTimer t' \<and> s + as_nanos (spacing b r) \<le> t')))
     \<and> paced r ((t, b') # sends)"
| "paced r sends \<longleftrightarrow> True"

lemma paced_step:
  assumes "paced r ((s, b) # (t, b') # sends)" and "0 < r" "b < 2 ^ 64"
  shows "b * 1000000000 \<le> (t - s) * r" and "s \<le> t"
proof -
  obtain now ws p' where w: "pacer_wait now ws \<lparr>pacer_rate = Some r, previous = Some (s, b)\<rparr> = (Ready (Inr (), t), p')"
    and ws: "\<forall>w \<in> set ws. w = WCancelled \<or> (\<exists>t'. w = WTimer t' \<and> s + as_nanos (spacing b r) \<le> t')"
    using assms(1) by auto
  have le: "s + as_nanos (spacing b r) \<le> t"
    by (rule pacer_wait_ok [OF w]) (use ws in auto)
  then have "as_nanos (spacing b r) \<le> t - s" by simp
  then have "as_nanos (spacing b r) * r \<le> (t - s) * r" by (rule mult_le_mono1)
  then show "b * 1000000000 \<le> (t - s) * r"
    unfolding spacing_exact(1) [OF assms(3,2)]
    by (rule le_trans [OF div_ceil_bounds(1) [OF assms(2)]])
  show "s \<le> t" using le by simp
qed

lemma paced_rate:
  assumes "paced r ((s, b) # sends)" and "0 < r" and "\<forall>x \<in> set ((s, b) # sends). snd x < 2 ^ 64"
  shows "sum_list (map snd (butlast ((s, b) # sends))) * 1000000000 \<le> (fst (last ((s, b) # sends)) - s) * r
         \<and> s \<le> fst (last ((s, b) # sends))"
  using assms
proof (induction sends arbitrary: s b)
  case (Cons x sends)
  obtain t b' where x: "x = (t, b')" by fastforce
  have st: "b * 1000000000 \<le> (t - s) * r" "s \<le> t"
    using paced_step [of r s b t b' sends] Cons.prems by (simp_all add: x)
  have ih: "sum_list (map snd (butlast ((t, b') # sends))) * 1000000000
              \<le> (fst (last ((t, b') # sends)) - t) * r" "t \<le> fst (last ((t, b') # sends))"
    using Cons.IH [of t b'] Cons.prems by (simp_all add: x)
  let ?e = "fst (last ((t, b') # sends))"
  have "(?e - s) * r = (?e - t) * r + (t - s) * r"
    using st(2) ih(2) by (simp flip: add_mult_distrib)
  then show ?case
    using st ih by (simp add: x add_mult_distrib)
qed simp



end
