(* ===== verification/Udp_Peer.thy ===== *)
theory Udp_Peer
  imports Udp_Settings Transport_Handle "HOL-Library.AList"
begin

text \<open>
  UDP peers and the listener: \<^verbatim>\<open>src/src/protocols/udp/peer.rs\<close> and \<^verbatim>\<open>src/src/protocols/udp/listener.rs\<close>.

  An \<open>Arc<PeerState>\<close> is an index into \<open>entries\<close>, so that \<open>Arc::ptr_eq\<close> is equality of indices; the
  entry also holds the raw queue that the listener's \<open>Peer\<close> and the stream share. The \<open>HashMap\<close> of
  peers is an association list. \<open>alive\<close> says whether \<open>Weak<Peers>\<close> still upgrades. The tokio semaphore
  that counts peer slots is a parameter with its documented laws \<open>sem_laws\<close>.
\<close>

section \<open>State\<close>

record 'sm semaphore =
  sem_new :: "usize \<Rightarrow> 'sm"
  sem_try_acquire :: "'sm \<Rightarrow> bool \<times> 'sm"
  sem_release :: "'sm \<Rightarrow> 'sm"

record QueuedDatagram =
  qd_bytes :: "byte list"
  qd_received_at :: instant

record 'k PeerState =
  ps_options :: ValidatedOptions
  ps_handle :: UdpConnectionHandle
  ps_closed :: 'k

record 'k Peer =
  peer_state :: "'k PeerState"
  peer_queue :: "QueuedDatagram Shared"

record ('k, 'ts, 'sm) UdpNetworkListener =
  listener_addr :: SocketAddr
  peers :: "(SocketAddr \<times> nat) list"
  entries :: "'k Peer list"
  slots :: 'sm
  listener_options :: ValidatedOptions
  tokens_state :: 'ts
  alive :: bool

datatype PeerRegistration = PeerRegistration (reg_address: SocketAddr) (reg_state: nat)

section \<open>Peers\<close>

definition peer_state_new ::
  "('k, 'ts) tokens \<Rightarrow> ValidatedOptions \<Rightarrow> 'ts \<Rightarrow> 'k PeerState \<times> 'ts"
where
  "peer_state_new T v ts =
     (case tok_new T ts of
        (k, ts') \<Rightarrow> (\<lparr>ps_options = v,
                     ps_handle = handle_new (validated_max_payload_size v)
                                   (map_option of_nat (send_rate (options v))),
                     ps_closed = k\<rparr>, ts'))"

definition peer_is_closed ::
  "('k, 'ts) tokens \<Rightarrow> nat \<Rightarrow> ('k, 'ts, 'sm) UdpNetworkListener \<Rightarrow> bool"
where
  "peer_is_closed T i w = tok_is_cancelled T (tokens_state w) (ps_closed (peer_state (entries w ! i)))"

definition peer_close ::
  "('k, 'ts) tokens \<Rightarrow> nat \<Rightarrow> ('k, 'ts, 'sm) UdpNetworkListener \<Rightarrow> ('k, 'ts, 'sm) UdpNetworkListener"
where
  "peer_close T i w =
     w\<lparr>tokens_state := tok_cancel T (ps_closed (peer_state (entries w ! i))) (tokens_state w)\<rparr>"

definition upd_entry ::
  "nat \<Rightarrow> ('k Peer \<Rightarrow> 'k Peer) \<Rightarrow> ('k, 'ts, 'sm) UdpNetworkListener \<Rightarrow> ('k, 'ts, 'sm) UdpNetworkListener"
where
  "upd_entry i f w = w\<lparr>entries := (entries w)[i := f (entries w ! i)]\<rparr>"

definition peer_count_drop :: "UdpDropReason \<Rightarrow> 'k Peer \<Rightarrow> 'k Peer" where
  "peer_count_drop r p =
     p\<lparr>peer_state := (peer_state p)\<lparr>ps_handle := count_drop r (ps_handle (peer_state p))\<rparr>\<rparr>"

definition received_datagram :: "usize \<Rightarrow> 'k Peer \<Rightarrow> 'k Peer" where
  "received_datagram n p =
     p\<lparr>peer_state := (peer_state p)\<lparr>ps_handle := received n (ps_handle (peer_state p))\<rparr>\<rparr>"

text \<open>\<open>Peer::push\<close>; \<open>closed\<close> is the answer of the peer's token.\<close>

definition peer_push :: "bool \<Rightarrow> byte list \<Rightarrow> instant \<Rightarrow> 'k Peer \<Rightarrow> 'k Peer" where
  "peer_push closed bs at p =
     (if closed then peer_count_drop UClosedBeforeDelivery p
      else case try_send \<lparr>qd_bytes = bs, qd_received_at = at\<rparr> (length bs) (peer_queue p) of
             (Inr evicted, q, _) \<Rightarrow>
               fold (\<lambda>_. peer_count_drop URawQueueEvicted) evicted (p\<lparr>peer_queue := q\<rparr>)
           | (Inl (Full _), q, _) \<Rightarrow> peer_count_drop URawQueueFull (p\<lparr>peer_queue := q\<rparr>)
           | (Inl (Closed _), q, _) \<Rightarrow> peer_count_drop UClosedBeforeDelivery (p\<lparr>peer_queue := q\<rparr>))"

text \<open>Dropping a \<open>Peer\<close> that was removed from the map drops its sending handle of the raw queue.\<close>

definition drop_peer :: "'k Peer \<Rightarrow> 'k Peer" where
  "drop_peer p = p\<lparr>peer_queue := fst (sender_drop (peer_queue p))\<rparr>"

definition drop_peer_at ::
  "nat option \<Rightarrow> ('k, 'ts, 'sm) UdpNetworkListener \<Rightarrow> ('k, 'ts, 'sm) UdpNetworkListener"
where
  "drop_peer_at io w = (case io of None \<Rightarrow> w | Some i \<Rightarrow> upd_entry i drop_peer w)"

definition registration_drop ::
  "('k, 'ts) tokens \<Rightarrow> 'sm semaphore \<Rightarrow> PeerRegistration
     \<Rightarrow> ('k, 'ts, 'sm) UdpNetworkListener \<Rightarrow> ('k, 'ts, 'sm) UdpNetworkListener"
where
  "registration_drop T Sm reg w =
     (let a = reg_address reg; i = reg_state reg;
          w1 = (if alive w \<and> map_of (peers w) a = Some i
                then upd_entry i drop_peer (w\<lparr>peers := AList.delete a (peers w)\<rparr>) else w);
          w2 = peer_close T i w1
      in w2\<lparr>slots := sem_release Sm (slots w2)\<rparr>)"

section \<open>Listener\<close>

text \<open>
  \<open>from_socket\<close> on a socket whose peer and local address queries answer \<open>peer\<close> and \<open>local\<close>, and
  \<open>bind\<close>, which validates the options before it binds (\<open>bound\<close> is the outcome of the bind).
\<close>

definition listener_from_socket ::
  "usize \<Rightarrow> 'sm semaphore \<Rightarrow> 'ts \<Rightarrow> io_error + SocketAddr \<Rightarrow> io_error + SocketAddr \<Rightarrow> UdpOptions
     \<Rightarrow> io_error + ('k, 'ts, 'sm) UdpNetworkListener"
where
  "listener_from_socket max_permits Sm ts peer local o' =
     (case validated_new max_permits o' of
        Inl e \<Rightarrow> Inl e
      | Inr v \<Rightarrow>
          if result_ok peer
          then Inl (IoError InvalidInput ''UDP listener socket must be unconnected'')
          else (case local of
                  Inl e \<Rightarrow> Inl e
                | Inr a \<Rightarrow> Inr \<lparr>listener_addr = a, peers = [], entries = [],
                                slots = sem_new Sm (max_peers (options v)),
                                listener_options = v, tokens_state = ts, alive = True\<rparr>))"

definition listener_bind ::
  "usize \<Rightarrow> 'sm semaphore \<Rightarrow> 'ts \<Rightarrow> io_error + (io_error + SocketAddr) \<times> (io_error + SocketAddr)
     \<Rightarrow> UdpOptions \<Rightarrow> io_error + ('k, 'ts, 'sm) UdpNetworkListener"
where
  "listener_bind max_permits Sm ts bound o' =
     (case validated_new max_permits o' of
        Inl e \<Rightarrow> Inl e
      | Inr _ \<Rightarrow> (case bound of
                   Inl e \<Rightarrow> Inl e
                 | Inr (peer, local) \<Rightarrow> listener_from_socket max_permits Sm ts peer local o'))"

definition dispatch_new ::
  "('k, 'ts) tokens \<Rightarrow> 'sm semaphore \<Rightarrow> byte list \<Rightarrow> SocketAddr \<Rightarrow> instant
     \<Rightarrow> ('k, 'ts, 'sm) UdpNetworkListener
     \<Rightarrow> PeerRegistration option \<times> ('k, 'ts, 'sm) UdpNetworkListener"
where
  "dispatch_new T Sm bs addr at w =
     (let o' = options (listener_options w) in
      if receive_queue_capacity o' = 0 \<or> receive_queue_bytes o' < length bs then (None, w)
      else case sem_try_acquire Sm (slots w) of
        (False, sm) \<Rightarrow> (None, w\<lparr>slots := sm\<rparr>)
      | (True, sm) \<Rightarrow>
          (let (st, ts) = peer_state_new T (listener_options w) (tokens_state w);
               queue = lossy_channel (receive_queue_capacity o') (receive_queue_bytes o')
                         (receive_queue_overflow o')
           in case try_send \<lparr>qd_bytes = bs, qd_received_at = at\<rparr> (length bs) queue of
                (Inl _, _, _) \<Rightarrow> (None, w\<lparr>slots := sem_release Sm sm, tokens_state := ts\<rparr>)
              | (Inr _, q, _) \<Rightarrow>
                  (let i = length (entries w);
                       p = received_datagram (length bs) \<lparr>peer_state = st, peer_queue = q\<rparr>;
                       w1 = drop_peer_at (map_of (peers w) addr)
                              (w\<lparr>slots := sm, tokens_state := ts, entries := entries w @ [p]\<rparr>)
                   in (Some (PeerRegistration addr i), w1\<lparr>peers := AList.update addr i (peers w)\<rparr>))))"

definition dispatch ::
  "('k, 'ts) tokens \<Rightarrow> 'sm semaphore \<Rightarrow> byte list \<Rightarrow> SocketAddr \<Rightarrow> instant
     \<Rightarrow> ('k, 'ts, 'sm) UdpNetworkListener
     \<Rightarrow> PeerRegistration option \<times> ('k, 'ts, 'sm) UdpNetworkListener"
where
  "dispatch T Sm bs addr at w =
     (if MAX_DATAGRAM_SIZE < length bs then (None, w)
      else case map_of (peers w) addr of
        Some i \<Rightarrow>
          if \<not> peer_is_closed T i w
          then (None, upd_entry i (\<lambda>p. peer_push (peer_is_closed T i w) bs at
                                         (received_datagram (length bs) p)) w)
          else dispatch_new T Sm bs addr at w
      | None \<Rightarrow> dispatch_new T Sm bs addr at w)"

definition listener_drop ::
  "('k, 'ts) tokens \<Rightarrow> ('k, 'ts, 'sm) UdpNetworkListener \<Rightarrow> ('k, 'ts, 'sm) UdpNetworkListener"
where
  "listener_drop T w =
     (let w1 = fold (\<lambda>(a, i). peer_close T i) (peers w) w;
          w2 = fold (\<lambda>(a, i). upd_entry i drop_peer) (peers w) w1
      in w2\<lparr>peers := [], alive := False\<rparr>)"

text \<open>
  \<open>accept\<close> on the sequence of results that \<open>recv_from\<close> delivers; the call is still waiting
  (\<open>Pending\<close>) when they run out. Reset and refused errors of earlier datagrams are ignored.
\<close>

fun udp_accept ::
  "('k, 'ts) tokens \<Rightarrow> 'sm semaphore \<Rightarrow> ((io_error + byte list \<times> SocketAddr) \<times> instant) list
     \<Rightarrow> ('k, 'ts, 'sm) UdpNetworkListener
     \<Rightarrow> (io_error + PeerRegistration) poll \<times> ('k, 'ts, 'sm) UdpNetworkListener"
where
  "udp_accept T Sm [] w = (Pending, w)"
| "udp_accept T Sm ((Inl err, t) # rs) w =
     (if kind err = ConnectionReset \<or> kind err = ConnectionRefused then udp_accept T Sm rs w
      else (Ready (Inl err), w))"
| "udp_accept T Sm ((Inr (bs, addr), t) # rs) w =
     (if BUFFER_SIZE < length bs then (Ready (Inl (IoError InvalidData '''')), w)
      else case dispatch T Sm bs addr t w of
             (Some reg, w') \<Rightarrow> (Ready (Inr reg), w')
           | (None, w') \<Rightarrow> udp_accept T Sm rs w')"

section \<open>Raw queue receiver of a stream\<close>

text \<open>\<open>TrackedIncoming\<close>: receiving from the raw queue, and its \<open>Drop\<close>, which counts what is left.\<close>

definition tracked_recv :: "'k Peer \<Rightarrow> QueuedDatagram option poll \<times> 'k Peer" where
  "tracked_recv p = (case recv_poll (peer_queue p) of (r, q, _) \<Rightarrow> (r, p\<lparr>peer_queue := q\<rparr>))"

definition tracked_drop :: "'k Peer \<Rightarrow> 'k Peer" where
  "tracked_drop p =
     (case close_and_drain (peer_queue p) of
        (pending, q, _) \<Rightarrow>
          (let p' = fold (\<lambda>_. peer_count_drop UClosedBeforeDelivery) pending (p\<lparr>peer_queue := q\<rparr>)
           in p'\<lparr>peer_queue := fst (receiver_drop (peer_queue p'))\<rparr>))"

section \<open>Semaphore laws\<close>

definition sem_laws :: "'sm semaphore \<Rightarrow> ('sm \<Rightarrow> nat) \<Rightarrow> bool" where
  "sem_laws Sm avail \<longleftrightarrow>
     (\<forall>n. avail (sem_new Sm n) = n) \<and>
     (\<forall>s. if avail s = 0 then sem_try_acquire Sm s = (False, s)
          else \<exists>s'. sem_try_acquire Sm s = (True, s') \<and> Suc (avail s') = avail s) \<and>
     (\<forall>s. avail (sem_release Sm s) = Suc (avail s))"

lemma sem_acquire:
  assumes "sem_laws Sm avail" and "sem_try_acquire Sm s = (b, s')"
  shows "if b then Suc (avail s') = avail s else s' = s \<and> avail s = 0"
proof (cases "avail s = 0")
  case True
  then have "sem_try_acquire Sm s = (False, s)" using assms(1) by (simp add: sem_laws_def)
  then show ?thesis using assms(2) True by simp
next
  case False
  then obtain t where "sem_try_acquire Sm s = (True, t)" "Suc (avail t) = avail s"
    using assms(1) unfolding sem_laws_def by (metis (no_types))
  then show ?thesis using assms(2) by simp
qed

lemma sem_release_avail: "sem_laws Sm avail \<Longrightarrow> avail (sem_release Sm s) = Suc (avail s)"
  by (simp add: sem_laws_def)

definition nat_semaphore :: "nat semaphore" where
  "nat_semaphore = \<lparr>sem_new = id, sem_try_acquire = (\<lambda>n. (0 < n, n - 1)), sem_release = Suc\<rparr>"

lemma nat_semaphore_laws: "sem_laws nat_semaphore id"
  by (simp add: sem_laws_def nat_semaphore_def)

section \<open>What each operation keeps\<close>

definition entry_ok :: "ValidatedOptions \<Rightarrow> 'k Peer \<Rightarrow> bool" where
  "entry_ok v p \<longleftrightarrow>
     lossy_wf (peer_queue p) \<and> max_items (peer_queue p) = receive_queue_capacity (options v)
     \<and> max_bytes (peer_queue p) = receive_queue_bytes (options v)"

lemma fold_peer_count_drop:
  "fold (\<lambda>_. peer_count_drop r) xs p =
     p\<lparr>peer_state := (peer_state p)\<lparr>ps_handle := (count_drop r ^^ length xs) (ps_handle (peer_state p))\<rparr>\<rparr>"
  by (induction xs arbitrary: p) (simp_all add: peer_count_drop_def funpow_swap1)

lemma peer_bookkeeping [simp]:
  "peer_queue (peer_count_drop r p) = peer_queue p"
  "peer_queue (received_datagram n p) = peer_queue p"
  "ps_closed (peer_state (peer_count_drop r p)) = ps_closed (peer_state p)"
  "ps_closed (peer_state (received_datagram n p)) = ps_closed (peer_state p)"
  by (simp_all add: peer_count_drop_def received_datagram_def)

lemma lossy_op_entry_ok:
  assumes "entry_ok v p"
  shows "try_send d n (peer_queue p) = (r1, q, ns) \<Longrightarrow> entry_ok v (p\<lparr>peer_queue := q\<rparr>)"
    and "try_recv_if rdy (peer_queue p) = (r2, q, ns) \<Longrightarrow> entry_ok v (p\<lparr>peer_queue := q\<rparr>)"
    and "close_and_drain (peer_queue p) = (xs, q, ns) \<Longrightarrow> entry_ok v (p\<lparr>peer_queue := q\<rparr>)"
    and "sender_drop (peer_queue p) = (q, ns) \<Longrightarrow> entry_ok v (p\<lparr>peer_queue := q\<rparr>)"
  using assms
  by (auto simp: entry_ok_def try_send_def close_and_drain_def sender_drop_def Let_def
      dest: try_send_where_wf try_recv_if_wf close_and_drain_wf sender_drop_wf lossy_limits_fixed)

lemma peer_push_entry_ok: "entry_ok v p \<Longrightarrow> entry_ok v (peer_push c bs at p)"
  by (auto simp: peer_push_def fold_peer_count_drop entry_ok_def try_send_def
      dest: try_send_where_wf lossy_limits_fixed split: prod.splits sum.splits TrySendError.splits)

lemma received_entry_ok [simp]: "entry_ok v (received_datagram n p) = entry_ok v p"
  by (simp add: entry_ok_def)

lemma drop_peer_entry_ok: "entry_ok v p \<Longrightarrow> entry_ok v (drop_peer p)"
  using lossy_op_entry_ok(4) [of v p] by (cases "sender_drop (peer_queue p)") (simp add: drop_peer_def)

lemma tracked_recv_entry_ok: "entry_ok v p \<Longrightarrow> entry_ok v (snd (tracked_recv p))"
  by (auto simp: tracked_recv_def recv_poll_def try_recv_def
      dest: lossy_op_entry_ok(2) split: prod.splits sum.splits TryRecvError.splits)

lemma tracked_drop_entry_ok: "entry_ok v p \<Longrightarrow> entry_ok v (tracked_drop p)"
  by (auto simp: tracked_drop_def receiver_drop_def close_and_drain_def fold_peer_count_drop
      entry_ok_def lossy_wf_def)

lemma upd_entry_frame [simp]:
  "peers (upd_entry i f w) = peers w" "slots (upd_entry i f w) = slots w"
  "alive (upd_entry i f w) = alive w" "listener_options (upd_entry i f w) = listener_options w"
  "length (entries (upd_entry i f w)) = length (entries w)"
  "tokens_state (upd_entry i f w) = tokens_state w"
  by (simp_all add: upd_entry_def)

lemma peer_close_frame [simp]:
  "peers (peer_close T i w) = peers w" "slots (peer_close T i w) = slots w"
  "alive (peer_close T i w) = alive w" "listener_options (peer_close T i w) = listener_options w"
  "entries (peer_close T i w) = entries w"
  by (simp_all add: peer_close_def)

lemma drop_peer_at_frame [simp]:
  "peers (drop_peer_at io w) = peers w" "slots (drop_peer_at io w) = slots w"
  "alive (drop_peer_at io w) = alive w" "listener_options (drop_peer_at io w) = listener_options w"
  "length (entries (drop_peer_at io w)) = length (entries w)"
  "tokens_state (drop_peer_at io w) = tokens_state w"
  by (simp_all add: drop_peer_at_def split: option.split)

definition entries_ok :: "('k, 'ts, 'sm) UdpNetworkListener \<Rightarrow> bool" where
  "entries_ok w \<longleftrightarrow> (\<forall>p \<in> set (entries w). entry_ok (listener_options w) p)"

lemma upd_entry_ok:
  assumes "entries_ok w" and "\<And>p. entry_ok (listener_options w) p \<Longrightarrow> entry_ok (listener_options w) (f p)"
  shows "entries_ok (upd_entry i f w)"
proof (cases "i < length (entries w)")
  case True
  then show ?thesis
    using assms by (auto simp: entries_ok_def upd_entry_def dest!: set_update_subset_insert [THEN subsetD])
qed (use assms(1) in \<open>simp add: entries_ok_def upd_entry_def list_update_beyond\<close>)

lemma entries_ok_slots [simp]:
  "entries_ok (w\<lparr>slots := s\<rparr>) = entries_ok w" "entries_ok (w\<lparr>peers := ps\<rparr>) = entries_ok w"
  "entries_ok (w\<lparr>tokens_state := t\<rparr>) = entries_ok w" "entries_ok (w\<lparr>alive := b\<rparr>) = entries_ok w"
  "entries_ok (peer_close T i w) = entries_ok w"
  by (simp_all add: entries_ok_def peer_close_def)

lemma drop_peer_at_ok: "entries_ok w \<Longrightarrow> entries_ok (drop_peer_at io w)"
  by (cases io) (auto simp: drop_peer_at_def intro!: upd_entry_ok drop_peer_entry_ok)

section \<open>The listener invariant\<close>

text \<open>\<open>live\<close> are the registrations held by streams that have not been dropped.\<close>

definition listener_inv ::
  "('sm \<Rightarrow> nat) \<Rightarrow> ('k, 'ts, 'sm) UdpNetworkListener \<Rightarrow> PeerRegistration list \<Rightarrow> bool"
where
  "listener_inv avail w live \<longleftrightarrow>
     avail (slots w) + length live = max_peers (options (listener_options w)) \<and>
     distinct (map reg_state live) \<and> (\<forall>r \<in> set live. reg_state r < length (entries w)) \<and>
     distinct (map fst (peers w)) \<and> (\<forall>x \<in> set (peers w). PeerRegistration (fst x) (snd x) \<in> set live) \<and>
     (\<not> alive w \<longrightarrow> peers w = []) \<and> entries_ok w \<and>
     receive_queue_capacity (options (listener_options w)) \<le> usize_max \<and>
     receive_queue_bytes (options (listener_options w)) \<le> usize_max"

inductive udp_step ::
  "('k, 'ts) tokens \<Rightarrow> 'sm semaphore \<Rightarrow> ('k, 'ts, 'sm) UdpNetworkListener \<Rightarrow> PeerRegistration list
     \<Rightarrow> ('k, 'ts, 'sm) UdpNetworkListener \<Rightarrow> PeerRegistration list \<Rightarrow> bool"
  for T Sm
where
  dispatched: "alive w \<Longrightarrow> dispatch T Sm bs addr at w = (r, w') \<Longrightarrow>
    udp_step T Sm w live w' (case r of None \<Rightarrow> live | Some reg \<Rightarrow> reg # live)"
| registration_dropped: "reg \<in> set live \<Longrightarrow>
    udp_step T Sm w live (registration_drop T Sm reg w) (remove1 reg live)"
| listener_dropped: "alive w \<Longrightarrow> udp_step T Sm w live (listener_drop T w) live"
| stream_received: "reg \<in> set live \<Longrightarrow>
    udp_step T Sm w live (upd_entry (reg_state reg) (\<lambda>p. snd (tracked_recv p)) w) live"
| stream_closed: "reg \<in> set live \<Longrightarrow>
    udp_step T Sm w live (upd_entry (reg_state reg) tracked_drop w) live"
| peer_closed: "udp_step T Sm w live (peer_close T i w) live"

inductive udp_reach ::
  "('k, 'ts) tokens \<Rightarrow> 'sm semaphore \<Rightarrow> usize \<Rightarrow> UdpOptions
     \<Rightarrow> ('k, 'ts, 'sm) UdpNetworkListener \<Rightarrow> PeerRegistration list \<Rightarrow> bool"
  for T Sm max_permits o'
where
  opened: "listener_from_socket max_permits Sm ts peer local o' = Inr w \<Longrightarrow>
    udp_reach T Sm max_permits o' w []"
| stepped: "udp_reach T Sm max_permits o' w live \<Longrightarrow> udp_step T Sm w live w' live' \<Longrightarrow>
    udp_reach T Sm max_permits o' w' live'"

lemma set_update_cases: "x \<in> set (AList.update a i xs) \<Longrightarrow> x = (a, i) \<or> x \<in> set xs"
  by (induction xs) (auto split: if_splits)

text \<open>\<open>dispatch_new\<close> either refuses without effect on slots, entries and peers, or admits the peer.\<close>

lemma dispatch_new_cases:
  assumes laws: "sem_laws Sm avail" and inv: "listener_inv avail w live"
    and d: "dispatch_new T Sm bs addr at w = (r, w')"
  obtains "r = None" "listener_inv avail w' live"
  | sm st ts q ns where "r = Some (PeerRegistration addr (length (entries w)))"
      "sem_try_acquire Sm (slots w) = (True, sm)"
      "peer_state_new T (listener_options w) (tokens_state w) = (st, ts)"
      "try_send \<lparr>qd_bytes = bs, qd_received_at = at\<rparr> (length bs)
         (lossy_channel (receive_queue_capacity (options (listener_options w)))
            (receive_queue_bytes (options (listener_options w)))
            (receive_queue_overflow (options (listener_options w)))) = (Inr [], q, ns)"
      "w' = (drop_peer_at (map_of (peers w) addr)
               (w\<lparr>slots := sm, tokens_state := ts,
                  entries := entries w @ [received_datagram (length bs) \<lparr>peer_state = st, peer_queue = q\<rparr>]\<rparr>))
               \<lparr>peers := AList.update addr (length (entries w)) (peers w)\<rparr>"
proof -
  let ?o = "options (listener_options w)"
  let ?q = "lossy_channel (receive_queue_capacity ?o) (receive_queue_bytes ?o) (receive_queue_overflow ?o)"
  let ?d = "\<lparr>qd_bytes = bs, qd_received_at = at\<rparr>"
  obtain b sm where sm: "sem_try_acquire Sm (slots w) = (b, sm)" by fastforce
  obtain st ts where st: "peer_state_new T (listener_options w) (tokens_state w) = (st, ts)"
    by fastforce
  obtain res q ns where ts: "try_send ?d (length bs) ?q = (res, q, ns)" by (metis prod_cases3)
  have wf: "lossy_wf ?q" using inv by (intro lossy_channel_wf) (simp_all add: listener_inv_def)
  have same: "listener_inv avail (w\<lparr>slots := s, tokens_state := t\<rparr>) live" if "avail s = avail (slots w)" for s t
    using inv that by (simp add: listener_inv_def)
  show thesis
  proof (cases "receive_queue_capacity ?o = 0 \<or> receive_queue_bytes ?o < length bs")
    case True
    then show thesis using that(1) d inv by (simp add: dispatch_new_def)
  next
    case no_early: False
    show thesis
    proof (cases b)
      case False
      then have "sm = slots w" using sem_acquire [OF laws sm] by simp
      then show thesis using that(1) d sm False no_early inv by (simp add: dispatch_new_def)
    next
      case True
      then have av: "Suc (avail sm) = avail (slots w)" using sem_acquire [OF laws sm] by simp
      show thesis
      proof (cases res)
        case (Inl e)
        have "avail (sem_release Sm sm) = avail (slots w)"
          using sem_release_avail [OF laws] av by simp
        from same [OF this, of ts] show thesis
          using that(1) d sm True no_early st ts Inl by (auto simp: dispatch_new_def Let_def)
      next
        case (Inr ev)
        have "ev = []"
          using ts Inr no_early inv
          by (subst (asm) try_send_fresh) (simp_all add: listener_inv_def)
        then show thesis
          using that(2) d sm True no_early st ts Inr by (simp add: dispatch_new_def Let_def)
      qed
    qed
  qed
qed

lemma new_entry_ok:
  assumes "listener_inv avail w live"
    and "try_send d n (lossy_channel (receive_queue_capacity (options (listener_options w)))
            (receive_queue_bytes (options (listener_options w))) pol) = (r, q, ns)"
  shows "entry_ok (listener_options w) \<lparr>peer_state = st, peer_queue = q\<rparr>"
proof -
  let ?o = "options (listener_options w)"
  let ?p = "\<lparr>peer_state = st, peer_queue =
     lossy_channel (receive_queue_capacity ?o) (receive_queue_bytes ?o) pol\<rparr>"
  have "entry_ok (listener_options w) ?p"
    using assms(1) by (simp add: entry_ok_def lossy_wf_def lossy_channel_def listener_inv_def)
  from lossy_op_entry_ok(1) [OF this] assms(2) show ?thesis by simp
qed

lemma dispatch_new_inv:
  assumes laws: "sem_laws Sm avail" and inv: "listener_inv avail w live"
    and al: "alive w" and d: "dispatch_new T Sm bs addr at w = (r, w')"
  shows "listener_inv avail w' (case r of None \<Rightarrow> live | Some reg \<Rightarrow> reg # live)"
  using laws inv d
proof (cases rule: dispatch_new_cases)
  case (2 sm st ts q ns)
  have av: "Suc (avail sm) = avail (slots w)" using sem_acquire [OF laws 2(2)] by simp
  have "entries_ok w'"
    unfolding 2(5) entries_ok_slots
    by (rule drop_peer_at_ok)
      (use inv new_entry_ok [OF inv 2(4)] in \<open>simp add: entries_ok_def listener_inv_def\<close>)
  moreover have "length (entries w) \<notin> reg_state ` set live"
    using inv by (auto simp: listener_inv_def)
  ultimately show ?thesis
    using inv av al unfolding listener_inv_def
    by (auto simp: 2(1,5) less_Suc_eq AList.distinct_update dest!: set_update_cases)
qed simp

lemma dispatch_inv:
  assumes "sem_laws Sm avail" and "listener_inv avail w live" and "alive w"
    and "dispatch T Sm bs addr at w = (r, w')"
  shows "listener_inv avail w' (case r of None \<Rightarrow> live | Some reg \<Rightarrow> reg # live)"
proof -
  have push: "listener_inv avail (upd_entry i (\<lambda>p. peer_push c bs at (received_datagram n p)) w) live"
    for i c n
    using assms(2) upd_entry_ok [of w "\<lambda>p. peer_push c bs at (received_datagram n p)" i]
    by (simp add: listener_inv_def peer_push_entry_ok)
  show ?thesis
  proof (cases "MAX_DATAGRAM_SIZE < length bs")
    case True
    then show ?thesis using assms(2,4) by (auto simp: dispatch_def)
  next
    case False
    show ?thesis
    proof (cases "\<exists>i. map_of (peers w) addr = Some i \<and> \<not> peer_is_closed T i w")
      case True
      then obtain i where "map_of (peers w) addr = Some i" "\<not> peer_is_closed T i w" by blast
      then show ?thesis
        using False assms(4) push [of i False "length bs"] by (auto simp: dispatch_def)
    next
      case other: False
      then have "dispatch_new T Sm bs addr at w = (r, w')"
        using False assms(4) by (simp add: dispatch_def split: option.splits if_splits)
      then show ?thesis by (rule dispatch_new_inv [OF assms(1-3)])
    qed
  qed
qed

lemma registration_drop_inv:
  assumes "sem_laws Sm avail" and inv: "listener_inv avail w live" and reg: "reg \<in> set live"
  shows "listener_inv avail (registration_drop T Sm reg w) (remove1 reg live)"
proof -
  obtain a i where r: "reg = PeerRegistration a i" by (cases reg)
  let ?c = "alive w \<and> map_of (peers w) a = Some i"
  let ?ps = "if ?c then AList.delete a (peers w) else peers w"
  have len: "Suc (length (remove1 reg live)) = length live"
    using reg by (simp add: length_remove1) (metis Suc_pred length_pos_if_in_set)
  have dist: "distinct (map reg_state live)" and dl: "distinct live"
    using inv by (auto simp: listener_inv_def distinct_map)
  have still: "PeerRegistration (fst x) (snd x) \<in> set (remove1 reg live)" if "x \<in> set ?ps" for x
  proof -
    have x: "x \<in> set (peers w)" using that by (auto simp: AList.delete_eq split: if_splits)
    then have l: "PeerRegistration (fst x) (snd x) \<in> set live" and al: "alive w"
      using inv by (auto simp: listener_inv_def)
    have "PeerRegistration (fst x) (snd x) \<noteq> reg"
    proof
      assume "PeerRegistration (fst x) (snd x) = reg"
      then have "map_of (peers w) a = Some i"
        using x r inv by (auto simp: listener_inv_def intro: map_of_is_SomeI)
      then show False using that al \<open>PeerRegistration (fst x) (snd x) = reg\<close> r
        by (auto simp: AList.delete_eq)
    qed
    then show ?thesis using l dl by simp
  qed
  have w': "registration_drop T Sm reg w = (peer_close T i
      (if ?c then upd_entry i drop_peer (w\<lparr>peers := ?ps\<rparr>) else w\<lparr>peers := ?ps\<rparr>))
      \<lparr>slots := sem_release Sm (slots w)\<rparr>"
    by (auto simp: registration_drop_def r Let_def)
  have ok: "entries_ok (registration_drop T Sm reg w)"
    using inv unfolding w' by (auto simp: listener_inv_def intro!: upd_entry_ok drop_peer_entry_ok)
  have dp: "distinct (map fst ?ps)"
    using inv by (simp add: listener_inv_def AList.distinct_delete)
  have empty: "\<not> alive w \<Longrightarrow> ?ps = []" using inv by (simp add: listener_inv_def)
  have dr: "distinct (map reg_state (remove1 reg live))"
    using dist dl by (simp add: distinct_map set_remove1_eq inj_on_diff)
  have "set (remove1 reg live) \<subseteq> set live" by (rule set_remove1_subset)
  then show ?thesis
    using inv ok dp empty still len sem_release_avail [OF assms(1), of "slots w"] dr
    unfolding listener_inv_def w' by auto
qed

lemma fold_close_frame:
  "peers (fold (\<lambda>(a, i). peer_close T i) ps w) = peers w \<and> slots (fold (\<lambda>(a, i). peer_close T i) ps w) = slots w
   \<and> listener_options (fold (\<lambda>(a, i). peer_close T i) ps w) = listener_options w
   \<and> entries (fold (\<lambda>(a, i). peer_close T i) ps w) = entries w"
  by (induction ps arbitrary: w) auto

lemma fold_drop_frame:
  "slots (fold (\<lambda>(a, i). upd_entry i drop_peer) ps w) = slots w
   \<and> listener_options (fold (\<lambda>(a, i). upd_entry i drop_peer) ps w) = listener_options w
   \<and> length (entries (fold (\<lambda>(a, i). upd_entry i drop_peer) ps w)) = length (entries w)
   \<and> tokens_state (fold (\<lambda>(a, i). upd_entry i drop_peer) ps w) = tokens_state w
   \<and> (entries_ok w \<longrightarrow> entries_ok (fold (\<lambda>(a, i). upd_entry i drop_peer) ps w))"
  by (induction ps arbitrary: w) (auto intro!: upd_entry_ok drop_peer_entry_ok)

lemma listener_drop_inv: "listener_inv avail w live \<Longrightarrow> listener_inv avail (listener_drop T w) live"
  using fold_close_frame [of T "peers w" w]
    fold_drop_frame [of "peers w" "fold (\<lambda>(a, i). peer_close T i) (peers w) w"]
  by (auto simp: listener_inv_def listener_drop_def Let_def entries_ok_def)

lemma udp_step_inv:
  assumes "udp_step T Sm w live w' live'" and "sem_laws Sm avail" and "listener_inv avail w live"
  shows "listener_inv avail w' live'"
  using assms
proof (induction rule: udp_step.induct)
  case (dispatched w bs addr at r w' live)
  then show ?case by (intro dispatch_inv)
next
  case (stream_received reg live w)
  then have "entries_ok (upd_entry (reg_state reg) (\<lambda>p. snd (tracked_recv p)) w)"
    by (intro upd_entry_ok tracked_recv_entry_ok) (auto simp: listener_inv_def)
  with stream_received show ?case by (auto simp: listener_inv_def)
next
  case (stream_closed reg live w)
  then have "entries_ok (upd_entry (reg_state reg) tracked_drop w)"
    by (intro upd_entry_ok tracked_drop_entry_ok) (auto simp: listener_inv_def)
  with stream_closed show ?case by (auto simp: listener_inv_def)
next
  case (peer_closed w live i)
  then show ?case by (auto simp: listener_inv_def)
qed (auto intro: registration_drop_inv listener_drop_inv)

lemma registration_drop_options [simp]:
  "listener_options (registration_drop T Sm reg w) = listener_options w"
  by (simp add: registration_drop_def Let_def)

lemma dispatch_new_options: "listener_options (snd (dispatch_new T Sm bs addr at w)) = listener_options w"
  by (simp add: dispatch_new_def Let_def split: prod.split sum.split bool.split)

lemma dispatch_options: "listener_options (snd (dispatch T Sm bs addr at w)) = listener_options w"
  by (simp add: dispatch_def dispatch_new_options split: option.split)

lemma udp_step_options: "udp_step T Sm w live w' live' \<Longrightarrow> listener_options w' = listener_options w"
proof (induction rule: udp_step.induct)
  case (dispatched w bs addr at r w' live)
  then show ?case using dispatch_options [of T Sm bs addr at w] by simp
next
  case (listener_dropped w live)
  then show ?case
    using fold_close_frame [of T "peers w" w]
      fold_drop_frame [of "peers w" "fold (\<lambda>(a, i). peer_close T i) (peers w) w"]
    by (simp add: listener_drop_def Let_def)
qed simp_all

lemma udp_reach_inv:
  assumes "udp_reach T Sm max_permits o' w live" and "sem_laws Sm avail"
    and "receive_queue_capacity o' \<le> usize_max" "receive_queue_bytes o' \<le> usize_max"
  shows "listener_inv avail w live \<and> options (listener_options w) = o'"
  using assms
proof (induction rule: udp_reach.induct)
  case (opened ts peer local w)
  then show ?case
    by (auto simp: listener_from_socket_def validated_new_def listener_inv_def entries_ok_def
        sem_laws_def split: if_splits sum.splits)
next
  case (stepped w live w' live')
  then show ?case using udp_step_inv [OF stepped.hyps(2)] udp_step_options [OF stepped.hyps(2)] by simp
qed

section \<open>Properties\<close>

text \<open>
  (C6) Resource bounds of the listener, in every state reachable by any interleaving of incoming
  datagrams, stream reads, stream and listener drops and closings: free slots and live registrations
  add up to the configured maximum, so at most that many peers exist; every routed peer belongs to
  a live registration of the same address; and each raw queue respects its item and byte limits with
  an exact byte count.
\<close>

theorem udp_listener_invariant:
  assumes "udp_reach T Sm max_permits o' w live" and "sem_laws Sm avail"
    and "receive_queue_capacity o' \<le> usize_max" "receive_queue_bytes o' \<le> usize_max"
  shows "avail (slots w) + length live = max_peers o' \<and> length (peers w) \<le> max_peers o'
     \<and> (\<forall>a i. map_of (peers w) a = Some i \<longrightarrow> PeerRegistration a i \<in> set live \<and> i < length (entries w))
     \<and> (\<forall>p \<in> set (entries w).
          length (items (state (peer_queue p))) \<le> receive_queue_capacity o'
          \<and> bytes (state (peer_queue p)) \<le> receive_queue_bytes o'
          \<and> bytes (state (peer_queue p)) = sum_list (map snd (items (state (peer_queue p)))))"
proof -
  have inv: "listener_inv avail w live" and o: "options (listener_options w) = o'"
    using udp_reach_inv [OF assms] by simp_all
  have "distinct (peers w)" using inv by (simp add: listener_inv_def distinct_map)
  then have "length (peers w) = card (set (peers w))" by (simp add: distinct_card)
  also have "\<dots> = card ((\<lambda>x. PeerRegistration (fst x) (snd x)) ` set (peers w))"
    by (rule card_image [symmetric]) (auto simp: inj_on_def)
  also have "\<dots> \<le> card (set live)"
    using inv by (intro card_mono) (auto simp: listener_inv_def)
  also have "\<dots> \<le> length live" by (rule card_length)
  finally have le: "length (peers w) \<le> length live" .
  have sl: "avail (slots w) + length live = max_peers o'"
    using inv o by (simp add: listener_inv_def)
  have routed: "\<forall>a i. map_of (peers w) a = Some i \<longrightarrow> PeerRegistration a i \<in> set live \<and> i < length (entries w)"
    using inv by (fastforce simp: listener_inv_def dest: map_of_SomeD)
  have queues: "\<forall>p \<in> set (entries w). length (items (state (peer_queue p))) \<le> receive_queue_capacity o'
      \<and> bytes (state (peer_queue p)) \<le> receive_queue_bytes o'
      \<and> bytes (state (peer_queue p)) = sum_list (map snd (items (state (peer_queue p))))"
    using inv o by (auto simp: listener_inv_def entries_ok_def entry_ok_def lossy_wf_def weight_def)
  from sl le have "length (peers w) \<le> max_peers o'" by linarith
  from sl this routed queues show ?thesis by (intro conjI)
qed

definition demo_udp_options :: UdpOptions where
  "demo_udp_options = default_udp_options\<lparr>max_peers := 1, receive_queue_capacity := 2\<rparr>"

definition demo_listener :: "(demo_token, nat \<times> demo_token list, nat) UdpNetworkListener" where
  "demo_listener =
     \<lparr>listener_addr = V4 0 9, peers = [], entries = [], slots = 1,
      listener_options = ValidatedOptions demo_udp_options, tokens_state = (0, []), alive = True\<rparr>"

lemma demo_listener_opened:
  "listener_from_socket 1024 nat_semaphore (0, []) (Inl (IoError Other '''')) (Inr (V4 0 9)) demo_udp_options
     = Inr demo_listener"
  by (simp add: listener_from_socket_def validated_new_def max_payload_size_def demo_udp_options_def
      default_udp_options_def MAX_DATAGRAM_SIZE_def nat_semaphore_def demo_listener_def)

lemma demo_dispatch:
  "\<exists>w. dispatch demo_tokens nat_semaphore [1, 2] (V4 1 1) 5 demo_listener
        = (Some (PeerRegistration (V4 1 1) 0), w) \<and> slots w = 0 \<and> map_of (peers w) = [V4 1 1 \<mapsto> 0]"
  by (simp add: dispatch_def dispatch_new_def demo_listener_def demo_udp_options_def
      default_udp_options_def MAX_DATAGRAM_SIZE_def nat_semaphore_def demo_tokens_def
      peer_state_new_def drop_peer_at_def lossy_eval Let_def fun_eq_iff)

theorem udp_listener_invariant_witness:
  "\<exists>w. udp_reach demo_tokens nat_semaphore 1024 demo_udp_options w [PeerRegistration (V4 1 1) 0]
       \<and> id (slots w) + 1 = 1 \<and> map_of (peers w) (V4 1 1) = Some 0"
proof -
  obtain w where d: "dispatch demo_tokens nat_semaphore [1, 2] (V4 1 1) 5 demo_listener
        = (Some (PeerRegistration (V4 1 1) 0), w)" and w: "map_of (peers w) = [V4 1 1 \<mapsto> 0]"
    using demo_dispatch by blast
  have al: "alive demo_listener" by (simp add: demo_listener_def)
  have r: "udp_reach demo_tokens nat_semaphore 1024 demo_udp_options w [PeerRegistration (V4 1 1) 0]"
    using udp_reach.stepped [OF udp_reach.opened [OF demo_listener_opened] udp_step.dispatched [OF al d]]
    by simp
  have l: "receive_queue_capacity demo_udp_options \<le> usize_max"
    "receive_queue_bytes demo_udp_options \<le> usize_max" "max_peers demo_udp_options = 1"
    by (simp_all add: demo_udp_options_def default_udp_options_def usize_max_def)
  show ?thesis
    using conjunct1 [OF udp_listener_invariant [OF r nat_semaphore_laws l(1,2)]] r w
    by (intro exI [of _ w]) (simp add: l(3))
qed

text \<open>
  A stale registration cannot remove a newer peer: dropping a registration removes the map entry
  of its address exactly if that entry still belongs to the same peer state, never touches another
  address, always closes its own peer and returns exactly one slot.
\<close>

theorem registration_drop_exact:
  assumes "token_laws T" and "sem_laws Sm avail"
  shows "map_of (peers (registration_drop T Sm (PeerRegistration a i) w)) =
           (if alive w \<and> map_of (peers w) a = Some i then (map_of (peers w))(a := None) else map_of (peers w))
         \<and> (i < length (entries w) \<longrightarrow> peer_is_closed T i (registration_drop T Sm (PeerRegistration a i) w))
         \<and> avail (slots (registration_drop T Sm (PeerRegistration a i) w)) = Suc (avail (slots w))
         \<and> (\<forall>j. j \<noteq> i \<longrightarrow> entries (registration_drop T Sm (PeerRegistration a i) w) ! j = entries w ! j)"
proof -
  have c: "ps_closed (peer_state (drop_peer p)) = ps_closed (peer_state p)" for p :: "'a Peer"
    by (simp add: drop_peer_def)
  show ?thesis
    using assms(1) sem_release_avail [OF assms(2), of "slots w"]
    by (auto simp: registration_drop_def Let_def AList.delete_conv' peer_is_closed_def peer_close_def
        upd_entry_def token_laws_def c)
qed

theorem registration_drop_exact_witness:
  "map_of (peers (registration_drop demo_tokens nat_semaphore (PeerRegistration (V4 1 1) 0)
      (demo_listener\<lparr>peers := [(V4 1 1, 7)]\<rparr>))) = [V4 1 1 \<mapsto> 7]"
  using registration_drop_exact [OF demo_tokens_laws nat_semaphore_laws, of "V4 1 1" 0
      "demo_listener\<lparr>peers := [(V4 1 1, 7)]\<rparr>"]
  by (simp add: demo_listener_def)

text \<open>
  Routing and accounting of datagrams for a known open peer: no other peer, no map entry and no
  slot changes; the datagram is counted as received, and it is either appended to the peer's raw
  queue, with each evicted datagram counted, or dropped and counted once.
\<close>

theorem dispatch_known_peer:
  assumes "map_of (peers w) addr = Some i" and "\<not> peer_is_closed T i w" and "i < length (entries w)"
    and "length bs \<le> MAX_DATAGRAM_SIZE" and "lossy_wf (peer_queue (entries w ! i))"
    and "dispatch T Sm bs addr at w = (r, w')"
  shows "r = None \<and> peers w' = peers w \<and> slots w' = slots w \<and> (\<forall>j. j \<noteq> i \<longrightarrow> entries w' ! j = entries w ! j)
     \<and> (let h = ps_handle (peer_state (entries w ! i)); h' = ps_handle (peer_state (entries w' ! i));
            q = queue_contents (peer_queue (entries w ! i)); q' = queue_contents (peer_queue (entries w' ! i));
            d = \<lparr>qd_bytes = bs, qd_received_at = at\<rparr>
        in (\<exists>ev. ev @ q' = q @ [d] \<and> h' = (count_drop URawQueueEvicted ^^ length ev) (received (length bs) h))
           \<or> q' = q \<and> (h' = count_drop URawQueueFull (received (length bs) h)
                       \<or> h' = count_drop UClosedBeforeDelivery (received (length bs) h)))"
proof -
  let ?d = "\<lparr>qd_bytes = bs, qd_received_at = at\<rparr>" and ?sh = "peer_queue (entries w ! i)"
  obtain res q ns where t: "try_send_where ?d (length bs) (\<lambda>_. True) ?sh = (res, q, ns)"
    by (metis prod_cases3)
  have w': "w' = upd_entry i (\<lambda>p. peer_push False bs at (received_datagram (length bs) p)) w" and r: "r = None"
    using assms by (auto simp: dispatch_def)
  have e: "entries w' ! i = peer_push False bs at (received_datagram (length bs) (entries w ! i))"
    using assms(3) by (simp add: w' upd_entry_def)
  have "\<forall>j. j \<noteq> i \<longrightarrow> entries w' ! j = entries w ! j"
    by (simp add: w' upd_entry_def)
  then show ?thesis
  proof (cases res)
    case (Inr ev)
    have "ev @ queue_contents q = queue_contents ?sh @ [?d]"
      using try_send_where_log [OF assms(5) t [unfolded Inr]] by (simp add: queue_contents_def)
    then show ?thesis
      using t Inr r \<open>\<forall>j. _\<close> unfolding e
      by (auto simp: w' peer_push_def try_send_def fold_peer_count_drop received_datagram_def Let_def)
  next
    case (Inl err)
    have "q = ?sh" "err = (if receiver_open (state ?sh) then Full ?d else Closed ?d)"
      using try_send_where_err [OF assms(5) t [unfolded Inl]] by simp_all
    then show ?thesis
      using t Inl r \<open>\<forall>j. _\<close> unfolding e
      by (auto simp: w' peer_push_def try_send_def received_datagram_def peer_count_drop_def Let_def)
  qed
qed

definition demo_peer :: "demo_token Peer" where
  "demo_peer =
     \<lparr>peer_state = \<lparr>ps_options = ValidatedOptions demo_udp_options, ps_handle = handle_new 1200 None,
                    ps_closed = (1, [])\<rparr>,
      peer_queue = lossy_channel 2 100 DropNewest\<rparr>"

theorem dispatch_known_peer_witness:
  "\<exists>w'. dispatch demo_tokens nat_semaphore [1, 2] (V4 1 1) 5
          (demo_listener\<lparr>peers := [(V4 1 1, 0)], entries := [demo_peer]\<rparr>) = (None, w')
     \<and> peers w' = [(V4 1 1, 0)]"
proof -
  let ?w = "demo_listener\<lparr>peers := [(V4 1 1, 0)], entries := [demo_peer]\<rparr>"
  obtain r w' where d: "dispatch demo_tokens nat_semaphore [1, 2] (V4 1 1) 5 ?w = (r, w')" by fastforce
  have "map_of (peers ?w) (V4 1 1) = Some 0" "\<not> peer_is_closed demo_tokens 0 ?w" "0 < length (entries ?w)"
    "length [1, 2 :: byte] \<le> MAX_DATAGRAM_SIZE" "lossy_wf (peer_queue (entries ?w ! 0))"
    by (simp_all add: peer_is_closed_def demo_tokens_def demo_listener_def demo_peer_def
        MAX_DATAGRAM_SIZE_def lossy_channel_def lossy_wf_def usize_max_def)
  from dispatch_known_peer [OF this d] show ?thesis using d by simp
qed

text \<open>
  (C27) Admission of new peers: for an address without an open peer, a datagram creates a peer exactly
  if it fits the UDP maximum and the configured raw queue and a slot is free. The new registration is
  routed under its address, its queue holds exactly that first datagram, which is counted as received,
  and other addresses keep their peers.
\<close>

theorem dispatch_admission:
  assumes "sem_laws Sm avail" and "listener_inv avail w live"
    and "\<And>i. map_of (peers w) addr = Some i \<Longrightarrow> peer_is_closed T i w"
    and "dispatch T Sm bs addr at w = (r, w')"
  shows "(r \<noteq> None \<longleftrightarrow> length bs \<le> MAX_DATAGRAM_SIZE
            \<and> 0 < receive_queue_capacity (options (listener_options w))
            \<and> length bs \<le> receive_queue_bytes (options (listener_options w)) \<and> 0 < avail (slots w))
     \<and> (\<forall>reg. r = Some reg \<longrightarrow> reg = PeerRegistration addr (length (entries w))
          \<and> map_of (peers w') = (map_of (peers w))(addr \<mapsto> length (entries w))
          \<and> queue_contents (peer_queue (entries w' ! length (entries w))) = [\<lparr>qd_bytes = bs, qd_received_at = at\<rparr>]
          \<and> received_data_packets (counters (ps_handle (peer_state (entries w' ! length (entries w))))) = 1)"
proof -
  let ?o = "options (listener_options w)"
  let ?lim = "0 < receive_queue_capacity ?o \<and> length bs \<le> receive_queue_bytes ?o"
  have cap: "receive_queue_bytes ?o \<le> usize_max" using assms(2) by (simp add: listener_inv_def)
  have idx: "i < length (entries w)" if "map_of (peers w) addr = Some i" for i
    using map_of_SomeD [OF that] assms(2) by (fastforce simp: listener_inv_def)
  obtain b sm where sm: "sem_try_acquire Sm (slots w) = (b, sm)" by fastforce
  have b: "b \<longleftrightarrow> 0 < avail (slots w)" using sem_acquire [OF assms(1) sm] by (auto split: if_splits)
  obtain st ts where st: "peer_state_new T (listener_options w) (tokens_state w) = (st, ts)"
    by fastforce
  then have h: "ps_handle st = handle_new (validated_max_payload_size (listener_options w))
      (map_option of_nat (send_rate ?o))"
    by (auto simp: peer_state_new_def split: prod.splits)
  have new: "dispatch T Sm bs addr at w =
      (if MAX_DATAGRAM_SIZE < length bs then (None, w) else dispatch_new T Sm bs addr at w)"
    using assms(3) by (simp add: dispatch_def split: option.split)
  show ?thesis
  proof (cases "length bs \<le> MAX_DATAGRAM_SIZE \<and> ?lim \<and> b")
    case False
    then have "r = None"
      using assms(4) sm by (auto simp: new dispatch_new_def Let_def split: if_splits)
    then show ?thesis using False b by auto
  next
    case True
    then have "0 < receive_queue_capacity ?o" "length bs \<le> receive_queue_bytes ?o" by simp_all
    note fresh = try_send_fresh [OF this cap, of "\<lparr>qd_bytes = bs, qd_received_at = at\<rparr>" "receive_queue_overflow ?o"]
    have last: "entries (drop_peer_at (map_of (peers w) addr) (w\<lparr>slots := sm, tokens_state := ts, entries := entries w @ [p]\<rparr>))
        ! length (entries w) = p" for p
      using idx by (auto simp: drop_peer_at_def upd_entry_def nth_append split: option.split)
    show ?thesis
      using True assms(4) sm st fresh last b h
      by (auto simp: new dispatch_new_def Let_def AList.update_conv' queue_contents_def received_datagram_def
          received_def handle_new_def zero_counters_def)
  qed
qed

theorem dispatch_admission_witness:
  "\<exists>w'. dispatch demo_tokens nat_semaphore [1, 2] (V4 1 1) 5 demo_listener
          = (Some (PeerRegistration (V4 1 1) 0), w')
     \<and> queue_contents (peer_queue (entries w' ! 0)) = [\<lparr>qd_bytes = [1, 2], qd_received_at = 5\<rparr>]"
proof -
  obtain w' where d: "dispatch demo_tokens nat_semaphore [1, 2] (V4 1 1) 5 demo_listener
        = (Some (PeerRegistration (V4 1 1) 0), w')" using demo_dispatch by blast
  have inv: "listener_inv id demo_listener []"
    by (simp add: listener_inv_def demo_listener_def entries_ok_def demo_udp_options_def
        default_udp_options_def usize_max_def)
  have none: "peer_is_closed demo_tokens i demo_listener" if "map_of (peers demo_listener) (V4 1 1) = Some i" for i
    using that by (simp add: demo_listener_def)
  show ?thesis
    using dispatch_admission [OF nat_semaphore_laws inv none d] d by (simp add: demo_listener_def)
qed

end
