(* ===== verification/Udp_Stream.thy ===== *)
theory Udp_Stream
  imports Udp_Peer Framing
begin

text \<open>
  UDP streams: \<^verbatim>\<open>src/src/protocols/udp/stream.rs\<close>. A server stream reads the raw queue that the listener
  fills, a client stream its own connected socket; both share one receive loop over a source of
  datagrams. One poll of the loop runs until it returns or its source has nothing ready. The
  sockets are tokio's: a socket is the sequence of results its receive calls give, and a send call is
  a function of the destination and the bytes.
\<close>

section \<open>Streams\<close>

record UdpServerStream =
  registration :: PeerRegistration
  srv_peer_addr :: SocketAddr
  srv_local_addr :: SocketAddr

definition server_stream_accepted :: "PeerRegistration \<Rightarrow> SocketAddr \<Rightarrow> SocketAddr \<Rightarrow> UdpServerStream" where
  "server_stream_accepted reg peer local =
     \<lparr>registration = reg, srv_peer_addr = peer, srv_local_addr = local\<rparr>"

record 'k UdpClientStream =
  cl_peer_addr :: SocketAddr
  cl_local_addr :: SocketAddr
  cl_state :: "'k PeerState"

text \<open>\<open>from_socket\<close>, with the answers of the socket's address queries.\<close>

definition client_from_socket ::
  "('k, 'ts) tokens \<Rightarrow> usize \<Rightarrow> io_error + SocketAddr \<Rightarrow> io_error + SocketAddr \<Rightarrow> UdpOptions \<Rightarrow> 'ts
     \<Rightarrow> (io_error + 'k UdpClientStream) \<times> 'ts"
where
  "client_from_socket T max_permits peer local o' ts =
     (case validated_new max_permits o' of
        Inl e \<Rightarrow> (Inl e, ts)
      | Inr v \<Rightarrow>
          (case peer_state_new T v ts of
             (st, ts') \<Rightarrow>
               (case peer of
                  Inl e \<Rightarrow> (Inl e, ts')
                | Inr p \<Rightarrow> (case local of
                             Inl e \<Rightarrow> (Inl e, ts')
                           | Inr l \<Rightarrow> (Inr \<lparr>cl_peer_addr = p, cl_local_addr = l, cl_state = st\<rparr>, ts')))))"

definition unspecified_for :: "SocketAddr \<Rightarrow> SocketAddr" where
  "unspecified_for addr = (case addr of V4 _ _ \<Rightarrow> V4 0 0 | V6 _ _ _ _ \<Rightarrow> V6 0 0 0 0)"

text \<open>\<open>bind'\<close> and \<open>connect'\<close> are the socket calls; a connected socket answers the address queries.\<close>

definition connect_with_options ::
  "('k, 'ts) tokens \<Rightarrow> usize \<Rightarrow> (SocketAddr \<Rightarrow> io_error + 's) \<Rightarrow> (SocketAddr \<Rightarrow> 's \<Rightarrow> io_error + 's)
     \<Rightarrow> ('s \<Rightarrow> io_error + SocketAddr) \<Rightarrow> ('s \<Rightarrow> io_error + SocketAddr) \<Rightarrow> SocketAddr \<Rightarrow> UdpOptions \<Rightarrow> 'ts
     \<Rightarrow> (io_error + 'k UdpClientStream) \<times> 'ts"
where
  "connect_with_options T max_permits bind' connect' peer local addr o' ts =
     (case validated_new max_permits o' of
        Inl e \<Rightarrow> (Inl e, ts)
      | Inr _ \<Rightarrow>
          (case bind' (unspecified_for addr) of
             Inl e \<Rightarrow> (Inl e, ts)
           | Inr s \<Rightarrow>
               (case connect' addr s of
                  Inl e \<Rightarrow> (Inl e, ts)
                | Inr s' \<Rightarrow> client_from_socket T max_permits (peer s') (local s') o' ts)))"

section \<open>Reading\<close>

type_synonym datagram = "byte list \<times> instant"

text \<open>\<open>Incoming::next\<close> for the two kinds of stream.\<close>

definition queue_next ::
  "QueuedDatagram Shared \<Rightarrow> (io_error + datagram) poll \<times> QueuedDatagram Shared"
where
  "queue_next sh =
     (case recv_poll sh of
        (Ready None, sh', _) \<Rightarrow> (Ready (Inl peer_closed_error), sh')
      | (Ready (Some d), sh', _) \<Rightarrow> (Ready (Inr (qd_bytes d, qd_received_at d)), sh')
      | (Pending, sh', _) \<Rightarrow> (Pending, sh'))"

type_synonym socket = "((io_error + byte list) \<times> instant) list"

fun socket_next :: "socket \<Rightarrow> (io_error + datagram) poll \<times> socket" where
  "socket_next [] = (Pending, [])"
| "socket_next ((Inl err, t) # rs) =
     (if kind err = ConnectionReset \<or> kind err = ConnectionRefused then socket_next rs
      else (Ready (Inl err), rs))"
| "socket_next ((Inr bs, t) # rs) =
     (if BUFFER_SIZE < length bs then (Ready (Inl (IoError InvalidData '''')), rs)
      else (Ready (Inr (bs, t)), rs))"

text \<open>
  One poll of \<open>receive_with_timestamp\<close>. The second component of the result says whether the peer was
  closed because its source failed.
\<close>

partial_function (option) udp_receive ::
  "('src \<Rightarrow> (io_error + datagram) poll \<times> 'src) \<Rightarrow> bool \<Rightarrow> bool \<Rightarrow> ('p, 'q, 'ee, 'd, 'z) Serializer
     \<Rightarrow> ReceiveLimits \<Rightarrow> 'src \<Rightarrow> UdpConnectionHandle \<Rightarrow> 'z
     \<Rightarrow> ((('d, 'l) ReceiveError + 'p \<times> instant) poll \<times> bool \<times> 'src \<times> UdpConnectionHandle \<times> 'z) option"
where
  "udp_receive nxt cancelled from_socket S limits src h z =
     (if cancelled then Some (Ready (Inl (Io peer_closed_error)), False, src, h, z)
      else case nxt src of
        (Pending, src') \<Rightarrow> Some (Pending, False, src', h, z)
      | (Ready (Inl err), src') \<Rightarrow> Some (Ready (Inl (Io err)), True, src', h, z)
      | (Ready (Inr (payload, at)), src') \<Rightarrow>
          (let h1 = (if from_socket then received (length payload) h else h) in
           if MAX_DATAGRAM_SIZE < length payload
           then udp_receive nxt cancelled from_socket S limits src' (count_drop UReceiveLimit h1) z
           else if max_packet_size limits < length payload
           then udp_receive nxt cancelled from_socket S limits src' (count_drop UReceiveLimit h1) z
           else case ser_deserialize S payload z of
                  (Inr packet, z') \<Rightarrow> Some (Ready (Inr (packet, at)), False, src', h1, z')
                | (Inl err, z') \<Rightarrow>
                    udp_receive nxt cancelled from_socket S limits src' (count_drop UMalformedPayload h1) z'))"

section \<open>Writing\<close>

record UdpWriteHalf =
  wh_address :: "SocketAddr option"
  wh_max_payload :: usize
  wh_pacer :: DataPacer

datatype Incoming = IncomingQueue PeerRegistration | IncomingSocket

text \<open>\<open>into_split\<close> of the two streams (\<open>ConnectedPeer::into_split\<close>), with the current rate.\<close>

definition server_into_split ::
  "nat option \<Rightarrow> ValidatedOptions \<Rightarrow> UdpServerStream \<Rightarrow> Incoming \<times> UdpWriteHalf"
where
  "server_into_split r v st =
     (IncomingQueue (registration st),
      \<lparr>wh_address = Some (srv_peer_addr st), wh_max_payload = validated_max_payload_size v,
       wh_pacer = pacer_new r\<rparr>)"

definition client_into_split :: "nat option \<Rightarrow> 'k UdpClientStream \<Rightarrow> Incoming \<times> UdpWriteHalf" where
  "client_into_split r st =
     (IncomingSocket,
      \<lparr>wh_address = None, wh_max_payload = validated_max_payload_size (ps_options (cl_state st)),
       wh_pacer = pacer_new r\<rparr>)"

text \<open>
  What a send meets: the wait's start and wake-ups, whether the peer is closed before, at and after
  the socket call, the socket call itself and the instant after it.
\<close>

record send_env =
  se_now :: instant
  se_wakes :: "wake list"
  se_closed_before :: bool
  se_cancelled :: bool
  se_closed_after :: bool
  se_socket :: "SocketAddr option \<Rightarrow> byte list \<Rightarrow> io_error + usize"
  se_sent_at :: instant

definition send_datagram ::
  "send_env \<Rightarrow> SocketAddr option \<Rightarrow> byte list \<Rightarrow> UdpConnectionHandle
     \<Rightarrow> (io_error + unit) \<times> UdpConnectionHandle"
where
  "send_datagram e addr bs h =
     (if se_closed_before e then (Inl peer_closed_error, h)
      else if se_cancelled e then (Inl peer_closed_error, h)
      else case se_socket e addr bs of
             Inl err \<Rightarrow> (Inl err, h)
           | Inr sent \<Rightarrow> (if sent \<noteq> length bs then (Inl (IoError WriteZero ''''), h)
                           else (Inr (), data_sent (length bs) h)))"

definition udp_send ::
  "('p, 'q, 'ee, 'd, 'z) Serializer \<Rightarrow> ('ee \<Rightarrow> string) \<Rightarrow> send_env \<Rightarrow> 'q \<Rightarrow> UdpWriteHalf
     \<Rightarrow> UdpConnectionHandle \<Rightarrow> 'z \<Rightarrow> (io_error + unit) poll \<times> UdpWriteHalf \<times> UdpConnectionHandle \<times> 'z"
where
  "udp_send S show_ee e packet wh h z =
     (case ser_serialize S packet z of
        (Inl err, z') \<Rightarrow> (Ready (Inl (IoError Other (show_ee err))), wh, h, z')
      | (Inr payload, z') \<Rightarrow>
          if wh_max_payload wh < length payload
          then (Ready (Inr ()), wh, count_drop UOversizedPayload h, z')
          else (case pacer_wait (se_now e) (se_wakes e) (wh_pacer wh) of
                  (Pending, p) \<Rightarrow> (Pending, wh\<lparr>wh_pacer := p\<rparr>, h, z')
                | (Ready (Inl err, t), p) \<Rightarrow> (Ready (Inl err), wh\<lparr>wh_pacer := p\<rparr>, h, z')
                | (Ready (Inr _, t), p) \<Rightarrow>
                    (case send_datagram e (wh_address wh) payload h of
                       (result, h') \<Rightarrow>
                         (let wh' = wh\<lparr>wh_pacer := pacer_sent (se_sent_at e) (length payload) p\<rparr> in
                          case result of
                            Inl err \<Rightarrow>
                              (if se_closed_after e then (Ready (Inl err), wh', h', z')
                               else (Ready (Inr ()), wh', count_drop USocketSendError h', z'))
                          | Inr _ \<Rightarrow> (Ready (Inr ()), wh', h', z')))))"

section \<open>Sources of datagrams\<close>

text \<open>The reference reading of a finite list of datagrams: skip and count what cannot be delivered.\<close>

fun scan ::
  "('p, 'q, 'ee, 'd, 'z) Serializer \<Rightarrow> ReceiveLimits \<Rightarrow> bool \<Rightarrow> datagram list \<Rightarrow> UdpConnectionHandle \<Rightarrow> 'z
     \<Rightarrow> ('p \<times> instant) option \<times> datagram list \<times> UdpConnectionHandle \<times> 'z"
where
  "scan S l fs [] h z = (None, [], h, z)"
| "scan S l fs ((bs, at) # ds) h z =
     (let h1 = (if fs then received (length bs) h else h) in
      if MAX_DATAGRAM_SIZE < length bs \<or> max_packet_size l < length bs
      then scan S l fs ds (count_drop UReceiveLimit h1) z
      else case ser_deserialize S bs z of
             (Inr p, z') \<Rightarrow> (Some (p, at), ds, h1, z')
           | (Inl _, z') \<Rightarrow> scan S l fs ds (count_drop UMalformedPayload h1) z')"

locale datagram_source =
  fixes nxt :: "'src \<Rightarrow> (io_error + datagram) poll \<times> 'src"
    and ready :: "'src \<Rightarrow> datagram list"
  assumes next_ready: "ready src = d # ds \<Longrightarrow> \<exists>src'. nxt src = (Ready (Inr d), src') \<and> ready src' = ds"
    and next_none: "ready src = [] \<Longrightarrow>
          \<exists>src'. nxt src = (Pending, src') \<or> (\<exists>e. nxt src = (Ready (Inl e), src'))"
begin

lemma receive_scan:
  fixes S :: "('p, 'q, 'ee, 'd, 'z) Serializer"
  assumes "scan S l fs (ready src) h z = (r, rest, h', z')"
  shows "\<exists>res c src'. (udp_receive nxt False fs S l src h z
       :: ((('d, 'l) ReceiveError + 'p \<times> instant) poll \<times> bool \<times> 'src \<times> UdpConnectionHandle \<times> 'z) option)
       = Some (res, c, src', h', z')
     \<and> (case r of Some x \<Rightarrow> res = Ready (Inr x) \<and> \<not> c \<and> ready src' = rest
        | None \<Rightarrow> rest = [] \<and> (res = Pending \<and> \<not> c \<or> (\<exists>e. res = Ready (Inl (Io e)) \<and> c)))"
  using assms
proof (induction "ready src" arbitrary: src h z)
  case Nil
  then show ?case
    using next_none [of src] by (subst udp_receive.simps) (auto split: option.split)
next
  case (Cons d ds)
  obtain bs at where d: "d = (bs, at)" by fastforce
  obtain src1 where n: "nxt src = (Ready (Inr (bs, at)), src1)" and v: "ready src1 = ds"
    using next_ready [of src d ds] Cons.hyps(2) d by metis
  let ?h1 = "if fs then received (length bs) h else h"
  have sc: "scan S l fs ((bs, at) # ds) h z = (r, rest, h', z')"
    using Cons.prems Cons.hyps(2) d by simp
  note ih = Cons.hyps(1) [of src1, unfolded v, OF refl]
  show ?case
  proof (cases "MAX_DATAGRAM_SIZE < length bs \<or> max_packet_size l < length bs")
    case True
    then have "scan S l fs ds (count_drop UReceiveLimit ?h1) z = (r, rest, h', z')"
      using sc by (simp add: Let_def)
    from ih [OF this] show ?thesis
      using True n by (subst udp_receive.simps) (auto simp: Let_def)
  next
    case False
    show ?thesis
    proof (cases "ser_deserialize S bs z")
      case (Pair res z1)
      show ?thesis
      proof (cases res)
        case (Inl e)
        then have "scan S l fs ds (count_drop UMalformedPayload ?h1) z1 = (r, rest, h', z')"
          using sc False Pair by (simp add: Let_def)
        from ih [OF this] show ?thesis
          using False n Pair Inl by (subst udp_receive.simps) (auto simp: Let_def)
      next
        case (Inr p)
        then have "r = Some (p, at)" "rest = ds" "h' = ?h1" "z' = z1"
          using sc False Pair by (simp_all add: Let_def)
        then show ?thesis
          using False n Pair Inr v by (subst udp_receive.simps) (auto simp: Let_def)
      qed
    qed
  qed
qed

end

definition queue_ready :: "QueuedDatagram Shared \<Rightarrow> datagram list" where
  "queue_ready sh = map (\<lambda>d. (qd_bytes d, qd_received_at d)) (queue_contents sh)"

interpretation raw_queue: datagram_source queue_next queue_ready
proof (unfold_locales, goal_cases)
  case (1 src d ds)
  then show ?case
    by (cases "items (state src)")
      (auto simp: queue_ready_def queue_contents_def queue_next_def recv_poll_def try_recv_def try_recv_if_form)
next
  case (2 src)
  then show ?case
    by (auto simp: queue_ready_def queue_contents_def queue_next_def recv_poll_def try_recv_def
        try_recv_if_form)
qed

fun socket_ready :: "socket \<Rightarrow> datagram list" where
  "socket_ready [] = []"
| "socket_ready ((Inl err, t) # rs) =
     (if kind err = ConnectionReset \<or> kind err = ConnectionRefused then socket_ready rs else [])"
| "socket_ready ((Inr bs, t) # rs) = (if BUFFER_SIZE < length bs then [] else (bs, t) # socket_ready rs)"

interpretation raw_socket: datagram_source socket_next socket_ready
proof (unfold_locales, goal_cases)
  case (1 src d ds)
  then show ?case by (induction src rule: socket_ready.induct) (auto split: if_splits)
next
  case (2 src)
  then show ?case by (induction src rule: socket_ready.induct) (auto split: if_splits)
qed

section \<open>Accounting\<close>

definition skips :: "UdpConnectionHandle \<Rightarrow> u64" where
  "skips h = drop_stat UReceiveLimit (counters h) + drop_stat UMalformedPayload (counters h)"

lemma skips_count [simp]:
  "skips (count_drop UReceiveLimit h) = skips h + 1" "skips (count_drop UMalformedPayload h) = skips h + 1"
  by (simp_all add: skips_def count_drop_def Let_def)

lemma skips_received [simp]: "skips (received n h) = skips h"
  by (simp add: skips_def received_def)

lemma received_packets [simp]:
  "received_data_packets (counters (received n h)) = received_data_packets (counters h) + 1"
  by (simp add: received_def)

definition deliverable ::
  "('p, 'q, 'ee, 'd, 'z) Serializer \<Rightarrow> ReceiveLimits \<Rightarrow> datagram \<Rightarrow> 'p \<Rightarrow> bool"
where
  "deliverable S l d p \<longleftrightarrow>
     length (fst d) \<le> MAX_DATAGRAM_SIZE \<and> length (fst d) \<le> max_packet_size l
     \<and> (\<exists>z. fst (ser_deserialize S (fst d) z) = Inr p)"

lemma scan_accounts:
  assumes "scan S l fs ds h z = (r, rest, h', z')"
  shows "\<exists>skipped. skips h' = skips h + of_nat (length skipped)
     \<and> received_data_packets (counters h') = received_data_packets (counters h)
         + (if fs then of_nat (length ds - length rest) else 0)
     \<and> length rest \<le> length ds
     \<and> (case r of None \<Rightarrow> ds = skipped \<and> rest = []
        | Some (p, at) \<Rightarrow> \<exists>bs. ds = skipped @ (bs, at) # rest \<and> deliverable S l (bs, at) p)"
  using assms
proof (induction ds arbitrary: h z)
  case Nil
  then show ?case by auto
next
  case (Cons d ds)
  obtain bs at where d: "d = (bs, at)" by fastforce
  let ?h1 = "if fs then received (length bs) h else h"
  have step: ?case if sc: "scan S l fs ds (count_drop c ?h1) z1 = (r, rest, h', z')"
    and c: "c = UReceiveLimit \<or> c = UMalformedPayload" for c z1
  proof -
    obtain sk where sk: "skips h' = skips h + 1 + of_nat (length sk)"
      "received_data_packets (counters h') = received_data_packets (counters ?h1)
         + (if fs then of_nat (length ds - length rest) else 0)" "length rest \<le> length ds"
      "case r of None \<Rightarrow> ds = sk \<and> rest = []
        | Some (p, at) \<Rightarrow> \<exists>bs. ds = sk @ (bs, at) # rest \<and> deliverable S l (bs, at) p"
      using Cons.IH [OF sc] c by (auto split: if_splits)
    have len: "(of_nat (length (d # ds) - length rest) :: u64) = 1 + of_nat (length ds - length rest)"
      using sk(3) by (simp add: Suc_diff_le)
    show ?thesis
      by (rule exI [of _ "d # sk"])
        (use sk len in \<open>auto simp: algebra_simps split: option.splits prod.splits\<close>)
  qed
  show ?case
  proof (cases "MAX_DATAGRAM_SIZE < length bs \<or> max_packet_size l < length bs")
    case True
    then show ?thesis using step [of UReceiveLimit z] Cons.prems by (simp add: d Let_def)
  next
    case False
    show ?thesis
    proof (cases "ser_deserialize S bs z")
      case (Pair res z1)
      show ?thesis
      proof (cases res)
        case (Inl e)
        then show ?thesis
          using False Pair step [of UMalformedPayload z1] Cons.prems by (simp add: d Let_def)
      next
        case (Inr p)
        have "deliverable S l (bs, at) p"
          using False Pair Inr unfolding deliverable_def by (auto intro!: exI [of _ z])
        moreover have "r = Some (p, at)" "rest = ds" "h' = ?h1"
          using False Pair Inr Cons.prems by (simp_all add: d Let_def)
        ultimately show ?thesis
          by (intro exI [of _ "[]"]) (simp add: d)
      qed
    qed
  qed
qed

context datagram_source
begin

lemma receive_accounts:
  fixes S :: "('p, 'q, 'ee, 'd, 'z) Serializer"
  shows "\<exists>res c src' h' z' skipped. (udp_receive nxt False fs S l src h z
       :: ((('d, 'l) ReceiveError + 'p \<times> instant) poll \<times> bool \<times> 'src \<times> UdpConnectionHandle \<times> 'z) option)
       = Some (res, c, src', h', z')
     \<and> skips h' = skips h + of_nat (length skipped)
     \<and> received_data_packets (counters h') = received_data_packets (counters h)
         + (if fs then of_nat (length skipped) + (if \<exists>x. res = Ready (Inr x) then 1 else 0) else 0)
     \<and> (case res of
          Ready (Inr (p, at)) \<Rightarrow> \<not> c \<and> (\<exists>bs. ready src = skipped @ (bs, at) # ready src' \<and> deliverable S l (bs, at) p)
        | Ready (Inl err) \<Rightarrow> c \<and> ready src = skipped \<and> (\<exists>e. err = Io e)
        | Pending \<Rightarrow> \<not> c \<and> ready src = skipped)"
proof -
  obtain r rest h' z' where sc: "scan S l fs (ready src) h z = (r, rest, h', z')"
    by (metis prod_cases4)
  obtain sk where sk: "skips h' = skips h + of_nat (length sk)"
    "received_data_packets (counters h') = received_data_packets (counters h)
       + (if fs then of_nat (length (ready src) - length rest) else 0)"
    "case r of None \<Rightarrow> ready src = sk \<and> rest = []
     | Some (p, at) \<Rightarrow> \<exists>bs. ready src = sk @ (bs, at) # rest \<and> deliverable S l (bs, at) p"
    using scan_accounts [OF sc] by auto
  obtain res c src' where u: "(udp_receive nxt False fs S l src h z
       :: ((('d, 'l) ReceiveError + 'p \<times> instant) poll \<times> bool \<times> 'src \<times> UdpConnectionHandle \<times> 'z) option)
       = Some (res, c, src', h', z')"
    and res: "case r of Some x \<Rightarrow> res = Ready (Inr x) \<and> \<not> c \<and> ready src' = rest
        | None \<Rightarrow> rest = [] \<and> (res = Pending \<and> \<not> c \<or> (\<exists>e. res = Ready (Inl (Io e)) \<and> c))"
    using receive_scan [OF sc] by blast
  show ?thesis
  proof (cases r)
    case None
    then have "ready src = sk" "rest = []" using sk(3) by simp_all
    then show ?thesis
      using u res sk(1,2) None
      by (intro exI [of _ res] exI [of _ c] exI [of _ src'] exI [of _ h'] exI [of _ z'] exI [of _ sk]) auto
  next
    case (Some x)
    obtain p at where x: "x = (p, at)" by fastforce
    obtain bs where bs: "ready src = sk @ (bs, at) # rest" "deliverable S l (bs, at) p"
      using sk(3) Some x by auto
    then show ?thesis
      using u res sk(1,2) Some x
      by (intro exI [of _ res] exI [of _ c] exI [of _ src'] exI [of _ h'] exI [of _ z'] exI [of _ sk]) auto
  qed
qed

end

section \<open>Properties\<close>


text \<open>
  A client-side UDP read does the same on its socket, where each datagram taken is also counted
  as received exactly once, and earlier transmissions answered by a reset or refused error do not
  disturb the reader.
\<close>

theorem udp_client_receive:
  "\<exists>res c sock' h' z' skipped. udp_receive socket_next False True S l sock h z = Some (res, c, sock', h', z')
     \<and> skips h' = skips h + of_nat (length skipped)
     \<and> received_data_packets (counters h') = received_data_packets (counters h)
         + of_nat (length skipped) + (if \<exists>x. res = Ready (Inr x) then 1 else 0)
     \<and> (case res of
          Ready (Inr (p, at)) \<Rightarrow> \<not> c \<and> (\<exists>bs. socket_ready sock = skipped @ (bs, at) # socket_ready sock'
                                        \<and> deliverable S l (bs, at) p)
        | Ready (Inl err) \<Rightarrow> c \<and> socket_ready sock = skipped \<and> (\<exists>e. err = Io e)
        | Pending \<Rightarrow> \<not> c \<and> socket_ready sock = skipped)"
  using raw_socket.receive_accounts [of True S l sock h z] by (simp add: add.assoc)

text \<open>
  (C33) Outcome of a UDP send, for a token that stays cancelled once it is: the send fails only with a
  serialization error or because the peer has been closed, and then no counter moves. Otherwise,
  when it completes, exactly one thing has happened to the packet and it is visible in exactly one
  counter: sent with its full length, dropped as oversized, or dropped on a socket error.
\<close>

theorem udp_send_outcome:
  assumes "se_closed_before e \<longrightarrow> se_cancelled e" and "se_cancelled e \<longrightarrow> se_closed_after e"
    and "udp_send S show_ee e packet wh h z = (res, wh', h', z')"
  shows "case res of
      Pending \<Rightarrow> h' = h
    | Ready (Inl err) \<Rightarrow> h' = h \<and> ((\<exists>ee. fst (ser_serialize S packet z) = Inl ee)
                          \<or> se_closed_after e \<or> WCancelled \<in> set (se_wakes e))
    | Ready (Inr _) \<Rightarrow>
        \<exists>payload. ser_serialize S packet z = (Inr payload, z')
          \<and> (if wh_max_payload wh < length payload then h' = count_drop UOversizedPayload h
             else h' = data_sent (length payload) h \<and> se_socket e (wh_address wh) payload = Inr (length payload)
                  \<or> h' = count_drop USocketSendError h
                     \<and> se_socket e (wh_address wh) payload \<noteq> Inr (length payload))"
proof (cases "ser_serialize S packet z")
  case (Pair enc z1)
  show ?thesis
  proof (cases enc)
    case (Inl ee)
    then show ?thesis using assms(3) Pair by (auto simp: udp_send_def)
  next
    case (Inr payload)
    obtain w p where w: "pacer_wait (se_now e) (se_wakes e) (wh_pacer wh) = (w, p)" by fastforce
    consider "wh_max_payload wh < length payload" | "\<not> wh_max_payload wh < length payload" "w = Pending"
      | err t where "\<not> wh_max_payload wh < length payload" "w = Ready (Inl err, t)"
      | t where "\<not> wh_max_payload wh < length payload" "w = Ready (Inr (), t)"
      by (cases w) (auto, metis old.unit.exhaust sum.exhaust)
    then show ?thesis
    proof cases
      case 1
      then show ?thesis using assms(3) Pair Inr by (auto simp: udp_send_def)
    next
      case 2
      then show ?thesis using assms(3) Pair Inr w by (auto simp: udp_send_def)
    next
      case (3 err t)
      then show ?thesis
        using assms(3) Pair Inr w pacer_wait_err [OF w [unfolded 3(2)]] by (auto simp: udp_send_def)
    next
      case (4 t)
      obtain r h1 where r: "send_datagram e (wh_address wh) payload h = (r, h1)" by fastforce
      have out: "(res, h', z') = (case r of Inl err \<Rightarrow>
          (if se_closed_after e then (Ready (Inl err), h1, z1)
           else (Ready (Inr ()), count_drop USocketSendError h1, z1)) | Inr _ \<Rightarrow> (Ready (Inr ()), h1, z1))"
        using assms(3) Pair Inr w 4 r by (auto simp: udp_send_def Let_def split: sum.splits if_splits)
      have sent: "r = Inr () \<and> h1 = data_sent (length payload) h
            \<and> se_socket e (wh_address wh) payload = Inr (length payload)
          \<or> (\<exists>err. r = Inl err) \<and> h1 = h \<and> (se_socket e (wh_address wh) payload \<noteq> Inr (length payload)
              \<or> se_closed_after e)"
        using r assms(1,2) by (auto simp: send_datagram_def split: if_splits sum.splits)
      show ?thesis
        using sent out Pair Inr 4(1) by (auto split: if_splits)
    qed
  qed
qed

definition demo_send_env :: send_env where
  "demo_send_env = \<lparr>se_now = 5, se_wakes = [], se_closed_before = False, se_cancelled = False,
     se_closed_after = False, se_socket = (\<lambda>_ bs. Inr (length bs)), se_sent_at = 6\<rparr>"

theorem udp_send_outcome_witness:
  "\<exists>wh'. udp_send demo_codec (\<lambda>_. []) demo_send_env [1, 2]
      \<lparr>wh_address = None, wh_max_payload = 1200, wh_pacer = pacer_new None\<rparr> (handle_new 1200 None) 0
     = (Ready (Inr ()), wh', data_sent 2 (handle_new 1200 None), 1)"
proof -
  let ?wh = "\<lparr>wh_address = None, wh_max_payload = 1200, wh_pacer = pacer_new None\<rparr>"
  obtain wh' h' where s: "udp_send demo_codec (\<lambda>_. []) demo_send_env [1, 2] ?wh (handle_new 1200 None) 0
      = (Ready (Inr ()), wh', h', 1)"
    by (simp add: udp_send_def demo_codec_def demo_send_env_def pacer_new_def send_datagram_def Let_def
        pacer_wait.simps)
  have "\<exists>payload. ser_serialize demo_codec [1, 2] 0 = (Inr payload, 1)
      \<and> (h' = data_sent (length payload) (handle_new 1200 None))"
    using udp_send_outcome [OF _ _ s] by (auto simp: demo_send_env_def demo_codec_def)
  then have "h' = data_sent 2 (handle_new 1200 None)" by (auto simp: demo_codec_def numeral_2_eq_2)
  then show ?thesis using s by blast
qed

end
