(* ===== verification/Conn_Tasks.thy ===== *)
theory Conn_Tasks
  imports Ecs_Connection Udp_Stream
begin

text \<open>
  The tasks that drive a connection: \<^verbatim>\<open>src/src/connection/tasks.rs\<close> and the receive tasks of
  \<^verbatim>\<open>src/src/client.rs\<close> and \<^verbatim>\<open>src/src/server.rs\<close>.

  The writer is a state machine whose steps are the points at which the executor may run it: a
  packet taken from the outgoing queue, a finished \<open>PacketWriter::send\<close>, and the cancellation that the
  biased \<open>select!\<close> looks at first. The packet writer is a parameter \<open>wr\<close>, for UDP \<open>udp_send\<close>; \<open>'w\<close> is
  its own state and \<open>'e\<close> what a call meets. The reader is the loop over what each of its iterations
  meets: the writer's error, cancellation, the received packet and the outcome of forwarding it.
\<close>

section \<open>The writer\<close>

datatype 'p send_pc = Receiving | Sending 'p | Finished

record ('p, 'c, 'h, 'w) send_task =
  pc :: "'p send_pc"
  task_queue :: "('p, 'c) OutgoingInner"
  task_handle :: 'h
  task_writer :: 'w
  task_cancelled :: bool
  send_error :: "io_error option"

text \<open>Leaving the task drops the guard, which cancels the token, and the queue's receiver.\<close>

definition send_finish ::
  "('p, 'c) mpsc \<Rightarrow> (QueueDropReason \<Rightarrow> 'h \<Rightarrow> 'h) \<Rightarrow> ('p, 'c, 'h, 'w) send_task
     \<Rightarrow> ('p, 'c, 'h, 'w) send_task option"
where
  "send_finish M rd s =
     (case outgoing_receiver_drop M rd \<lparr>transport = True\<rparr> (task_queue s) (task_handle s) of
        None \<Rightarrow> None
      | Some (q, h) \<Rightarrow>
          Some (s\<lparr>pc := Finished, task_queue := q, task_handle := h, task_cancelled := True\<rparr>))"

text \<open>\<open>packets_rx.recv()\<close> completes, or finds nothing.\<close>

definition send_task_recv ::
  "('p, 'c) mpsc \<Rightarrow> (QueueDropReason \<Rightarrow> 'h \<Rightarrow> 'h) \<Rightarrow> ('p, 'c, 'h, 'w) send_task
     \<Rightarrow> ('p, 'c, 'h, 'w) send_task option"
where
  "send_task_recv M rd s =
     (case outgoing_recv M (task_queue s) of
        (Pending, q) \<Rightarrow> Some (s\<lparr>task_queue := q\<rparr>)
      | (Ready None, q) \<Rightarrow> send_finish M rd (s\<lparr>task_queue := q\<rparr>)
      | (Ready (Some p), q) \<Rightarrow>
          if task_cancelled s
          then send_finish M rd (s\<lparr>task_queue := q, task_handle := pending_drop rd pending_new (task_handle s)\<rparr>)
          else Some (s\<lparr>task_queue := q, pc := Sending p\<rparr>))"

text \<open>\<open>write.send(..)\<close> completes with what the writer makes of \<open>e\<close>.\<close>

definition send_task_write ::
  "('p, 'c) mpsc \<Rightarrow> (QueueDropReason \<Rightarrow> 'h \<Rightarrow> 'h)
     \<Rightarrow> ('p \<Rightarrow> 'e \<Rightarrow> 'w \<Rightarrow> 'h \<Rightarrow> (io_error + unit) poll \<times> 'w \<times> 'h) \<Rightarrow> 'p \<Rightarrow> 'e
     \<Rightarrow> ('p, 'c, 'h, 'w) send_task \<Rightarrow> ('p, 'c, 'h, 'w) send_task option"
where
  "send_task_write M rd wr p e s =
     (case wr p e (task_writer s) (task_handle s) of
        (Pending, w, h) \<Rightarrow> Some s
      | (Ready result, w, h) \<Rightarrow>
          (let pp = pending_finish result pending_new;
               s' = s\<lparr>task_writer := w, task_handle := pending_drop rd pp h\<rparr>
           in case result of
                Inl err \<Rightarrow> send_finish M rd (s'\<lparr>send_error := Some err\<rparr>)
              | Inr _ \<Rightarrow> Some (s'\<lparr>pc := Receiving\<rparr>)))"

text \<open>The task is polled while its token is cancelled.\<close>

definition send_task_cancelled ::
  "('p, 'c) mpsc \<Rightarrow> (QueueDropReason \<Rightarrow> 'h \<Rightarrow> 'h) \<Rightarrow> ('p, 'c, 'h, 'w) send_task
     \<Rightarrow> ('p, 'c, 'h, 'w) send_task option"
where
  "send_task_cancelled M rd s =
     (case pc s of
        Sending p \<Rightarrow> send_finish M rd (s\<lparr>task_handle := pending_drop rd pending_new (task_handle s)\<rparr>)
      | _ \<Rightarrow> send_finish M rd s)"

text \<open>What the environment and the executor do to the task.\<close>

datatype ('p, 'e) send_event = EQueue 'p | ECancel | EPoll | EWrite 'e

definition send_packets_step ::
  "('p, 'c) mpsc \<Rightarrow> (QueueDropReason \<Rightarrow> 'h \<Rightarrow> 'h)
     \<Rightarrow> ('p \<Rightarrow> 'e \<Rightarrow> 'w \<Rightarrow> 'h \<Rightarrow> (io_error + unit) poll \<times> 'w \<times> 'h) \<Rightarrow> ('p, 'e) send_event
     \<Rightarrow> ('p, 'c, 'h, 'w) send_task \<Rightarrow> ('p out_event list \<times> ('p, 'c, 'h, 'w) send_task) option"
where
  "send_packets_step M rd wr ev s =
     (case ev of
        EQueue p \<Rightarrow>
          (case out_step M rd (OSend p) (task_queue s, task_handle s) of
             None \<Rightarrow> None
           | Some (log, q, h) \<Rightarrow> Some (log, s\<lparr>task_queue := q, task_handle := h\<rparr>))
      | ECancel \<Rightarrow> Some ([], s\<lparr>task_cancelled := True\<rparr>)
      | EPoll \<Rightarrow>
          (case pc s of
             Finished \<Rightarrow> Some ([], s)
           | Receiving \<Rightarrow> (if task_cancelled s then map_option (Pair []) (send_task_cancelled M rd s)
                           else map_option (Pair []) (send_task_recv M rd s))
           | Sending p \<Rightarrow> (if task_cancelled s then map_option (Pair []) (send_task_cancelled M rd s)
                           else Some ([], s)))
      | EWrite e \<Rightarrow>
          (case pc s of
             Sending p \<Rightarrow>
               (if task_cancelled s then map_option (Pair []) (send_task_cancelled M rd s)
                else map_option (Pair (case wr p e (task_writer s) (task_handle s) of
                                         (Ready (Inl err), _) \<Rightarrow> if kind err = ConnectionAborted then [] else [Received p]
                                       | (Ready (Inr _), _) \<Rightarrow> [Received p]
                                       | (Pending, _) \<Rightarrow> []))
                       (send_task_write M rd wr p e s))
           | _ \<Rightarrow> Some ([], s)))"

fun send_packets_run ::
  "('p, 'c) mpsc \<Rightarrow> (QueueDropReason \<Rightarrow> 'h \<Rightarrow> 'h)
     \<Rightarrow> ('p \<Rightarrow> 'e \<Rightarrow> 'w \<Rightarrow> 'h \<Rightarrow> (io_error + unit) poll \<times> 'w \<times> 'h) \<Rightarrow> ('p, 'e) send_event list
     \<Rightarrow> ('p, 'c, 'h, 'w) send_task \<Rightarrow> ('p out_event list \<times> ('p, 'c, 'h, 'w) send_task) option"
where
  "send_packets_run M rd wr [] s = Some ([], s)"
| "send_packets_run M rd wr (ev # evs) s =
     (case send_packets_step M rd wr ev s of
        None \<Rightarrow> None
      | Some (log, s') \<Rightarrow>
          map_option (\<lambda>(log', s''). (log @ log', s'')) (send_packets_run M rd wr evs s'))"

section \<open>The reader\<close>

text \<open>
  What one iteration of the receive loop meets: the oneshot of the writer, the token, the result of
  the packet reader, and for streams the token and the result of the bounded channel while the
  packet is handed to ECS.
\<close>

record ('p, 'd, 'l) recv_env =
  re_send_error :: "io_error option"
  re_cancelled :: bool
  re_read :: "('d, 'l) ReceiveError + 'p"
  re_fwd_cancelled :: bool
  re_incoming_ok :: bool

datatype ('p, 'd, 'l) task_message = TmPacket 'p | TmClosed "('d, 'l) ReceiveError"

text \<open>
  The loop of \<open>receive_packets\<close>, with the messages sent to ECS through the lifecycle channel; the
  result is the reason to stop, or \<open>None\<close> while the loop is still running.
\<close>

fun receive_loop ::
  "bool \<Rightarrow> (QueueDropReason \<Rightarrow> 'h \<Rightarrow> 'h) \<Rightarrow> ('p \<Rightarrow> 'h \<Rightarrow> 'h) \<Rightarrow> ('p, 'd, 'l) recv_env list
     \<Rightarrow> 'p PacketForwarder \<Rightarrow> 'h
     \<Rightarrow> ('d, 'l) ReceiveError option \<times> ('p, 'd, 'l) task_message list \<times> 'p PacketForwarder \<times> 'h"
where
  "receive_loop datagram rd on_evict [] fw h = (None, [], fw, h)"
| "receive_loop datagram rd on_evict (e # es) fw h =
     (case re_send_error e of
        Some err \<Rightarrow> (Some (Io err), [], fw, h)
      | None \<Rightarrow>
          if re_cancelled e then (Some IntentionalDisconnection, [], fw, h)
          else (case re_read e of
                  Inl err \<Rightarrow> (Some err, [], fw, h)
                | Inr p \<Rightarrow>
                    if datagram then
                      (case forward rd on_evict (re_fwd_cancelled e) p fw h of
                         (res, fw', h', _) \<Rightarrow>
                           if res = Ready True then receive_loop datagram rd on_evict es fw' h'
                           else (Some IntentionalDisconnection, [], fw', h'))
                    else if \<not> re_fwd_cancelled e \<and> re_incoming_ok e then
                      (case receive_loop datagram rd on_evict es fw h of
                         (r, msgs, s) \<Rightarrow> (r, TmPacket p # msgs, s))
                    else (Some IntentionalDisconnection, [], fw, h)))"

text \<open>
  The whole task: \<open>late\<close> is the writer's error found by the final \<open>try_recv\<close>. The task cancels the
  token, closes the reader and reports the closure.
\<close>

record ('p, 'd, 'l, 'h) recv_outcome =
  ro_messages :: "('p, 'd, 'l) task_message list"
  ro_cancelled :: bool
  ro_reader_closed :: bool
  ro_handle :: 'h

definition receive_packets ::
  "bool \<Rightarrow> (QueueDropReason \<Rightarrow> 'h \<Rightarrow> 'h) \<Rightarrow> ('p \<Rightarrow> 'h \<Rightarrow> 'h) \<Rightarrow> ('p, 'd, 'l) recv_env list
     \<Rightarrow> io_error option \<Rightarrow> 'p PacketForwarder \<Rightarrow> 'h \<Rightarrow> ('p, 'd, 'l, 'h) recv_outcome option"
where
  "receive_packets datagram rd on_evict es late fw h =
     (case receive_loop datagram rd on_evict es fw h of
        (None, _) \<Rightarrow> None
      | (Some err, msgs, _, h') \<Rightarrow>
          (let err' = (case late of Some e \<Rightarrow> Io e | None \<Rightarrow> err)
           in Some \<lparr>ro_messages = msgs @ [TmClosed err'], ro_cancelled = True,
                    ro_reader_closed = True, ro_handle = h'\<rparr>))"

section \<open>Accounting of the writer\<close>

definition in_flight :: "'p send_pc \<Rightarrow> nat" where
  "in_flight c = (case c of Sending _ \<Rightarrow> 1 | _ \<Rightarrow> 0)"

definition task_balance :: "('p, 'c, UdpConnectionHandle, 'w) send_task \<Rightarrow> u64" where
  "task_balance s =
     of_nat (in_flight (pc s)) + of_nat (lossy_queued (task_queue s)) + lost (task_handle s)"

definition task_wf :: "('p, 'c, 'h, 'w) send_task \<Rightarrow> bool" where
  "task_wf s \<longleftrightarrow>
     (\<exists>sh. task_queue s = Lossy sh \<and> lossy_wf sh
        \<and> (pc s = Finished \<longrightarrow> \<not> receiver_open (state sh) \<and> task_cancelled s))"

text \<open>What a packet writer must leave alone: the counters of the application queues.\<close>

definition writer_keeps_drops ::
  "('p \<Rightarrow> 'e \<Rightarrow> 'w \<Rightarrow> UdpConnectionHandle \<Rightarrow> (io_error + unit) poll \<times> 'w \<times> UdpConnectionHandle) \<Rightarrow> bool"
where
  "writer_keeps_drops wr \<longleftrightarrow>
     (\<forall>p e w h r w' h'. wr p e w h = (r, w', h') \<longrightarrow> (\<forall>x. udp_drops x h' = udp_drops x h))"

definition udp_writer ::
  "('x, 'q, 'ee, 'd, 'z) Serializer \<Rightarrow> ('ee \<Rightarrow> string) \<Rightarrow> 'q \<Rightarrow> send_env \<Rightarrow> UdpWriteHalf \<times> 'z
     \<Rightarrow> UdpConnectionHandle \<Rightarrow> (io_error + unit) poll \<times> (UdpWriteHalf \<times> 'z) \<times> UdpConnectionHandle"
where
  "udp_writer S show_ee p e w h =
     (case udp_send S show_ee e p (fst w) h (snd w) of (r, wh, h', z) \<Rightarrow> (r, (wh, z), h'))"

lemma udp_drops_transport [simp]:
  "udp_drops x (data_sent n h) = udp_drops x h" "udp_drops x (count_drop UOversizedPayload h) = udp_drops x h"
  "udp_drops x (count_drop USocketSendError h) = udp_drops x h"
  by (cases x; simp add: udp_drops_def data_sent_def count_drop_def Let_def)+

lemma send_datagram_drops: "send_datagram e a bs h = (r, h') \<Longrightarrow> udp_drops x h' = udp_drops x h"
  by (auto simp: send_datagram_def split: if_splits sum.splits)

lemma udp_writer_keeps_drops: "writer_keeps_drops (udp_writer S show_ee)"
proof -
  have "udp_drops x h' = udp_drops x h" if u: "udp_send S show_ee e p wh h z = (r, wh', h', z')"
    for e p wh h z r wh' h' z' x
  proof (cases "ser_serialize S p z")
    case (Pair enc z1)
    then show ?thesis
      using u
      by (auto simp: udp_send_def Let_def dest: send_datagram_drops
          split: sum.splits if_splits prod.splits poll.splits)
  qed
  then show ?thesis
    by (auto simp: writer_keeps_drops_def udp_writer_def split: prod.splits)
qed

definition step_balanced ::
  "'p out_event list \<Rightarrow> ('p, 'c, UdpConnectionHandle, 'w) send_task \<Rightarrow> ('p, 'c, UdpConnectionHandle, 'w) send_task \<Rightarrow> bool"
where
  "step_balanced log s s' \<longleftrightarrow>
     of_nat (count_ev is_ok log) + task_balance s = of_nat (count_ev is_received log) + task_balance s'"

lemma step_balanced_trans:
  "step_balanced a s s' \<Longrightarrow> step_balanced b s' s'' \<Longrightarrow> step_balanced (a @ b) s s''"
  using balance_add [of "of_nat (count_ev is_ok a)" "task_balance s" 0 "of_nat (count_ev is_received a)"
      "task_balance s'" 0 "of_nat (count_ev is_ok b)" "of_nat (count_ev is_received b)" "task_balance s''" 0]
  by (simp add: step_balanced_def)

lemma lost_record_drop:
  "lost (record_drop r h) = lost h + (if r = OutgoingQueueEvicted \<or> r = ClosedBeforeDelivery then 1 else 0)"
  by (cases r) (simp_all add: lost_def uh.record_drop_counts)

text \<open>Finishing closes the queue and counts everything still queued, whatever was in flight.\<close>

lemma send_finish_balance:
  assumes "task_queue s = Lossy sh" and "lossy_wf sh"
  shows "\<exists>s'. send_finish M record_drop s = Some s' \<and> task_wf s' \<and> pc s' = Finished
          \<and> send_error s' = send_error s
          \<and> task_balance s' = of_nat (lossy_queued (task_queue s)) + lost (task_handle s)"
  using assms
  by (auto simp: send_finish_def outgoing_receiver_drop_def close_and_drain_def receiver_drop_def Let_def
      task_wf_def lossy_wf_def task_balance_def in_flight_def lossy_queued_def lost_def
      fold_const_funpow uh.replicate_record_drop)

lemma task_recv_balance:
  assumes "task_wf s" "pc s = Receiving" and "send_task_recv M record_drop s = Some s'"
  shows "task_wf s' \<and> step_balanced [] s s'"
proof -
  obtain sh where sh: "task_queue s = Lossy sh" "lossy_wf sh" using assms(1) by (auto simp: task_wf_def)
  obtain r q ns where t: "try_recv_if (\<lambda>_. True) sh = (r, q, ns)" by (metis prod_cases3)
  have wf: "lossy_wf q" by (rule try_recv_if_wf [OF sh(2) t])
  show ?thesis
  proof (cases r)
    case (Inr p)
    have len: "length (items (state sh)) = Suc (length (items (state q)))"
      using try_recv_if_log(1) [OF t [unfolded Inr]] by (metis length_Cons length_map)
    show ?thesis
    proof (cases "task_cancelled s")
      case True
      let ?s = "s\<lparr>task_queue := Lossy q, task_handle := record_drop ClosedBeforeDelivery (task_handle s)\<rparr>"
      have "send_finish M record_drop ?s = Some s'"
        using assms(3) sh t Inr True
        by (simp add: send_task_recv_def outgoing_recv_def recv_poll_def try_recv_def pending_drop_def pending_new_def)
      with send_finish_balance [of ?s q M] wf show ?thesis
        using len assms(2) sh
        by (auto simp: step_balanced_def task_balance_def lost_record_drop in_flight_def lossy_queued_def)
    next
      case False
      then show ?thesis
        using assms sh t Inr wf len
        by (auto simp: send_task_recv_def outgoing_recv_def recv_poll_def try_recv_def task_wf_def
            step_balanced_def task_balance_def in_flight_def lossy_queued_def)
    qed
  next
    case (Inl f)
    have q: "q = sh" using try_recv_if_log(2) [OF t [unfolded Inl]] .
    have s0: "s\<lparr>task_queue := Lossy sh\<rparr> = s" using sh(1) by simp
    show ?thesis
    proof (cases f)
      case Empty
      then show ?thesis
        using assms sh t Inl q s0
        by (simp add: send_task_recv_def outgoing_recv_def recv_poll_def try_recv_def step_balanced_def)
    next
      case Disconnected
      then have "send_finish M record_drop s = Some s'"
        using assms(3) sh t Inl q s0
        by (simp add: send_task_recv_def outgoing_recv_def recv_poll_def try_recv_def)
      with send_finish_balance [OF sh, of M] show ?thesis
        using assms(2) by (auto simp: step_balanced_def task_balance_def in_flight_def)
    qed
  qed
qed

lemma task_cancelled_balance:
  assumes "task_wf s" "pc s \<noteq> Finished" and "send_task_cancelled M record_drop s = Some s'"
  shows "task_wf s' \<and> step_balanced [] s s'"
proof -
  obtain sh where sh: "task_queue s = Lossy sh" "lossy_wf sh" using assms(1) by (auto simp: task_wf_def)
  have "send_finish M record_drop (s\<lparr>task_handle := (if pc s = Receiving then task_handle s
      else record_drop ClosedBeforeDelivery (task_handle s))\<rparr>) = Some s'"
    using assms(2,3) by (cases "pc s") (simp_all add: send_task_cancelled_def pending_drop_def pending_new_def)
  with send_finish_balance [of "s\<lparr>task_handle := (if pc s = Receiving then task_handle s
      else record_drop ClosedBeforeDelivery (task_handle s))\<rparr>" sh M] sh show ?thesis
    using assms(2)
    by (cases "pc s") (auto simp: step_balanced_def task_balance_def in_flight_def lost_record_drop)
qed

lemma task_write_balance:
  assumes "task_wf s" "pc s = Sending p" and keeps: "writer_keeps_drops wr"
    and "send_task_write M record_drop wr p e s = Some s'"
  shows "task_wf s' \<and> step_balanced (case wr p e (task_writer s) (task_handle s) of
       (Ready (Inl err), _) \<Rightarrow> if kind err = ConnectionAborted then [] else [Received p]
     | (Ready (Inr _), _) \<Rightarrow> [Received p] | (Pending, _) \<Rightarrow> []) s s'"
proof -
  obtain sh where sh: "task_queue s = Lossy sh" "lossy_wf sh" using assms(1) by (auto simp: task_wf_def)
  obtain r w h where wr: "wr p e (task_writer s) (task_handle s) = (r, w, h)" by (metis prod_cases3)
  have l: "lost h = lost (task_handle s)"
    using keeps wr by (simp add: writer_keeps_drops_def lost_def)
  show ?thesis
  proof (cases r)
    case Pending
    then show ?thesis using assms wr by (simp add: send_task_write_def step_balanced_def)
  next
    case (Ready res)
    show ?thesis
    proof (cases res)
      case (Inr u)
      then show ?thesis
        using assms wr Ready sh l
        by (auto simp: send_task_write_def pending_finish_def pending_drop_def Let_def task_wf_def
            step_balanced_def task_balance_def in_flight_def)
    next
      case (Inl err)
      let ?h = "pending_drop record_drop (pending_finish (Inl err) pending_new) h"
      let ?s = "s\<lparr>task_writer := w, task_handle := ?h, send_error := Some err\<rparr>"
      have h: "lost ?h = lost (task_handle s) + (if kind err = ConnectionAborted then 1 else 0)"
        by (simp add: pending_drop_def pending_finish_def pending_new_def lost_record_drop l)
      have "send_finish M record_drop ?s = Some s'"
        using assms(4) wr Ready Inl by (simp add: send_task_write_def Let_def)
      with send_finish_balance [of ?s sh M] sh show ?thesis
        using assms(2) wr Ready Inl h
        by (auto simp: step_balanced_def task_balance_def in_flight_def)
    qed
  qed
qed

lemma send_packets_step_balance:
  assumes "task_wf s" "writer_keeps_drops wr"
    and "send_packets_step M record_drop wr ev s = Some (log, s')"
  shows "task_wf s' \<and> step_balanced log s s'"
proof (cases ev)
  case (EQueue p)
  obtain sh where sh: "task_queue s = Lossy sh" "lossy_wf sh"
    "pc s = Finished \<longrightarrow> \<not> receiver_open (state sh) \<and> task_cancelled s"
    using assms(1) by (auto simp: task_wf_def)
  obtain q h where o: "out_step M record_drop (OSend p) (Lossy sh, task_handle s) = Some (log, q, h)"
    and s': "s' = s\<lparr>task_queue := q, task_handle := h\<rparr>"
    using assms(3) EQueue sh(1) by (auto simp: send_packets_step_def split: option.splits)
  obtain r sh' ns where t: "try_send_where p 1 (\<lambda>_. True) sh = (r, sh', ns)" by (metis prod_cases3)
  have bal: "balanced_step log (Lossy sh, task_handle s) (q, h)"
    using outgoing_send_balanced [OF sh(2) o] by simp
  have "q = Lossy sh' \<and> lossy_wf sh' \<and> (\<not> receiver_open (state sh) \<longrightarrow> \<not> receiver_open (state sh'))"
    using o t try_send_where_wf [OF sh(2) t]
    by (cases r) (auto simp: outgoing_try_send_def try_send_def
        dest: try_send_where_open [OF sh(2)] try_send_where_err [OF sh(2)] split: TrySendError.splits)
  then show ?thesis
    using bal sh by (auto simp: s' task_wf_def step_balanced_def task_balance_def balanced_step_def add_ac)
next
  case ECancel
  then show ?thesis
    using assms by (auto simp: send_packets_step_def task_wf_def step_balanced_def task_balance_def)
next
  case EPoll
  then show ?thesis
    using assms task_recv_balance [OF assms(1)] task_cancelled_balance [OF assms(1)]
    by (cases "pc s") (auto simp: send_packets_step_def step_balanced_def split: if_splits)
next
  case (EWrite e)
  show ?thesis
  proof (cases "pc s")
    case (Sending p)
    then show ?thesis
      using assms(3) EWrite task_write_balance [OF assms(1) Sending assms(2), of M e]
        task_cancelled_balance [OF assms(1)]
      by (cases "task_cancelled s") (auto simp: send_packets_step_def)
  qed (use assms EWrite in \<open>auto simp: send_packets_step_def step_balanced_def\<close>)
qed

lemma send_packets_run_balance:
  assumes "task_wf s" "writer_keeps_drops wr"
    and "send_packets_run M record_drop wr evs s = Some (log, s')"
  shows "task_wf s' \<and> step_balanced log s s'"
  using assms(1,3)
proof (induction evs arbitrary: s log)
  case Nil
  then show ?case by (simp add: step_balanced_def)
next
  case (Cons ev evs)
  then obtain l1 s1 l2 where st: "send_packets_step M record_drop wr ev s = Some (l1, s1)"
    and run: "send_packets_run M record_drop wr evs s1 = Some (l2, s')" and l: "log = l1 @ l2"
    by (auto split: option.splits)
  show ?case
    using send_packets_step_balance [OF Cons.prems(1) assms(2) st] Cons.IH [OF _ run] step_balanced_trans
    unfolding l by blast
qed

lemma send_packets_step_total:
  assumes "task_wf s"
  shows "\<exists>log s'. send_packets_step M record_drop wr ev s = Some (log, s')"
proof -
  obtain sh where sh: "task_queue s = Lossy sh" "lossy_wf sh" using assms by (auto simp: task_wf_def)
  have fin: "\<exists>s'. send_finish M record_drop t = Some s'"
    if "task_queue t = Lossy q" for t :: "('a, 'b, UdpConnectionHandle, 'c) send_task" and q
    using that by (simp add: send_finish_def outgoing_receiver_drop_def Let_def split: prod.split)
  have can: "\<exists>s'. send_task_cancelled M record_drop s = Some s'"
    using sh fin by (cases "pc s") (simp_all add: send_task_cancelled_def)
  have rcv: "\<exists>s'. send_task_recv M record_drop s = Some s'"
    using sh fin
    by (auto simp: send_task_recv_def outgoing_recv_def split: prod.splits poll.splits option.splits)
  have wri: "\<exists>s'. send_task_write M record_drop wr p e s = Some s'" for p e
    using sh fin by (simp add: send_task_write_def Let_def split: prod.split poll.split sum.split)
  have out: "\<exists>l q h. out_step M record_drop (OSend p) (Lossy sh, task_handle s) = Some (l, q, h)" for p
    by (simp split: prod.split sum.split SendError.split)
  show ?thesis
  proof (cases ev)
    case (EQueue p)
    then show ?thesis using out [of p] sh by (auto simp: send_packets_step_def)
  next
    case EPoll
    then show ?thesis using can rcv by (cases "pc s") (auto simp: send_packets_step_def)
  next
    case (EWrite e)
    show ?thesis
    proof (cases "pc s")
      case (Sending p)
      then show ?thesis
        using EWrite can wri [of p e] by (cases "task_cancelled s") (auto simp: send_packets_step_def)
    qed (use EWrite in \<open>simp_all add: send_packets_step_def\<close>)
  qed (simp add: send_packets_step_def)
qed

lemma send_packets_run_total:
  assumes "task_wf s" "writer_keeps_drops wr"
  shows "\<exists>log s'. send_packets_run M record_drop wr evs s = Some (log, s')"
  using assms(1)
proof (induction evs arbitrary: s)
  case (Cons ev evs)
  obtain l1 s1 where st: "send_packets_step M record_drop wr ev s = Some (l1, s1)"
    using send_packets_step_total [OF Cons.prems] by blast
  show ?case
    using Cons.IH [of s1] send_packets_step_balance [OF Cons.prems assms(2) st] st by auto
qed simp

section \<open>The reader stops for one reason\<close>

definition stop_reason :: "('p, 'd, 'l) recv_env \<Rightarrow> ('d, 'l) ReceiveError" where
  "stop_reason e =
     (case re_send_error e of
        Some err \<Rightarrow> Io err
      | None \<Rightarrow> if re_cancelled e then IntentionalDisconnection
                else (case re_read e of Inl err \<Rightarrow> err | Inr _ \<Rightarrow> IntentionalDisconnection))"

definition reads :: "('p, 'd, 'l) recv_env list \<Rightarrow> 'p list" where
  "reads es = concat (map (\<lambda>e. case re_read e of Inr p \<Rightarrow> [p] | Inl _ \<Rightarrow> []) es)"

definition continues :: "('p, 'd, 'l) recv_env \<Rightarrow> bool" where
  "continues e \<longleftrightarrow> re_send_error e = None \<and> \<not> re_cancelled e \<and> result_ok (re_read e)"

lemma result_ok_iff: "result_ok r \<longleftrightarrow> (\<exists>x. r = Inr x)"
  by (cases r) simp_all

lemma reads_simps [simp]:
  "reads [] = []" "reads (e # es) = (case re_read e of Inr p \<Rightarrow> [p] | Inl _ \<Rightarrow> []) @ reads es"
  by (simp_all add: reads_def)

text \<open>One turn of the loop: it stops for the reason of this environment, or it has passed the packet on.\<close>

lemma receive_loop_turn:
  assumes "receive_loop datagram rd on_evict (e # es) fw h = (Some err, msgs, fw', h')"
  obtains (stop) "err = stop_reason e" "msgs = []"
    | (pass) p fw1 h1 m where "continues e" "re_read e = Inr p" "receive_loop datagram rd on_evict es fw1 h1 = (Some err, m, fw', h')"
        "msgs = (if datagram then m else TmPacket p # m)"
proof (cases "continues e")
  case False
  then show thesis
    using assms by (intro stop) (auto simp: continues_def stop_reason_def split: option.splits if_splits sum.splits)
next
  case True
  then obtain p where p: "re_send_error e = None" "\<not> re_cancelled e" "re_read e = Inr p"
    by (auto simp: continues_def result_ok_iff)
  show thesis
  proof (cases datagram)
    case False
    then show thesis
      using assms p stop pass [OF True p(3)]
      by (cases "\<not> re_fwd_cancelled e \<and> re_incoming_ok e") (auto simp: stop_reason_def split: prod.splits)
  next
    case datagram: True
    obtain res fw1 h1 ns where f: "forward rd on_evict (re_fwd_cancelled e) p fw h = (res, fw1, h1, ns)"
      by (metis prod_cases4)
    then show thesis
      using assms p datagram stop pass [OF True p(3), of fw1 h1 msgs]
      by (cases "res = Ready True") (auto simp: stop_reason_def)
  qed
qed

lemma receive_loop_stops:
  assumes "receive_loop datagram rd on_evict es fw h = (Some err, msgs, fw', h')"
  shows "\<exists>pre e post. es = pre @ e # post \<and> (\<forall>x \<in> set pre. continues x) \<and> err = stop_reason e
     \<and> msgs = (if datagram then [] else map TmPacket (reads pre))"
  using assms
proof (induction es arbitrary: fw h msgs)
  case (Cons e es)
  from Cons.prems show ?case
  proof (cases rule: receive_loop_turn)
    case stop
    then show ?thesis by (intro exI [of _ "[]"] exI [of _ e] exI [of _ es]) simp
  next
    case (pass p fw1 h1 m)
    obtain pre x post where "es = pre @ x # post" "\<forall>y \<in> set pre. continues y" "err = stop_reason x"
      "m = (if datagram then [] else map TmPacket (reads pre))"
      using Cons.IH [OF pass(3)] by blast
    then show ?thesis
      using pass by (intro exI [of _ "e # pre"] exI [of _ x] exI [of _ post]) auto
  qed
qed simp

lemma receive_loop_ends:
  assumes "e \<in> set es" "\<not> continues e"
  shows "\<exists>err. fst (receive_loop datagram rd on_evict es fw h) = Some err"
  using assms(1)
proof (induction es arbitrary: fw h)
  case (Cons x es)
  show ?case
  proof (cases "continues x")
    case True
    then obtain p where p: "re_send_error x = None" "\<not> re_cancelled x" "re_read x = Inr p"
      by (auto simp: continues_def result_ok_iff)
    have IH: "\<exists>err. fst (receive_loop datagram rd on_evict es fw h) = Some err" for fw h
      using True Cons assms(2) by auto
    show ?thesis
    proof (cases datagram)
      case True
      then show ?thesis using p IH by (simp split: prod.split)
    next
      case False
      then show ?thesis using p IH [of fw h] by (simp add: split_beta)
    qed
  next
    case False
    then show ?thesis by (auto simp: continues_def result_ok_iff split: option.split sum.split)
  qed
qed simp

section \<open>Properties\<close>

text \<open>
  (C4) The writer accounts for every datagram through its whole life. Whatever the interleaving of
  ECS sends, polls, completed socket writes and cancellation, the task never gets stuck, and on a
  UDP handle the packets accepted from ECS equal the packets the writer completed, plus the one in
  flight, plus those queued, plus those counted as evicted or closed before delivery (an interrupted
  send is counted). Once finished nothing is queued or in flight, the queue is closed and the
  connection's token is cancelled.
\<close>

theorem send_task_accounting:
  assumes "writer_keeps_drops wr" and "send_capacity qs \<le> usize_max"
  shows "\<exists>log s'. send_packets_run M record_drop wr evs
       \<lparr>pc = Receiving, task_queue = fst (outgoing_channel M qs True), task_handle = handle_new mps r,
        task_writer = w, task_cancelled = False, send_error = None\<rparr> = Some (log, s')
     \<and> (of_nat (count_ev is_ok log) :: u64) =
          of_nat (count_ev is_received log) + of_nat (in_flight (pc s'))
          + of_nat (queued (outgoing_snapshot M (task_queue s')))
          + udp_drops OutgoingQueueEvicted (task_handle s') + udp_drops ClosedBeforeDelivery (task_handle s')
     \<and> (pc s' = Finished \<longrightarrow> queued (outgoing_snapshot M (task_queue s')) = 0
          \<and> outgoing_is_closed M (task_queue s') \<and> task_cancelled s')"
proof -
  let ?s = "\<lparr>pc = Receiving, task_queue = fst (outgoing_channel M qs True), task_handle = handle_new mps r,
        task_writer = w, task_cancelled = False, send_error = None\<rparr>"
  have wf: "task_wf ?s"
    using assms(2) by (simp add: task_wf_def outgoing_channel_def lossy_channel_wf)
  have z: "task_balance ?s = 0"
  proof -
    have "udp_drops x (handle_new mps r) = 0" for x
      by (cases x) (simp_all add: udp_drops_def handle_new_def zero_counters_def)
    then show ?thesis
      by (simp add: task_balance_def in_flight_def lossy_queued_def outgoing_channel_def lossy_channel_def lost_def)
  qed
  obtain log s' where run: "send_packets_run M record_drop wr evs ?s = Some (log, s')"
    using send_packets_run_total [OF wf assms(1)] by blast
  have b: "task_wf s'" "step_balanced log ?s s'"
    using send_packets_run_balance [OF wf assms(1) run] by simp_all
  then obtain sh where sh: "task_queue s' = Lossy sh" "lossy_wf sh"
    "pc s' = Finished \<longrightarrow> \<not> receiver_open (state sh) \<and> task_cancelled s'" by (auto simp: task_wf_def)
  have "items (state sh) = []" if "pc s' = Finished"
    using sh that by (simp add: lossy_wf_def)
  moreover have "of_nat (count_ev is_ok log) = of_nat (count_ev is_received log) + task_balance s'"
    using b(2) unfolding step_balanced_def z by simp
  ultimately show ?thesis
    using run sh
    by (auto simp: task_balance_def lost_def lossy_queued_def outgoing_snapshot_def
        snapshot_def outgoing_is_closed_def is_closed_def add_ac)
qed

definition demo_task ::
  "(byte list, byte list list_chan, UdpConnectionHandle, UdpWriteHalf \<times> nat) send_task"
where
  "demo_task =
     \<lparr>pc = Receiving, task_queue = fst (outgoing_channel list_mpsc default_queue_settings True),
      task_handle = handle_new 1200 None,
      task_writer = (\<lparr>wh_address = None, wh_max_payload = 1200, wh_pacer = pacer_new None\<rparr>, 0),
      task_cancelled = False, send_error = None\<rparr>"

theorem send_task_accounting_witness:
  "\<exists>s'. send_packets_run list_mpsc record_drop (udp_writer demo_codec (\<lambda>_. []))
       [EQueue [1], EQueue [2], EPoll, EWrite demo_send_env, EPoll, ECancel, EPoll] demo_task
       = Some ([SentOk [1], SentOk [2], Received [1]], s')
     \<and> (2 :: u64) = 1 + udp_drops OutgoingQueueEvicted (task_handle s') + udp_drops ClosedBeforeDelivery (task_handle s')"
proof -
  let ?evs = "[EQueue [1], EQueue [2], EPoll, EWrite demo_send_env, EPoll, ECancel, EPoll]"
  have c: "send_capacity default_queue_settings \<le> usize_max"
    by (simp add: default_queue_settings_def usize_max_def)
  obtain s' where s': "send_packets_run list_mpsc record_drop (udp_writer demo_codec (\<lambda>_. [])) ?evs demo_task
      = Some ([SentOk [1], SentOk [2], Received [1]], s')" "pc s' = Finished"
    by (simp add: demo_task_def send_packets_step_def send_task_recv_def send_task_write_def send_task_cancelled_def
        send_finish_def outgoing_eval default_queue_settings_def usize_max_def udp_writer_def udp_send_def
        demo_codec_def demo_send_env_def pacer_new_def pacer_wait.simps send_datagram_def data_sent_def
        pending_finish_def pending_drop_def pending_new_def in_flight_def Let_def)
  then show ?thesis
    using send_task_accounting [OF udp_writer_keeps_drops c, of list_mpsc demo_codec "\<lambda>_. []" ?evs 1200 None
        "(\<lparr>wh_address = None, wh_max_payload = 1200, wh_pacer = pacer_new None\<rparr>, 0)", folded demo_task_def]
    by (auto simp: in_flight_def)
qed

lemma receive_packets_form:
  assumes "receive_packets datagram rd on_evict es late fw h = Some out"
  shows "ro_cancelled out \<and> ro_reader_closed out
     \<and> (\<exists>pre e post. es = pre @ e # post \<and> (\<forall>x \<in> set pre. continues x)
          \<and> ro_messages out = (if datagram then [] else map TmPacket (reads pre))
                @ [TmClosed (case late of Some err \<Rightarrow> Io err | None \<Rightarrow> stop_reason e)])"
proof -
  obtain r msgs fw' h' where l: "receive_loop datagram rd on_evict es fw h = (r, msgs, fw', h')"
    by (metis prod_cases4)
  obtain err where r: "r = Some err" using assms l by (cases r) (simp_all add: receive_packets_def)
  have out: "out = \<lparr>ro_messages = msgs @ [TmClosed (case late of Some e \<Rightarrow> Io e | None \<Rightarrow> err)],
      ro_cancelled = True, ro_reader_closed = True, ro_handle = h'\<rparr>"
    using assms l r by (simp add: receive_packets_def Let_def)
  obtain pre e post where stop: "es = pre @ e # post" "\<forall>x \<in> set pre. continues x" "err = stop_reason e"
    "msgs = (if datagram then [] else map TmPacket (reads pre))"
    using receive_loop_stops [OF l [unfolded r]] by blast
  have "ro_messages out = (if datagram then [] else map TmPacket (reads pre))
      @ [TmClosed (case late of Some err \<Rightarrow> Io err | None \<Rightarrow> stop_reason e)]"
    unfolding out stop(3,4) by simp
  with stop(1,2) have "\<exists>pre e post. es = pre @ e # post \<and> (\<forall>x \<in> set pre. continues x)
      \<and> ro_messages out = (if datagram then [] else map TmPacket (reads pre))
          @ [TmClosed (case late of Some err \<Rightarrow> Io err | None \<Rightarrow> stop_reason e)]" by blast
  moreover have "ro_cancelled out" "ro_reader_closed out" by (simp_all add: out)
  ultimately show ?thesis by blast
qed


definition demo_env :: "(nat, unit, unit) recv_env" where
  "demo_env = \<lparr>re_send_error = None, re_cancelled = False, re_read = Inr 4, re_fwd_cancelled = False,
     re_incoming_ok = True\<rparr>"


end
