(* ===== verification/Endpoint_Frame.thy ===== *)
theory Endpoint_Frame
  imports Conn_Tasks
begin

text \<open>
  What the client and the server endpoint share in a frame: the state of the Bevy world that
  networking touches, draining of the lifecycle channel within the frame budget, and delivery of
  datagram packets. A connection handle is its identifier; the state its clones share is looked up in
  \<open>conns\<close>. The Bevy scheduler runs the commands that a system queued in order after the system, so
  a frame is the system followed by its commands; observers are user code and appear as the list of
  triggered events.
\<close>

section \<open>World\<close>

record ('q, 'c, 'h, 'k, 'ts, 'ev) endpoint_world =
  conns :: "ConnectionId \<Rightarrow> ('q, 'c, 'h, 'k) EcsConnection option"
  registry :: "ConnectionId list"
  current :: "ConnectionId option"
  world_tokens :: 'ts
  triggered :: "'ev list"

record 'p PacketReceiveEvent =
  pe_connection :: ConnectionId
  pe_packet :: 'p
  pe_received_at :: instant

definition upd_conn ::
  "ConnectionId \<Rightarrow> (('q, 'c, 'h, 'k) EcsConnection \<Rightarrow> ('q, 'c, 'h, 'k) EcsConnection)
     \<Rightarrow> ('q, 'c, 'h, 'k, 'ts, 'ev) endpoint_world \<Rightarrow> ('q, 'c, 'h, 'k, 'ts, 'ev) endpoint_world"
where
  "upd_conn i f w = w\<lparr>conns := (conns w)(i := map_option f (conns w i))\<rparr>"

definition trigger ::
  "'ev \<Rightarrow> ('q, 'c, 'h, 'k, 'ts, 'ev) endpoint_world \<Rightarrow> ('q, 'c, 'h, 'k, 'ts, 'ev) endpoint_world"
where
  "trigger ev w = w\<lparr>triggered := triggered w @ [ev]\<rparr>"

definition world_published :: "('q, 'c, 'h, 'k, 'ts, 'ev) endpoint_world \<Rightarrow> ConnectionId \<Rightarrow> bool" where
  "world_published w i = (case conns w i of Some c \<Rightarrow> is_published c | None \<Rightarrow> False)"

definition world_cancelled ::
  "('k, 'ts) tokens \<Rightarrow> ('q, 'c, 'h, 'k, 'ts, 'ev) endpoint_world \<Rightarrow> ConnectionId \<Rightarrow> bool"
where
  "world_cancelled T w i =
     (case conns w i of Some c \<Rightarrow> tok_is_cancelled T (world_tokens w) (disconnect_task c) | None \<Rightarrow> False)"

section \<open>Lifecycle messages\<close>

text \<open>Up to \<open>budget\<close> messages from the lifecycle channel; the loop breaks when there is none.\<close>

fun drain_messages :: "('m, 'c) mpsc \<Rightarrow> nat \<Rightarrow> 'c \<Rightarrow> 'm list \<times> 'c" where
  "drain_messages M 0 rx = ([], rx)"
| "drain_messages M (Suc n) rx =
     (case mpsc_try_recv M rx of
        (Inr m, rx') \<Rightarrow> (case drain_messages M n rx' of (ms, rx'') \<Rightarrow> (m # ms, rx''))
      | (Inl _, rx') \<Rightarrow> ([], rx'))"

lemma drain_messages_fifo:
  assumes "mpsc_laws M pend"
  shows "\<exists>rx'. drain_messages M n rx = (take n (pend rx), rx') \<and> pend rx' = drop n (pend rx)"
proof (induction n arbitrary: rx)
  case 0
  then show ?case by simp
next
  case (Suc n)
  show ?case
  proof (cases "pend rx")
    case Nil
    then obtain e rx' where "mpsc_try_recv M rx = (Inl e, rx')" "pend rx' = []"
      using assms unfolding mpsc_laws_def by metis
    then show ?thesis using Nil by simp
  next
    case (Cons m ms)
    then obtain rx' where r: "mpsc_try_recv M rx = (Inr m, rx')" "pend rx' = ms"
      using assms unfolding mpsc_laws_def by metis
    obtain rx'' where "drain_messages M n rx' = (take n ms, rx'')" "pend rx'' = drop n ms"
      using Suc.IH [of rx'] r(2) by auto
    then show ?thesis using Cons r by simp
  qed
qed

section \<open>Datagram packets\<close>

text \<open>
  The loop of \<open>receive_datagram_packets\<close>: a packet at the front is taken once its connection is
  published or cancelled; a cancelled connection's packet is counted as dropped, the others become
  commands.
\<close>

fun take_datagrams ::
  "('k, 'ts) tokens \<Rightarrow> (QueueDropReason \<Rightarrow> 'h \<Rightarrow> 'h) \<Rightarrow> nat \<Rightarrow> 'p PacketReceiveEvent Shared
     \<Rightarrow> ('q, 'c, 'h, 'k, 'ts, 'ev) endpoint_world
     \<Rightarrow> 'p PacketReceiveEvent list \<times> 'p PacketReceiveEvent Shared \<times> ('q, 'c, 'h, 'k, 'ts, 'ev) endpoint_world"
where
  "take_datagrams T rd 0 sh w = ([], sh, w)"
| "take_datagrams T rd (Suc n) sh w =
     (case try_recv_if (\<lambda>pe. world_published w (pe_connection pe) \<or> world_cancelled T w (pe_connection pe)) sh of
        (Inl _, sh', _) \<Rightarrow> ([], sh', w)
      | (Inr pe, sh', _) \<Rightarrow>
          if world_cancelled T w (pe_connection pe)
          then take_datagrams T rd n sh' (upd_conn (pe_connection pe) (ecs_record_drop rd ClosedBeforeDelivery) w)
          else (case take_datagrams T rd n sh' w of (pes, sh'', w') \<Rightarrow> (pe # pes, sh'', w')))"

text \<open>The queued command: the token is looked at again when it runs.\<close>

definition deliver_datagram ::
  "('k, 'ts) tokens \<Rightarrow> (QueueDropReason \<Rightarrow> 'h \<Rightarrow> 'h) \<Rightarrow> ('p PacketReceiveEvent \<Rightarrow> 'ev) \<Rightarrow> 'p PacketReceiveEvent
     \<Rightarrow> ('q, 'c, 'h, 'k, 'ts, 'ev) endpoint_world \<Rightarrow> ('q, 'c, 'h, 'k, 'ts, 'ev) endpoint_world"
where
  "deliver_datagram T rd mk pe w =
     (if world_cancelled T w (pe_connection pe)
      then upd_conn (pe_connection pe) (ecs_record_drop rd ClosedBeforeDelivery) w
      else trigger (mk pe) w)"

definition datagram_frame ::
  "('k, 'ts) tokens \<Rightarrow> (QueueDropReason \<Rightarrow> 'h \<Rightarrow> 'h) \<Rightarrow> ('p PacketReceiveEvent \<Rightarrow> 'ev) \<Rightarrow> nat
     \<Rightarrow> 'p PacketReceiveEvent Shared \<Rightarrow> ('q, 'c, 'h, 'k, 'ts, 'ev) endpoint_world
     \<Rightarrow> 'p PacketReceiveEvent Shared \<times> ('q, 'c, 'h, 'k, 'ts, 'ev) endpoint_world"
where
  "datagram_frame T rd mk budget sh w =
     (case take_datagrams T rd budget sh w of
        (pes, sh', w') \<Rightarrow> (sh', fold (deliver_datagram T rd mk) pes w'))"

lemma upd_conn_frame [simp]:
  "registry (upd_conn i f w) = registry w" "current (upd_conn i f w) = current w"
  "world_tokens (upd_conn i f w) = world_tokens w" "triggered (upd_conn i f w) = triggered w"
  by (simp_all add: upd_conn_def)

lemma trigger_frame [simp]:
  "registry (trigger e w) = registry w" "current (trigger e w) = current w"
  "world_tokens (trigger e w) = world_tokens w" "conns (trigger e w) = conns w"
  "triggered (trigger e w) = triggered w @ [e]"
  by (simp_all add: trigger_def)

lemma record_drop_gates [simp]:
  "world_published (upd_conn i (ecs_record_drop rd r) w) j = world_published w j"
  "world_cancelled T (upd_conn i (ecs_record_drop rd r) w) j = world_cancelled T w j"
  by (auto simp: world_published_def world_cancelled_def upd_conn_def ecs_record_drop_def is_published_def
      split: option.splits)

lemma trigger_gates [simp]:
  "world_published (trigger e w) j = world_published w j"
  "world_cancelled T (trigger e w) j = world_cancelled T w j"
  by (simp_all add: world_published_def world_cancelled_def split: option.split)

text \<open>
  What a frame takes from the queue is its longest prefix, within the budget, of packets whose
  connection is published or cancelled.
\<close>

definition eligible ::
  "('k, 'ts) tokens \<Rightarrow> ('q, 'c, 'h, 'k, 'ts, 'ev) endpoint_world \<Rightarrow> 'p PacketReceiveEvent \<Rightarrow> bool"
where
  "eligible T w pe \<longleftrightarrow> world_published w (pe_connection pe) \<or> world_cancelled T w (pe_connection pe)"

definition taken ::
  "('k, 'ts) tokens \<Rightarrow> ('q, 'c, 'h, 'k, 'ts, 'ev) endpoint_world \<Rightarrow> nat \<Rightarrow> 'p PacketReceiveEvent list
     \<Rightarrow> 'p PacketReceiveEvent list"
where
  "taken T w n pes = takeWhile (eligible T w) (take n pes)"

definition count_drops ::
  "(QueueDropReason \<Rightarrow> 'h \<Rightarrow> 'h) \<Rightarrow> ConnectionId list \<Rightarrow> ('q, 'c, 'h, 'k, 'ts, 'ev) endpoint_world
     \<Rightarrow> ('q, 'c, 'h, 'k, 'ts, 'ev) endpoint_world"
where
  "count_drops rd is w = fold (\<lambda>i. upd_conn i (ecs_record_drop rd ClosedBeforeDelivery)) is w"

lemma count_drops_simps [simp]:
  "count_drops rd [] w = w"
  "count_drops rd (i # is) w = count_drops rd is (upd_conn i (ecs_record_drop rd ClosedBeforeDelivery) w)"
  by (simp_all add: count_drops_def)

lemma count_drops_gates [simp]:
  "world_published (count_drops rd is w) j = world_published w j"
  "world_cancelled T (count_drops rd is w) j = world_cancelled T w j"
  "triggered (count_drops rd is w) = triggered w" "registry (count_drops rd is w) = registry w"
  by (induction "is" arbitrary: w) simp_all

lemma eligible_record_drop [simp]:
  "eligible T (upd_conn i (ecs_record_drop rd r) w) = eligible T w"
  by (simp add: eligible_def fun_eq_iff)

lemma taken_record_drop [simp]: "taken T (upd_conn i (ecs_record_drop rd r) w) n ps = taken T w n ps"
  by (simp add: taken_def)

lemma take_datagrams_prefix:
  "\<exists>sh'. take_datagrams T rd n sh w =
      (filter (\<lambda>pe. \<not> world_cancelled T w (pe_connection pe)) (taken T w n (queue_contents sh)), sh',
       count_drops rd (map pe_connection
         (filter (\<lambda>pe. world_cancelled T w (pe_connection pe)) (taken T w n (queue_contents sh)))) w)
     \<and> queue_contents sh' = drop (length (taken T w n (queue_contents sh))) (queue_contents sh)"
proof (induction n arbitrary: sh w)
  case 0
  then show ?case by (simp add: taken_def)
next
  case (Suc n)
  show ?case
  proof (cases "items (state sh)")
    case Nil
    then show ?thesis by (simp add: taken_def queue_contents_def try_recv_if_form)
  next
    case (Cons x xs)
    obtain pe wt where x: "x = (pe, wt)" by fastforce
    define sh1 where "sh1 = sh\<lparr>state := (state sh)\<lparr>items := xs, bytes := usize_sub (bytes (state sh)) wt\<rparr>\<rparr>"
    have q: "queue_contents sh = pe # queue_contents sh1"
      using Cons x by (simp add: queue_contents_def sh1_def)
    show ?thesis
    proof (cases "eligible T w pe")
      case False
      then show ?thesis
        using Cons x by (simp add: eligible_def try_recv_if_form taken_def queue_contents_def)
    next
      case True
      then have r: "try_recv_if (\<lambda>pe. world_published w (pe_connection pe) \<or> world_cancelled T w (pe_connection pe)) sh
          = (Inr pe, sh1, [Space_notify_one])"
        using Cons x by (simp add: eligible_def try_recv_if_form sh1_def)
      have t: "taken T w (Suc n) (queue_contents sh) = pe # taken T w n (queue_contents sh1)"
        using True by (simp add: taken_def q)
      show ?thesis
      proof (cases "world_cancelled T w (pe_connection pe)")
        case False
        then show ?thesis using Suc.IH [of sh1 w] unfolding t by (auto simp: r q)
      next
        case c: True
        let ?w = "upd_conn (pe_connection pe) (ecs_record_drop rd ClosedBeforeDelivery) w"
        show ?thesis using Suc.IH [of sh1 ?w] c unfolding t by (auto simp: r q)
      qed
    qed
  qed
qed

lemma deliver_all:
  assumes "\<And>pe. pe \<in> set pes \<Longrightarrow> \<not> world_cancelled T w (pe_connection pe)"
  shows "fold (deliver_datagram T rd mk) pes w = w\<lparr>triggered := triggered w @ map mk pes\<rparr>"
  using assms
proof (induction pes arbitrary: w)
  case (Cons pe pes)
  then have "deliver_datagram T rd mk pe w = trigger (mk pe) w" by (simp add: deliver_datagram_def)
  moreover have "\<not> world_cancelled T (trigger (mk pe) w) (pe_connection x)" if "x \<in> set pes" for x
    using Cons.prems that by simp
  ultimately show ?case
    using Cons.IH [of "trigger (mk pe) w"] by (simp add: trigger_def)
qed simp

lemma datagram_frame_eq:
  "\<exists>sh'. datagram_frame T rd mk n sh w =
     (sh', (count_drops rd (map pe_connection
              (filter (\<lambda>pe. world_cancelled T w (pe_connection pe)) (taken T w n (queue_contents sh)))) w)
           \<lparr>triggered := triggered w @ map mk
              (filter (\<lambda>pe. \<not> world_cancelled T w (pe_connection pe)) (taken T w n (queue_contents sh)))\<rparr>)
     \<and> queue_contents sh' = drop (length (taken T w n (queue_contents sh))) (queue_contents sh)"
proof -
  let ?t = "taken T w n (queue_contents sh)"
  let ?w = "count_drops rd (map pe_connection (filter (\<lambda>pe. world_cancelled T w (pe_connection pe)) ?t)) w"
  have "fold (deliver_datagram T rd mk) (filter (\<lambda>pe. \<not> world_cancelled T w (pe_connection pe)) ?t) ?w =
      ?w\<lparr>triggered := triggered ?w @ map mk (filter (\<lambda>pe. \<not> world_cancelled T w (pe_connection pe)) ?t)\<rparr>"
    by (rule deliver_all) simp
  then show ?thesis
    using take_datagrams_prefix [of T rd n sh w] by (auto simp: datagram_frame_def)
qed

lemma taken_props:
  "prefix (taken T w n pes) pes" "length (taken T w n pes) \<le> n"
  "pe \<in> set (taken T w n pes) \<Longrightarrow> eligible T w pe"
  by (auto simp: taken_def intro: prefix_order.trans [OF takeWhile_is_prefix take_is_prefix]
      dest: set_takeWhileD)
    (metis length_take length_takeWhile_le min.bounded_iff min.cobounded2)

lemma taken_maximal:
  assumes "length (taken T w n pes) < n" and "drop (length (taken T w n pes)) pes = pe # rest"
  shows "\<not> eligible T w pe"
proof -
  let ?k = "length (taken T w n pes)"
  have k: "?k < length pes" "pes ! ?k = pe"
    using assms(2) by (metis Cons_nth_drop_Suc drop_eq_Nil linorder_not_le list.inject list.simps(3))+
  have "\<not> eligible T w (take n pes ! ?k)"
    using assms(1) k(1) unfolding taken_def by (intro nth_length_takeWhile) (simp add: taken_def)
  then show ?thesis using assms(1) k(2) by simp
qed

lemma take_datagrams_keeps:
  assumes "\<And>sh ready r sh' ns. R sh \<Longrightarrow> try_recv_if ready sh = (r, sh', ns) \<Longrightarrow> R sh'" "R sh"
    and "take_datagrams T rd n sh w = (pes, sh', w')"
  shows "R sh'"
  using assms(2,3)
proof (induction n arbitrary: sh w pes w')
  case (Suc n)
  obtain r sh1 ns where t: "try_recv_if (\<lambda>pe. world_published w (pe_connection pe) \<or> world_cancelled T w (pe_connection pe)) sh
      = (r, sh1, ns)" by (metis prod_cases3)
  have "R sh1" by (rule assms(1) [OF Suc.prems(1) t])
  then show ?case
    using Suc.prems(2) Suc.IH t by (auto split: sum.splits if_splits prod.splits)
qed simp

lemma triggered_gates [simp]:
  "world_published (w\<lparr>triggered := x\<rparr>) i = world_published w i"
  "world_cancelled T (w\<lparr>triggered := x\<rparr>) i = world_cancelled T w i"
  by (simp_all add: world_published_def world_cancelled_def split: option.split)

lemma datagram_frame_all:
  assumes "\<And>pe. pe \<in> set (queue_contents sh) \<Longrightarrow> world_published w (pe_connection pe) \<and> \<not> world_cancelled T w (pe_connection pe)"
  obtains sh' where "datagram_frame T rd mk n sh w = (sh', w\<lparr>triggered := triggered w @ map mk (take n (queue_contents sh))\<rparr>)"
    "queue_contents sh' = drop n (queue_contents sh)"
proof -
  let ?q = "queue_contents sh"
  have e: "taken T w n ?q = take n ?q"
    unfolding taken_def takeWhile_eq_all_conv using assms by (auto simp: eligible_def dest: in_set_takeD)
  have f: "filter (\<lambda>pe. world_cancelled T w (pe_connection pe)) (take n ?q) = []"
    "filter (\<lambda>pe. \<not> world_cancelled T w (pe_connection pe)) (take n ?q) = take n ?q"
    using assms by (auto simp: filter_empty_conv filter_id_conv dest: in_set_takeD)
  show thesis
    using datagram_frame_eq [of T rd mk n sh w] that unfolding e f by (auto simp: min_def)
qed

section \<open>Registries\<close>

text \<open>
  The contract of an endpoint's registry: establishment messages append their connection, closure
  messages remove theirs, nothing else touches it.
\<close>

locale connection_registry =
  fixes apply_msg :: "'m \<Rightarrow> 'w \<Rightarrow> 'w"
    and reg :: "'w \<Rightarrow> ConnectionId list"
    and established :: "'m \<Rightarrow> ConnectionId option"
    and closed :: "'m \<Rightarrow> ConnectionId option"
  assumes reg_apply: "reg (apply_msg m w) =
      (case established m of
         Some i \<Rightarrow> reg w @ [i]
       | None \<Rightarrow> (case closed m of Some i \<Rightarrow> filter (\<lambda>j. j \<noteq> i) (reg w) | None \<Rightarrow> reg w))"
    and exclusive: "established m = Some i \<Longrightarrow> closed m = None"
begin

lemma registered_iff:
  "i \<in> set (reg (fold apply_msg ms w)) \<longleftrightarrow>
     (i \<in> set (reg w) \<and> (\<forall>m \<in> set ms. closed m \<noteq> Some i)
      \<or> (\<exists>pre m post. ms = pre @ m # post \<and> established m = Some i \<and> (\<forall>x \<in> set post. closed x \<noteq> Some i)))"
proof (induction ms rule: rev_induct)
  case (snoc m ms)
  have split: "(\<exists>pre x post. ms @ [m] = pre @ x # post \<and> established x = Some i \<and> (\<forall>y \<in> set post. closed y \<noteq> Some i))
      \<longleftrightarrow> established m = Some i \<or> closed m \<noteq> Some i \<and>
        (\<exists>pre x post. ms = pre @ x # post \<and> established x = Some i \<and> (\<forall>y \<in> set post. closed y \<noteq> Some i))"
    (is "?L \<longleftrightarrow> ?R")
  proof
    assume ?L
    then obtain pre x post where p: "ms @ [m] = pre @ x # post" "established x = Some i"
      "\<forall>y \<in> set post. closed y \<noteq> Some i" by blast
    show ?R
    proof (cases post rule: rev_cases)
      case Nil
      then show ?R using p by simp
    next
      case (snoc ys y)
      then show ?R using p by auto
    qed
  next
    assume ?R
    then show ?L
    proof
      assume "established m = Some i"
      then show ?L by (intro exI [of _ ms] exI [of _ m] exI [of _ "[]"]) simp
    next
      assume "closed m \<noteq> Some i \<and>
        (\<exists>pre x post. ms = pre @ x # post \<and> established x = Some i \<and> (\<forall>y \<in> set post. closed y \<noteq> Some i))"
      then obtain pre x post where "closed m \<noteq> Some i" "ms = pre @ x # post" "established x = Some i"
        "\<forall>y \<in> set post. closed y \<noteq> Some i" by blast
      then show ?L by (intro exI [of _ pre] exI [of _ x] exI [of _ "post @ [m]"]) simp
    qed
  qed
  have step: "i \<in> set (reg (apply_msg m v)) \<longleftrightarrow> established m = Some i \<or> closed m \<noteq> Some i \<and> i \<in> set (reg v)" for v
    by (cases "established m"; cases "closed m") (auto simp: reg_apply dest: exclusive)
  have "closed m \<noteq> Some i \<or> established m \<noteq> Some i"
    using exclusive [of m i] by auto
  then show ?case
    unfolding split fold_append comp_apply fold.simps id_apply step snoc.IH by auto
qed simp

lemma registry_distinct:
  assumes "distinct (reg w @ List.map_filter established ms)"
  shows "distinct (reg (fold apply_msg ms w))"
  using assms
proof (induction ms arbitrary: w)
  case (Cons m ms)
  have "distinct (reg (apply_msg m w) @ List.map_filter established ms)"
    using Cons.prems by (auto simp: reg_apply map_filter_simps split: option.splits)
  from Cons.IH [OF this] show ?case by simp
qed simp

end

end
