(* ===== verification/Client_Endpoint.thy ===== *)
theory Client_Endpoint
  imports Endpoint_Frame
begin

text \<open>
  The client endpoint: \<^verbatim>\<open>src/src/client.rs\<close>. Its resources are the list of connections, the current
  connection (the \<open>ClientConnection\<close> resource) and the channels made at setup. Connection attempts
  are one definition each; running up to eight of them at a time is the subject of \<open>Connection_Pool\<close>.
  The outcome of a bounded channel's \<open>send\<close> is an argument.
\<close>

section \<open>Messages and events\<close>

datatype ('p, 'd, 'l) client_message =
    CStreamPacket "'p PacketReceiveEvent"
  | CEstablished SocketAddr ConnectionId
  | CClosed "('d, 'l) ReceiveError" SocketAddr "ConnectionId option"

datatype ('p, 'd, 'l) client_event =
    CPacketEvent "'p PacketReceiveEvent"
  | CEstablishEvent SocketAddr ConnectionId
  | CDisconnectionEvent "('d, 'l) ReceiveError" SocketAddr "ConnectionId option"

definition MAX_CONNECTION_ATTEMPTS :: usize where
  "MAX_CONNECTION_ATTEMPTS = 8"

section \<open>The registry\<close>

definition client_register :: "ConnectionId \<Rightarrow> ConnectionId list \<Rightarrow> ConnectionId list" where
  "client_register i r = r @ [i]"

definition client_remove_connection ::
  "ConnectionId \<Rightarrow> ConnectionId list \<Rightarrow> ConnectionId option \<times> ConnectionId list"
where
  "client_remove_connection i r =
     (let r' = filter (\<lambda>j. j \<noteq> i) r in (if r' = [] then None else Some (last r'), r'))"

section \<open>Setup\<close>

record ('rq, 'inc, 'cn, 'p) client_channels =
  request_channel :: 'rq
  incoming_messages :: 'inc
  connection_channel :: 'cn
  datagram_queue :: "'p PacketReceiveEvent Shared"
  datagram_resource :: bool

definition client_setup ::
  "(SocketAddr, 'rq) mpsc \<Rightarrow> ('m, 'inc) mpsc \<Rightarrow> ('t, 'cn) mpsc \<Rightarrow> EndpointSetup \<Rightarrow> bool
     \<Rightarrow> ('rq, 'inc, 'cn, 'p) client_channels"
where
  "client_setup MR MI MC endpoint datagram =
     (let qs = setup_queues endpoint in
      \<lparr>request_channel = incoming_channel MR qs, incoming_messages = incoming_channel MI qs,
       connection_channel = incoming_channel MC qs,
       datagram_queue = lossy_channel (max (receive_capacity qs) 1) usize_max (datagram_receive_overflow qs),
       datagram_resource = datagram\<rparr>)"

section \<open>Connection attempts\<close>

text \<open>\<open>ConnectionRequestSender::observe\<close>: a request goes to the request channel or fails at once.\<close>

definition observe_request ::
  "(SocketAddr, 'rq) mpsc \<Rightarrow> SocketAddr \<Rightarrow> 'rq
     \<Rightarrow> ('q, 'c, 'h, 'k, 'ts, ('p, 'd, 'l) client_event) endpoint_world
     \<Rightarrow> 'rq \<times> ('q, 'c, 'h, 'k, 'ts, ('p, 'd, 'l) client_event) endpoint_world"
where
  "observe_request MR addr rq w =
     (case mpsc_try_send MR addr rq of
        (Inr _, rq') \<Rightarrow> (rq', w)
      | (Inl err, rq') \<Rightarrow>
          (let k = (case err of Full _ \<Rightarrow> WouldBlock | Closed _ \<Rightarrow> BrokenPipe)
           in (rq', trigger (CDisconnectionEvent
                 (NoConnection (IoError k ''connection request rejected'')) addr None) w)))"

text \<open>\<open>create_connection\<close>, with the outcome of \<open>connect_to_server\<close> and the token of the new connection.\<close>

definition create_connection ::
  "'k \<Rightarrow> io_error + 's \<Rightarrow> 'z \<Rightarrow> 'ls \<Rightarrow> OutgoingReceiver \<Rightarrow> ReceiveLimits \<Rightarrow> usize
     \<Rightarrow> (io_error + ('s, 'z, 'ls, 'k) RawConnection) \<times> usize"
where
  "create_connection tok connected sr ls rx limits counter =
     (case connected of
        Inl e \<Rightarrow> (Inl e, counter)
      | Inr st \<Rightarrow> (case with_limits tok st sr ls rx limits counter of (raw, counter') \<Rightarrow> (Inr raw, counter')))"

text \<open>
  One request of \<open>process_connection_requests\<close>: the outgoing queue, the connection and the queue's
  state.
\<close>

definition client_attempt ::
  "('q, 'c) mpsc \<Rightarrow> NetworkQueueSettings \<Rightarrow> ReceiveLimits \<Rightarrow> bool \<Rightarrow> 'k \<Rightarrow> io_error + 's \<Rightarrow> 'z \<Rightarrow> 'ls \<Rightarrow> usize
     \<Rightarrow> ('q, 'c) OutgoingInner \<times> (io_error + ('s, 'z, 'ls, 'k) RawConnection) \<times> usize"
where
  "client_attempt M qs limits datagram tok connected sr ls counter =
     (case outgoing_channel M qs datagram of
        (tx, rx) \<Rightarrow> (tx, create_connection tok connected sr ls rx limits counter))"

text \<open>
  \<open>ConnectionAttempt::publish\<close>: \<open>inc_ok\<close> and \<open>conn_ok\<close> are the outcomes of the two sends. The result
  says whether requests go on, with the messages that reached ECS, the ECS connection created and
  whether the transport was handed to its task.
\<close>

definition publish ::
  "('s, 'h) NetworkStream \<Rightarrow> bool \<Rightarrow> bool \<Rightarrow> SocketAddr \<Rightarrow> ('q, 'c) OutgoingInner
     \<Rightarrow> io_error + ('s, 'z, 'ls, 'k) RawConnection
     \<Rightarrow> bool \<times> ('p, 'd, 'l) client_message list \<times> ('q, 'c, 'h, 'k) EcsConnection option \<times> bool"
where
  "publish N inc_ok conn_ok addr packets result =
     (case result of
        Inr raw \<Rightarrow>
          (let ecs = ecs_connection N packets raw in
           if \<not> inc_ok then (False, [], Some ecs, False)
           else (True, [CEstablished addr (conn_id ecs)], Some ecs, conn_ok))
      | Inl err \<Rightarrow> (True, if inc_ok then [CClosed (NoConnection err) addr None] else [], None, False))"

text \<open>
  \<open>ConnectedTransport::run\<close> up to the spawn of the two tasks: a failed split cancels the connection and
  reports its closure.
\<close>

definition client_run ::
  "('k, 'ts) tokens \<Rightarrow> ('s, 'h) NetworkStream \<Rightarrow> io_error + 'halves \<Rightarrow> bool
     \<Rightarrow> ('s, 'z, 'ls, 'k) RawConnection \<Rightarrow> 'ts \<Rightarrow> 'halves option \<times> ('p, 'd, 'l) client_message list \<times> 'ts"
where
  "client_run T N split inc_ok raw ts =
     (case split of
        Inr halves \<Rightarrow> (Some halves, [], ts)
      | Inl err \<Rightarrow>
          (None, if inc_ok then [CClosed (Io err) (ns_peer_addr N (stream raw)) (Some (raw_id raw))] else [],
           tok_cancel T (raw_disconnect_task raw) ts))"

text \<open>The closure that \<open>receive_packets\<close> reports to ECS for its connection.\<close>

definition client_task_message ::
  "SocketAddr \<Rightarrow> ConnectionId \<Rightarrow> ('p PacketReceiveEvent, 'd, 'l) task_message \<Rightarrow> ('p, 'd, 'l) client_message"
where
  "client_task_message peer i m =
     (case m of TmPacket pe \<Rightarrow> CStreamPacket pe | TmClosed err \<Rightarrow> CClosed err peer (Some i))"

section \<open>Systems\<close>

definition client_apply ::
  "('p, 'd, 'l) client_message \<Rightarrow> ('q, 'c, 'h, 'k, 'ts, ('p, 'd, 'l) client_event) endpoint_world
     \<Rightarrow> ('q, 'c, 'h, 'k, 'ts, ('p, 'd, 'l) client_event) endpoint_world"
where
  "client_apply m w =
     (case m of
        CEstablished addr i \<Rightarrow>
          (let w1 = w\<lparr>current := Some i\<rparr>;
               w2 = w1\<lparr>registry := client_register i (registry w1)\<rparr>;
               w3 = upd_conn i mark_published w2
           in trigger (CEstablishEvent addr i) w3)
      | CStreamPacket pe \<Rightarrow> trigger (CPacketEvent pe) w
      | CClosed err addr io \<Rightarrow>
          (let w' = (case io of
                 None \<Rightarrow> w
               | Some i \<Rightarrow>
                   (let w1 = w\<lparr>current := None\<rparr>;
                        (fallback, r) = client_remove_connection i (registry w1);
                        w2 = w1\<lparr>registry := r\<rparr>
                    in case fallback of None \<Rightarrow> w2 | Some c \<Rightarrow> w2\<lparr>current := Some c\<rparr>))
           in trigger (CDisconnectionEvent err addr io) w'))"

definition client_incoming_system ::
  "(('p, 'd, 'l) client_message, 'inc) mpsc \<Rightarrow> NetworkSettings option \<Rightarrow> NetworkQueueSettings option \<Rightarrow> 'inc
     \<Rightarrow> ('q, 'c, 'h, 'k, 'ts, ('p, 'd, 'l) client_event) endpoint_world
     \<Rightarrow> 'inc \<times> ('q, 'c, 'h, 'k, 'ts, ('p, 'd, 'l) client_event) endpoint_world"
where
  "client_incoming_system MI settings qs rx w =
     (let budget = events_per_frame (resolve_queues settings qs) in
      case drain_messages MI budget rx of (ms, rx') \<Rightarrow> (rx', fold client_apply ms w))"

definition client_receive_datagram_packets ::
  "('k, 'ts) tokens \<Rightarrow> (QueueDropReason \<Rightarrow> 'h \<Rightarrow> 'h) \<Rightarrow> NetworkSettings option \<Rightarrow> NetworkQueueSettings option
     \<Rightarrow> 'p PacketReceiveEvent Shared \<Rightarrow> ('q, 'c, 'h, 'k, 'ts, ('p, 'd, 'l) client_event) endpoint_world
     \<Rightarrow> 'p PacketReceiveEvent Shared \<times> ('q, 'c, 'h, 'k, 'ts, ('p, 'd, 'l) client_event) endpoint_world"
where
  "client_receive_datagram_packets T rd settings qs sh w =
     (let budget = events_per_frame (resolve_queues settings qs) in
      datagram_frame T rd CPacketEvent budget sh w)"

section \<open>The registry contract\<close>

fun client_established :: "('p, 'd, 'l) client_message \<Rightarrow> ConnectionId option" where
  "client_established (CEstablished _ i) = Some i" | "client_established _ = None"

fun client_closed :: "('p, 'd, 'l) client_message \<Rightarrow> ConnectionId option" where
  "client_closed (CClosed _ _ io) = io" | "client_closed _ = None"

lemma client_apply_registry:
  "registry (client_apply m w) =
     (case client_established m of
        Some i \<Rightarrow> registry w @ [i]
      | None \<Rightarrow> (case client_closed m of Some i \<Rightarrow> filter (\<lambda>j. j \<noteq> i) (registry w) | None \<Rightarrow> registry w))"
  by (cases m) (auto simp: client_apply_def client_register_def client_remove_connection_def Let_def
      split: option.split)

interpretation client_reg: connection_registry client_apply registry client_established client_closed
proof (unfold_locales, goal_cases)
  case (1 m w)
  show ?case by (rule client_apply_registry)
next
  case (2 m i)
  then show ?case by (cases m) auto
qed

definition current_ok :: "('q, 'c, 'h, 'k, 'ts, 'ev) endpoint_world \<Rightarrow> bool" where
  "current_ok w \<longleftrightarrow> current w = (if registry w = [] then None else Some (last (registry w)))"

lemma client_apply_current: "current_ok w \<Longrightarrow> current_ok (client_apply m w)"
  by (cases m) (auto simp: client_apply_def client_register_def client_remove_connection_def Let_def
      current_ok_def split: option.split)

lemma client_apply_all_current: "current_ok w \<Longrightarrow> current_ok (fold client_apply ms w)"
  by (induction ms arbitrary: w) (auto intro: client_apply_current)

lemma client_apply_world_published:
  "world_published (client_apply m w) i \<longleftrightarrow>
     world_published w i \<or> client_established m = Some i \<and> conns w i \<noteq> None"
  by (cases m) (auto simp: client_apply_def client_remove_connection_def Let_def world_published_def
      upd_conn_def trigger_def mark_published_def is_published_def split: option.splits)

lemma client_apply_published:
  assumes "\<And>i. i \<in> set (registry w) \<Longrightarrow> world_published w i"
    and "\<And>i. client_established m = Some i \<Longrightarrow> conns w i \<noteq> None" and "i \<in> set (registry (client_apply m w))"
  shows "world_published (client_apply m w) i"
  using assms by (auto simp: client_apply_world_published client_apply_registry split: option.splits)

lemma client_apply_conns: "conns (client_apply m w) i = None \<longleftrightarrow> conns w i = None"
  by (cases m) (auto simp: client_apply_def client_remove_connection_def Let_def upd_conn_def trigger_def
      split: option.splits)

lemma client_apply_all_published:
  assumes "\<And>i. i \<in> set (registry w) \<Longrightarrow> world_published w i"
    and "\<And>m i. m \<in> set ms \<Longrightarrow> client_established m = Some i \<Longrightarrow> conns w i \<noteq> None"
    and "i \<in> set (registry (fold client_apply ms w))"
  shows "world_published (fold client_apply ms w) i"
  using assms
proof (induction ms arbitrary: w)
  case (Cons m ms)
  have "world_published (client_apply m w) j" if "j \<in> set (registry (client_apply m w))" for j
    by (rule client_apply_published) (use Cons.prems that in auto)
  then show ?case
    using Cons.IH [of "client_apply m w"] Cons.prems(2,3) client_apply_conns [of m w] by auto
qed simp

fun client_event_of :: "('p, 'd, 'l) client_message \<Rightarrow> ('p, 'd, 'l) client_event" where
  "client_event_of (CStreamPacket pe) = CPacketEvent pe"
| "client_event_of (CEstablished a i) = CEstablishEvent a i"
| "client_event_of (CClosed e a io) = CDisconnectionEvent e a io"

lemma client_apply_triggered: "triggered (fold client_apply ms w) = triggered w @ map client_event_of ms"
proof (induction ms arbitrary: w)
  case (Cons m ms)
  have "triggered (client_apply m w) = triggered w @ [client_event_of m]"
    by (cases m) (auto simp: client_apply_def client_remove_connection_def Let_def split: option.split)
  then show ?case using Cons.IH by simp
qed simp

section \<open>Properties\<close>

text \<open>
  (C10) The client's view of its connections. Starting without connections, after any sequence of
  lifecycle messages a connection is listed exactly if it was established and not closed since; the
  current-connection resource is the most recently established listed one and is absent exactly when
  none is listed; and every listed connection has been published.
\<close>

theorem client_registry_correct:
  assumes "registry w = []" "current w = None"
    and "\<And>m i. m \<in> set ms \<Longrightarrow> client_established m = Some i \<Longrightarrow> conns w i \<noteq> None"
  shows "(i \<in> set (registry (fold client_apply ms w)) \<longleftrightarrow>
            (\<exists>pre m post. ms = pre @ m # post \<and> client_established m = Some i
               \<and> (\<forall>x \<in> set post. client_closed x \<noteq> Some i)))
     \<and> current (fold client_apply ms w) =
         (if registry (fold client_apply ms w) = [] then None else Some (last (registry (fold client_apply ms w))))
     \<and> (i \<in> set (registry (fold client_apply ms w)) \<longrightarrow> world_published (fold client_apply ms w) i)"
proof -
  have c: "current_ok w" using assms(1,2) by (simp add: current_ok_def)
  have p: "i \<in> set (registry (fold client_apply ms w)) \<longrightarrow> world_published (fold client_apply ms w) i"
    using client_apply_all_published [of w ms i] assms(1,3) by auto
  have r: "i \<in> set (registry (fold client_apply ms w)) \<longleftrightarrow>
      (\<exists>pre m post. ms = pre @ m # post \<and> client_established m = Some i
         \<and> (\<forall>x \<in> set post. client_closed x \<noteq> Some i))"
    using client_reg.registered_iff [of i ms w] assms(1) by simp
  show ?thesis
    using client_apply_all_current [OF c, of ms] p r unfolding current_ok_def by blast
qed

definition demo_world ::
  "(char, char list_chan, UdpConnectionHandle, demo_token, nat \<times> demo_token list, (nat, unit, unit) client_event) endpoint_world"
where
  "demo_world =
     \<lparr>conns = (\<lambda>i. Some (demo_conn\<lparr>conn_id := i, published := False, disconnect_task := (i, [])\<rparr>)),
      registry = [], current = None, world_tokens = (9, [(2, [])]), triggered = []\<rparr>"

theorem client_registry_correct_witness:
  "current (fold client_apply [CEstablished (V4 0 1) 5, CEstablished (V4 0 2) 6,
      CClosed PacketTooBig (V4 0 2) (Some 6)] demo_world) = Some 5
   \<and> 5 \<in> set (registry (fold client_apply [CEstablished (V4 0 1) 5, CEstablished (V4 0 2) 6,
      CClosed PacketTooBig (V4 0 2) (Some 6)] demo_world))"
proof -
  let ?ms = "[CEstablished (V4 0 1) 5, CEstablished (V4 0 2) 6, CClosed PacketTooBig (V4 0 2) (Some 6)]
    :: (nat, unit, unit) client_message list"
  have i: "registry demo_world = []" "current demo_world = None"
    and k: "\<And>m i. m \<in> set ?ms \<Longrightarrow> client_established m = Some i \<Longrightarrow> conns demo_world i \<noteq> None"
    by (simp_all add: demo_world_def)
  have r: "registry (fold client_apply ?ms demo_world) = [5]"
    by (simp add: client_apply_registry demo_world_def)
  show ?thesis
    using client_registry_correct [OF i, where ms = ?ms and i = 5] k r by simp
qed

text \<open>
  A client frame processes lifecycle messages first in, first out, within its budget: it takes
  exactly the oldest messages up to \<open>events_per_frame\<close> of the resolved settings, triggers one event for
  each in the same order, and leaves the rest in the channel.
\<close>

theorem client_frame_fifo:
  assumes "mpsc_laws MI pend"
  shows "\<exists>rx' w'. client_incoming_system MI settings qs rx w = (rx', w')
     \<and> pend rx' = drop (events_per_frame (resolve_queues settings qs)) (pend rx)
     \<and> triggered w' = triggered w @ map client_event_of (take (events_per_frame (resolve_queues settings qs)) (pend rx))"
proof -
  let ?n = "events_per_frame (resolve_queues settings qs)"
  obtain rx' where "drain_messages MI ?n rx = (take ?n (pend rx), rx')" "pend rx' = drop ?n (pend rx)"
    using drain_messages_fifo [OF assms] by blast
  then show ?thesis by (simp add: client_incoming_system_def client_apply_triggered)
qed

theorem client_frame_fifo_witness:
  "\<exists>rx' w'. client_incoming_system list_mpsc None (Some (default_queue_settings\<lparr>events_per_frame := 1\<rparr>))
       \<lparr>lc_items = [CEstablished (V4 0 1) 5, CClosed PacketTooBig (V4 0 1) (Some 5)], lc_cap = 4, lc_closed = False\<rparr>
       demo_world = (rx', w') \<and> triggered w' = [CEstablishEvent (V4 0 1) 5]"
  using client_frame_fifo [OF list_mpsc_laws, of None "Some (default_queue_settings\<lparr>events_per_frame := 1\<rparr>)"
      "\<lparr>lc_items = [CEstablished (V4 0 1) 5, CClosed PacketTooBig (V4 0 1) (Some 5)], lc_cap = 4, lc_closed = False\<rparr>"
      demo_world]
  by (auto simp: resolve_queues_def demo_world_def)


definition demo_packet :: "ConnectionId \<Rightarrow> nat PacketReceiveEvent" where
  "demo_packet i = \<lparr>pe_connection = i, pe_packet = 10 * i, pe_received_at = 0\<rparr>"

definition demo_datagrams :: "nat PacketReceiveEvent Shared" where
  "demo_datagrams =
     \<lparr>state = \<lparr>items = [(demo_packet 5, 1), (demo_packet 2, 1), (demo_packet 6, 1)], bytes = 3, senders = 1,
                receiver_open = True\<rparr>, max_items = 4, max_bytes = 9, policy = DropNewest\<rparr>"

lemma demo_datagram_frame:
  "\<exists>sh' w'. client_receive_datagram_packets demo_tokens record_drop None None demo_datagrams
       (client_apply (CEstablished (V4 0 1) 5) demo_world) = (sh', w')
     \<and> triggered w' = [CEstablishEvent (V4 0 1) 5, CPacketEvent (demo_packet 5)]
     \<and> queue_contents sh' = [demo_packet 6]"
  by (simp add: client_receive_datagram_packets_def datagram_frame_def resolve_queues_def default_queue_settings_def
      numeral_eq_Suc take_datagrams.simps demo_datagrams_def demo_packet_def client_apply_def Let_def demo_world_def
      try_recv_if_def world_published_def world_cancelled_def demo_tokens_def upd_conn_def trigger_def
      mark_published_def is_published_def client_register_def deliver_datagram_def ecs_record_drop_def
      queue_contents_def)


text \<open>
  Outcome of a connection attempt. A transport that connected is announced to ECS under the
  identifier of its connection before it is handed to its task, and a rejected announcement stops the
  request loop without handing it over; a failed attempt is reported as \<open>NoConnection\<close> with its
  address and no identifier. A request that cannot be queued is reported at once.
\<close>

theorem client_attempt_reported:
  "(case publish N inc_ok conn_ok addr packets result of
      (goes_on, msgs, ecs, handed) \<Rightarrow>
        (handed \<longrightarrow> (\<exists>raw. result = Inr raw \<and> msgs = [CEstablished addr (raw_id raw)]
                      \<and> ecs = Some (ecs_connection N packets raw)))
        \<and> (goes_on \<longleftrightarrow> inc_ok \<or> (\<exists>err. result = Inl err))
        \<and> (\<forall>err. result = Inl err \<and> inc_ok \<longrightarrow> msgs = [CClosed (NoConnection err) addr None]))
   \<and> (\<forall>rq w. \<exists>rq' evs. observe_request MR addr rq w = (rq', w\<lparr>triggered := triggered w @ evs\<rparr>)
        \<and> (evs = [] \<longleftrightarrow> result_ok (fst (mpsc_try_send MR addr rq))))"
  by (auto simp: publish_def ecs_connection_def observe_request_def trigger_def Let_def
      split: sum.splits prod.splits)

theorem client_attempt_reported_witness:
  "publish demo_stream True True (V4 0 1) (Lossy (lossy_channel 4 9 DropNewest) :: (char, char list_chan) OutgoingInner)
     (Inl (IoError ConnectionRefused ''refused'') :: io_error + (nat, unit, unit, demo_token) RawConnection)
   = (True, [CClosed (NoConnection (IoError ConnectionRefused ''refused'')) (V4 0 1) None], None, False)"
  using client_attempt_reported [where N = demo_stream and inc_ok = True and conn_ok = True and addr = "V4 0 1"
      and packets = "Lossy (lossy_channel 4 9 DropNewest)"
      and result = "Inl (IoError ConnectionRefused ''refused'')" and MR = list_mpsc]
  by (auto simp: publish_def)

end
