(* ===== verification/Server_Endpoint.thy ===== *)
theory Server_Endpoint
  imports Client_Endpoint "HOL-Library.Multiset"
begin

text \<open>
  The server endpoint: \<^verbatim>\<open>src/src/server.rs\<close>. \<open>accept_connections\<close> is a state machine: an event says which
  branch of its \<open>select!\<close> completed, or that a spawned \<open>establish\<close> task ended and released its permit.
  The listener is a record of operations on a listener state, which the protocol supplies; the
  semaphore that bounds unfinished establishments is the one of \<open>Udp_Peer\<close>. The \<open>else\<close> branch of the
  \<open>select!\<close> is unreachable, since the pattern of the \<open>accept\<close> branch never fails. As in the client, the
  outcome of a bounded channel's \<open>send\<close> is an argument.
\<close>

section \<open>Messages and events\<close>

datatype ('p, 'd, 'l) server_message =
    SStreamPacket "'p PacketReceiveEvent"
  | SEstablished SocketAddr ConnectionId
  | SClosed "('d, 'l) ReceiveError" ConnectionId

datatype ('p, 'd, 'l) server_event =
    SPacketEvent "'p PacketReceiveEvent"
  | NewConnectionEvent SocketAddr ConnectionId
  | SDisconnectionEvent "('d, 'l) ReceiveError" ConnectionId

section \<open>The registry\<close>

definition server_register :: "ConnectionId \<Rightarrow> ConnectionId list \<Rightarrow> ConnectionId list" where
  "server_register i r = r @ [i]"

definition server_remove_connection :: "ConnectionId \<Rightarrow> ConnectionId list \<Rightarrow> ConnectionId list" where
  "server_remove_connection i r = filter (\<lambda>j. j \<noteq> i) r"

section \<open>Setup\<close>

text \<open>\<open>ServerPlugin::bind\<close>: the first resolved address; \<open>None\<close> is the documented panic.\<close>

definition server_bind :: "io_error + SocketAddr list \<Rightarrow> SocketAddr option" where
  "server_bind resolved =
     (case resolved of Inl _ \<Rightarrow> None | Inr [] \<Rightarrow> None | Inr (a # _) \<Rightarrow> Some a)"

record ('inc, 'cn, 'dc, 'p) server_channels =
  s_incoming :: 'inc
  s_connections :: 'cn
  s_disconnects :: 'dc
  s_datagrams :: "'p PacketReceiveEvent Shared"
  s_datagram_resource :: bool
  server_address :: "SocketAddr option"

text \<open>
  \<open>ServerPlugin::setup\<close> on a native target: \<open>bound\<close> is the outcome of binding, which it waits for;
  the bound address becomes the \<open>ServerAddress\<close> resource.
\<close>

definition server_setup ::
  "('m, 'inc) mpsc \<Rightarrow> ('t, 'cn) mpsc \<Rightarrow> (SocketAddr, 'dc) mpsc \<Rightarrow> NetworkQueueSettings \<Rightarrow> bool
     \<Rightarrow> io_error + SocketAddr \<Rightarrow> ('inc, 'cn, 'dc, 'p) server_channels"
where
  "server_setup MI MC MD qs datagram bound =
     \<lparr>s_incoming = incoming_channel MI qs, s_connections = incoming_channel MC qs,
      s_disconnects = incoming_channel MD qs,
      s_datagrams = lossy_channel (max (receive_capacity qs) 1) usize_max (datagram_receive_overflow qs),
      s_datagram_resource = datagram,
      server_address = (case bound of Inl _ \<Rightarrow> None | Inr a \<Rightarrow> Some a)\<rparr>"

text \<open>
  \<open>publish_server_address\<close> of the browser build: the pending resource is there or not, and polling its
  channel gives the address, nothing yet, or a dropped sender. The result is the \<open>ServerAddress\<close> to
  insert and whether the pending resource stays.
\<close>

definition publish_server_address ::
  "bool \<Rightarrow> TryRecvError + SocketAddr \<Rightarrow> SocketAddr option \<times> bool"
where
  "publish_server_address is_pending polled =
     (if \<not> is_pending then (None, False)
      else case polled of
        Inr a \<Rightarrow> (Some a, False)
      | Inl Disconnected \<Rightarrow> (None, False)
      | Inl Empty \<Rightarrow> (None, True))"

section \<open>Accepting\<close>

text \<open>
  The \<open>Listener\<close> trait with the effect of dropping a stream or the listener; \<open>'e\<close> is what a poll of
  \<open>accept\<close> meets. \<open>AEstablishDone n handed\<close> is the end of the \<open>n\<close>-th unfinished \<open>establish\<close> task, which
  releases its permit; its stream is dropped unless the connection was handed to its task.
\<close>

record ('li, 's, 'e) Listener =
  li_accept :: "'e \<Rightarrow> 'li \<Rightarrow> (io_error + 's) poll \<times> 'li"
  li_handle_disconnection :: "SocketAddr \<Rightarrow> 'li \<Rightarrow> 'li"
  li_drop_stream :: "'s \<Rightarrow> 'li \<Rightarrow> 'li"
  li_drop :: "'li \<Rightarrow> 'li"

record ('li, 'sm, 's) accept_loop =
  al_listener :: 'li
  al_pending :: 'sm
  al_warned :: bool
  al_tasks :: "'s list"
  al_running :: bool

datatype 'e accept_event = AAccept 'e | ADisconnect SocketAddr | AEstablishDone nat bool

definition accept_start ::
  "'sm semaphore \<Rightarrow> NetworkQueueSettings \<Rightarrow> io_error + 'li \<Rightarrow> ('li, 'sm, 's) accept_loop option"
where
  "accept_start Sm qs bound =
     (case bound of
        Inl _ \<Rightarrow> None
      | Inr li \<Rightarrow> Some \<lparr>al_listener = li, al_pending = sem_new Sm (max (receive_capacity qs) 1),
                       al_warned = False, al_tasks = [], al_running = True\<rparr>)"

definition transient_accept_error :: "io_error \<Rightarrow> bool" where
  "transient_accept_error err \<longleftrightarrow> kind err \<in> {Interrupted, ConnectionAborted, ConnectionReset}"

definition accept_result ::
  "'sm semaphore \<Rightarrow> ('li, 's, 'e) Listener \<Rightarrow> bool \<Rightarrow> ('p, 'q, 'ee, 'de, 'z) SerializerAdapter
     \<Rightarrow> io_error + 's \<Rightarrow> ('li, 'sm, 's) accept_loop \<Rightarrow> ('li, 'sm, 's) accept_loop"
where
  "accept_result Sm L datagram adapter result s =
     (case result of
        Inl err \<Rightarrow>
          if transient_accept_error err then s
          else s\<lparr>al_running := False, al_listener := li_drop L (al_listener s)\<rparr>
      | Inr st \<Rightarrow>
          (case sem_try_acquire Sm (al_pending s) of
             (False, sm) \<Rightarrow> s\<lparr>al_pending := sm, al_listener := li_drop_stream L st (al_listener s)\<rparr>
           | (True, sm) \<Rightarrow>
               s\<lparr>al_pending := sm,
                 al_warned := snd (warn_if_stateful_over_datagrams datagram adapter (al_warned s)),
                 al_tasks := al_tasks s @ [st]\<rparr>))"

definition accept_step ::
  "'sm semaphore \<Rightarrow> ('li, 's, 'e) Listener \<Rightarrow> bool \<Rightarrow> ('p, 'q, 'ee, 'de, 'z) SerializerAdapter
     \<Rightarrow> 'e accept_event \<Rightarrow> ('li, 'sm, 's) accept_loop \<Rightarrow> ('li, 'sm, 's) accept_loop"
where
  "accept_step Sm L datagram adapter ev s =
     (case ev of
        AAccept e \<Rightarrow>
          if \<not> al_running s then s
          else (case li_accept L e (al_listener s) of
                  (Pending, li) \<Rightarrow> s\<lparr>al_listener := li\<rparr>
                | (Ready result, li) \<Rightarrow> accept_result Sm L datagram adapter result (s\<lparr>al_listener := li\<rparr>))
      | ADisconnect addr \<Rightarrow>
          if \<not> al_running s then s
          else s\<lparr>al_listener := li_handle_disconnection L addr (al_listener s)\<rparr>
      | AEstablishDone n handed \<Rightarrow>
          if n < length (al_tasks s)
          then s\<lparr>al_tasks := take n (al_tasks s) @ drop (Suc n) (al_tasks s),
                 al_pending := sem_release Sm (al_pending s),
                 al_listener := (if handed then al_listener s
                                 else li_drop_stream L (al_tasks s ! n) (al_listener s))\<rparr>
          else s)"

section \<open>Connections\<close>

text \<open>
  \<open>ConnectedTransport::establish\<close>: the message for ECS and the transport handed on, by the outcomes
  of the two sends.
\<close>

definition establish ::
  "('q, 'c) mpsc \<Rightarrow> ('s, 'h) NetworkStream \<Rightarrow> bool \<Rightarrow> bool \<Rightarrow> bool \<Rightarrow> 'k \<Rightarrow> 's \<Rightarrow> 'z \<Rightarrow> 'ls
     \<Rightarrow> NetworkQueueSettings \<Rightarrow> ReceiveLimits \<Rightarrow> usize
     \<Rightarrow> ('p, 'd, 'l) server_message list \<times> ('q, 'c, 'h, 'k) EcsConnection
        \<times> ('s, 'z, 'ls, 'k) RawConnection option \<times> usize"
where
  "establish M N inc_ok conn_ok datagram tok st sr ls qs limits counter =
     (case outgoing_channel M qs datagram of
        (tx, rx) \<Rightarrow>
          (case with_limits tok st sr ls rx limits counter of
             (raw, counter') \<Rightarrow>
               (let ecs = ecs_connection N tx raw in
                if \<not> inc_ok then ([], ecs, None, counter')
                else ([SEstablished (peer_addr ecs) (conn_id ecs)], ecs,
                      if conn_ok then Some raw else None, counter'))))"

definition server_run ::
  "('k, 'ts) tokens \<Rightarrow> io_error + 'halves \<Rightarrow> bool \<Rightarrow> ('q, 'c, 'h, 'k) EcsConnection \<Rightarrow> 'ts
     \<Rightarrow> 'halves option \<times> ('p, 'd, 'l) server_message list \<times> 'ts"
where
  "server_run T split inc_ok ecs ts =
     (case split of
        Inr halves \<Rightarrow> (Some halves, [], ts)
      | Inl err \<Rightarrow> (None, if inc_ok then [SClosed (Io err) (conn_id ecs)] else [],
                   tok_cancel T (disconnect_task ecs) ts))"

definition server_task_message ::
  "ConnectionId \<Rightarrow> ('p PacketReceiveEvent, 'd, 'l) task_message \<Rightarrow> ('p, 'd, 'l) server_message"
where
  "server_task_message i m = (case m of TmPacket pe \<Rightarrow> SStreamPacket pe | TmClosed err \<Rightarrow> SClosed err i)"

text \<open>
  The end of the server's \<open>receive_packets\<close>: the messages for ECS and the peer address that goes to the
  listener whatever becomes of them.
\<close>

definition server_receive_packets ::
  "bool \<Rightarrow> (QueueDropReason \<Rightarrow> 'h \<Rightarrow> 'h) \<Rightarrow> ('p PacketReceiveEvent \<Rightarrow> 'h \<Rightarrow> 'h)
     \<Rightarrow> ('p PacketReceiveEvent, 'd, 'l) recv_env list \<Rightarrow> io_error option
     \<Rightarrow> 'p PacketReceiveEvent PacketForwarder \<Rightarrow> ('q, 'c, 'h, 'k) EcsConnection
     \<Rightarrow> (('p, 'd, 'l) server_message list \<times> SocketAddr) option"
where
  "server_receive_packets datagram rd on_evict es late fw ecs =
     (case receive_packets datagram rd on_evict es late fw (conn_transport ecs) of
        None \<Rightarrow> None
      | Some out \<Rightarrow> Some (map (server_task_message (conn_id ecs)) (ro_messages out), peer_addr ecs))"

section \<open>Systems\<close>

definition server_apply ::
  "('p, 'd, 'l) server_message \<Rightarrow> ('q, 'c, 'h, 'k, 'ts, ('p, 'd, 'l) server_event) endpoint_world
     \<Rightarrow> ('q, 'c, 'h, 'k, 'ts, ('p, 'd, 'l) server_event) endpoint_world"
where
  "server_apply m w =
     (case m of
        SEstablished addr i \<Rightarrow>
          (let w1 = w\<lparr>registry := server_register i (registry w)\<rparr>;
               w2 = upd_conn i mark_published w1
           in trigger (NewConnectionEvent addr i) w2)
      | SStreamPacket pe \<Rightarrow> trigger (SPacketEvent pe) w
      | SClosed err i \<Rightarrow>
          (let w1 = w\<lparr>registry := server_remove_connection i (registry w)\<rparr>
           in trigger (SDisconnectionEvent err i) w1))"

definition server_incoming_system ::
  "(('p, 'd, 'l) server_message, 'inc) mpsc \<Rightarrow> NetworkSettings option \<Rightarrow> NetworkQueueSettings option \<Rightarrow> 'inc
     \<Rightarrow> ('q, 'c, 'h, 'k, 'ts, ('p, 'd, 'l) server_event) endpoint_world
     \<Rightarrow> 'inc \<times> ('q, 'c, 'h, 'k, 'ts, ('p, 'd, 'l) server_event) endpoint_world"
where
  "server_incoming_system MI settings qs rx w =
     (let budget = events_per_frame (resolve_queues settings qs) in
      case drain_messages MI budget rx of (ms, rx') \<Rightarrow> (rx', fold server_apply ms w))"

definition server_receive_datagram_packets ::
  "('k, 'ts) tokens \<Rightarrow> (QueueDropReason \<Rightarrow> 'h \<Rightarrow> 'h) \<Rightarrow> NetworkSettings option \<Rightarrow> NetworkQueueSettings option
     \<Rightarrow> 'p PacketReceiveEvent Shared \<Rightarrow> ('q, 'c, 'h, 'k, 'ts, ('p, 'd, 'l) server_event) endpoint_world
     \<Rightarrow> 'p PacketReceiveEvent Shared \<times> ('q, 'c, 'h, 'k, 'ts, ('p, 'd, 'l) server_event) endpoint_world"
where
  "server_receive_datagram_packets T rd settings qs sh w =
     (let budget = events_per_frame (resolve_queues settings qs) in
      datagram_frame T rd SPacketEvent budget sh w)"

text \<open>Successive frames of the message system.\<close>

fun server_frames ::
  "(('p, 'd, 'l) server_message, 'inc) mpsc \<Rightarrow> NetworkSettings option \<Rightarrow> NetworkQueueSettings option \<Rightarrow> nat \<Rightarrow> 'inc
     \<Rightarrow> ('q, 'c, 'h, 'k, 'ts, ('p, 'd, 'l) server_event) endpoint_world
     \<Rightarrow> 'inc \<times> ('q, 'c, 'h, 'k, 'ts, ('p, 'd, 'l) server_event) endpoint_world"
where
  "server_frames MI settings qs 0 rx w = (rx, w)"
| "server_frames MI settings qs (Suc n) rx w =
     (case server_incoming_system MI settings qs rx w of
        (rx', w') \<Rightarrow> server_frames MI settings qs n rx' w')"

section \<open>The accept loop\<close>

lemma tasks_mset_remove:
  assumes "n < length xs"
  shows "mset (take n xs @ drop (Suc n) xs) = mset xs - {#xs ! n#}" "xs ! n \<in># mset xs"
proof -
  have "mset xs = mset (take n xs @ xs ! n # drop (Suc n) xs)"
    using assms by (simp only: id_take_nth_drop [symmetric])
  then show "mset (take n xs @ drop (Suc n) xs) = mset xs - {#xs ! n#}" by simp
  show "xs ! n \<in># mset xs" using assms by simp
qed

lemma accept_result_permits:
  assumes "sem_laws Sm avail" and "length (al_tasks s) + avail (al_pending s) = n"
  shows "length (al_tasks (accept_result Sm L d a r s)) + avail (al_pending (accept_result Sm L d a r s)) = n"
  using assms(2)
  by (auto simp: accept_result_def dest!: sem_acquire [OF assms(1)] split: sum.splits prod.splits bool.splits)

lemma accept_step_permits:
  assumes "sem_laws Sm avail" and "length (al_tasks s) + avail (al_pending s) = n"
  shows "length (al_tasks (accept_step Sm L d a ev s)) + avail (al_pending (accept_step Sm L d a ev s)) = n"
proof (cases ev)
  case (AAccept e)
  then show ?thesis
    using assms accept_result_permits [OF assms(1), where s = "s\<lparr>al_listener := li\<rparr>" and n = n for li]
    by (auto simp: accept_step_def split: prod.splits poll.splits)
qed (use assms in \<open>auto simp: accept_step_def sem_release_avail [OF assms(1)]\<close>)

lemma accept_run_permits:
  assumes "sem_laws Sm avail" and "length (al_tasks s) + avail (al_pending s) = n"
  shows "length (al_tasks (fold (accept_step Sm L d a) evs s))
     + avail (al_pending (fold (accept_step Sm L d a) evs s)) = n"
  using assms(2) by (induction evs arbitrary: s) (auto intro!: accept_step_permits [OF assms(1)])

text \<open>
  The contract of a protocol's listener, by a predicate on its state and the streams that are still
  alive: the server relies on every operation keeping it.
\<close>

locale server_listener =
  fixes L :: "('li, 's, 'e) Listener"
    and ok :: "'li \<Rightarrow> 's list \<Rightarrow> bool"
    and is_open :: "'li \<Rightarrow> bool"
  assumes accept_ok: "ok li live \<Longrightarrow> is_open li \<Longrightarrow> li_accept L e li = (r, li') \<Longrightarrow>
      is_open li' \<and> (case r of Ready (Inr st) \<Rightarrow> ok li' (st # live) | _ \<Rightarrow> ok li' live)"
    and drop_stream_ok: "ok li live \<Longrightarrow> st \<in> set live \<Longrightarrow> ok (li_drop_stream L st li) (remove1 st live)"
    and drop_stream_open: "is_open (li_drop_stream L st li) = is_open li"
    and handle_disconnection_ok: "ok li live \<Longrightarrow> is_open li \<Longrightarrow>
      ok (li_handle_disconnection L addr li) live \<and> is_open (li_handle_disconnection L addr li)"
    and drop_ok: "ok li live \<Longrightarrow> is_open li \<Longrightarrow> ok (li_drop L li) live"
begin

definition loop_ok :: "('li, 'sm, 's) accept_loop \<Rightarrow> bool" where
  "loop_ok s \<longleftrightarrow> (al_running s \<longrightarrow> is_open (al_listener s)) \<and>
     (\<exists>live. ok (al_listener s) live \<and> mset (al_tasks s) \<subseteq># mset live)"

lemma loop_okI:
  "ok (al_listener s) live \<Longrightarrow> mset (al_tasks s) \<subseteq># mset live \<Longrightarrow>
   (al_running s \<Longrightarrow> is_open (al_listener s)) \<Longrightarrow> loop_ok s"
  unfolding loop_ok_def by blast

lemma drop_stream_loop:
  assumes "ok (al_listener s) live" and "mset (al_tasks s) + {#st#} \<subseteq># mset live"
    and "al_running s \<Longrightarrow> is_open (al_listener s)"
  shows "loop_ok (s\<lparr>al_pending := sm, al_listener := li_drop_stream L st (al_listener s)\<rparr>)"
proof (rule loop_okI)
  have st: "st \<in> set live" using assms(2) by (metis in_multiset_in_set mset_subset_eqD union_single_eq_member add.commute add_mset_add_single)
  show "ok (al_listener (s\<lparr>al_pending := sm, al_listener := li_drop_stream L st (al_listener s)\<rparr>)) (remove1 st live)"
    using drop_stream_ok [OF assms(1) st] by simp
  show "mset (al_tasks (s\<lparr>al_pending := sm, al_listener := li_drop_stream L st (al_listener s)\<rparr>)) \<subseteq># mset (remove1 st live)"
    using assms(2) by (simp add: insert_subset_eq_iff)
qed (use assms(3) drop_stream_open in auto)

lemma accept_result_ok:
  assumes "is_open (al_listener s)"
    and "case r of Inr st \<Rightarrow> ok (al_listener s) (st # live) | Inl _ \<Rightarrow> ok (al_listener s) live"
    and "mset (al_tasks s) \<subseteq># mset live"
  shows "loop_ok (accept_result Sm L d a r s)"
proof (cases r)
  case (Inl err)
  then show ?thesis
    using assms drop_ok by (auto simp: accept_result_def intro!: loop_okI [where live = live])
next
  case (Inr st)
  obtain b sm where sm: "sem_try_acquire Sm (al_pending s) = (b, sm)" by fastforce
  have live: "ok (al_listener s) (st # live)" using assms(2) Inr by simp
  show ?thesis
  proof (cases b)
    case True
    then show ?thesis
      using sm Inr assms(1,3) live by (auto simp: accept_result_def intro!: loop_okI [where live = "st # live"])
  next
    case False
    then show ?thesis
      using sm Inr drop_stream_loop [OF live, of st sm] assms(1,3) by (simp add: accept_result_def)
  qed
qed

lemma accept_step_ok:
  assumes "loop_ok s"
  shows "loop_ok (accept_step Sm L d a ev s)"
proof -
  obtain live where live: "ok (al_listener s) live" "mset (al_tasks s) \<subseteq># mset live"
    and o: "al_running s \<Longrightarrow> is_open (al_listener s)" using assms unfolding loop_ok_def by blast
  show ?thesis
  proof (cases ev)
    case (AAccept e)
    obtain r li where r: "li_accept L e (al_listener s) = (r, li)" by fastforce
    show ?thesis
    proof (cases "al_running s")
      case True
      note acc = accept_ok [OF live(1) o [OF True] r]
      show ?thesis
      proof (cases r)
        case (Ready x)
        then show ?thesis
          using acc AAccept True r live(2) accept_result_ok [where s = "s\<lparr>al_listener := li\<rparr>" and r = x and live = live]
          by (auto simp: accept_step_def split: sum.splits)
      next
        case Pending
        then show ?thesis
          using acc AAccept True r live(2) by (auto simp: accept_step_def intro!: loop_okI [where live = live])
      qed
    qed (use assms AAccept in \<open>simp add: accept_step_def\<close>)
  next
    case (ADisconnect addr)
    then show ?thesis
      using assms live handle_disconnection_ok [OF live(1)] o
      by (auto simp: accept_step_def intro!: loop_okI [where live = live])
  next
    case (AEstablishDone n handed)
    show ?thesis
    proof (cases "n < length (al_tasks s)")
      case True
      note rm = tasks_mset_remove [OF True]
      let ?s = "s\<lparr>al_tasks := take n (al_tasks s) @ drop (Suc n) (al_tasks s)\<rparr>"
      have sub: "mset (al_tasks ?s) + {#al_tasks s ! n#} \<subseteq># mset live"
        using live(2) rm by (simp del: mset_append add: insert_DiffM)
      show ?thesis
      proof (cases handed)
        case handed: True
        have "mset (al_tasks ?s) \<subseteq># mset live" using sub by (meson mset_subset_eq_add_left subset_mset.order_trans)
        then show ?thesis
          using handed True AEstablishDone live o by (auto simp: accept_step_def intro!: loop_okI [where live = live])
      next
        case False
        then show ?thesis
          using True AEstablishDone drop_stream_loop [of ?s live "al_tasks s ! n" "sem_release Sm (al_pending s)"]
            live(1) o sub by (simp add: accept_step_def)
      qed
    qed (use assms AEstablishDone in \<open>simp add: accept_step_def\<close>)
  qed
qed

lemma accept_run_ok: "loop_ok s \<Longrightarrow> loop_ok (fold (accept_step Sm L d a) evs s)"
  by (induction evs arbitrary: s) (auto intro: accept_step_ok)

end

section \<open>The UDP listener below the server\<close>

definition udp_server_listener ::
  "('k, 'ts) tokens \<Rightarrow> 'sm semaphore
     \<Rightarrow> (('k, 'ts, 'sm) UdpNetworkListener, PeerRegistration, ((io_error + byte list \<times> SocketAddr) \<times> instant) list) Listener"
where
  "udp_server_listener T Sm =
     \<lparr>li_accept = udp_accept T Sm, li_handle_disconnection = (\<lambda>_ w. w),
      li_drop_stream = registration_drop T Sm, li_drop = listener_drop T\<rparr>"

lemma udp_alive [simp]:
  "alive (snd (dispatch T Sm bs addr at w)) = alive w" "alive (registration_drop T Sm reg w) = alive w"
  by (auto simp: dispatch_def dispatch_new_def registration_drop_def Let_def
      split: option.split prod.split sum.split bool.split)

lemma udp_accept_reach:
  assumes "udp_reach T Sm mp o' w live" "alive w" and "udp_accept T Sm es w = (r, w')"
  shows "alive w' \<and> (case r of Ready (Inr reg) \<Rightarrow> udp_reach T Sm mp o' w' (reg # live) | _ \<Rightarrow> udp_reach T Sm mp o' w' live)"
  using assms
proof (induction T Sm es w rule: udp_accept.induct)
  case (3 T Sm bs addr t rs w)
  obtain x v where d: "dispatch T Sm bs addr t w = (x, v)" by fastforce
  have v: "alive v" using udp_alive(1) [of T Sm bs addr t w] d 3(3) by simp
  have step: "udp_reach T Sm mp o' v (case x of None \<Rightarrow> live | Some reg \<Rightarrow> reg # live)"
    by (rule udp_reach.stepped [OF 3(2) udp_step.dispatched [OF 3(3) d]])
  then show ?case using 3 d v by (cases x) (auto split: if_splits)
qed (auto split: if_splits)

interpretation udp_srv: server_listener "udp_server_listener T Sm" "udp_reach T Sm mp o'" alive for T Sm mp o'
proof (unfold_locales, goal_cases)
  case (1 li live e r li')
  then show ?case using udp_accept_reach [of T Sm mp o' li live e r li'] by (simp add: udp_server_listener_def)
next
  case (2 li live st)
  then show ?case
    using udp_reach.stepped [OF 2(1) udp_step.registration_dropped] by (simp add: udp_server_listener_def)
next
  case (3 st li)
  show ?case by (simp add: udp_server_listener_def)
next
  case (4 li live addr)
  then show ?case by (simp add: udp_server_listener_def)
next
  case (5 li live)
  then show ?case
    using udp_reach.stepped [OF 5(1) udp_step.listener_dropped] by (simp add: udp_server_listener_def)
qed

section \<open>The registry contract\<close>

fun server_established :: "('p, 'd, 'l) server_message \<Rightarrow> ConnectionId option" where
  "server_established (SEstablished _ i) = Some i" | "server_established _ = None"

fun server_closed :: "('p, 'd, 'l) server_message \<Rightarrow> ConnectionId option" where
  "server_closed (SClosed _ i) = Some i" | "server_closed _ = None"

fun server_event_of :: "('p, 'd, 'l) server_message \<Rightarrow> ('p, 'd, 'l) server_event" where
  "server_event_of (SStreamPacket pe) = SPacketEvent pe"
| "server_event_of (SEstablished a i) = NewConnectionEvent a i"
| "server_event_of (SClosed e i) = SDisconnectionEvent e i"

lemma server_apply_registry:
  "registry (server_apply m w) =
     (case server_established m of
        Some i \<Rightarrow> registry w @ [i]
      | None \<Rightarrow> (case server_closed m of Some i \<Rightarrow> filter (\<lambda>j. j \<noteq> i) (registry w) | None \<Rightarrow> registry w))"
  by (cases m) (auto simp: server_apply_def server_register_def server_remove_connection_def Let_def)

interpretation server_reg: connection_registry server_apply registry server_established server_closed
proof (unfold_locales, goal_cases)
  case (1 m w)
  show ?case by (rule server_apply_registry)
next
  case (2 m i)
  then show ?case by (cases m) auto
qed

lemma server_apply_published:
  "world_published (server_apply m w) i \<longleftrightarrow>
     world_published w i \<or> server_established m = Some i \<and> conns w i \<noteq> None"
  by (cases m) (auto simp: server_apply_def Let_def world_published_def
      upd_conn_def trigger_def mark_published_def is_published_def split: option.splits)

lemma server_apply_conns: "conns (server_apply m w) i = None \<longleftrightarrow> conns w i = None"
  by (cases m) (auto simp: server_apply_def Let_def upd_conn_def trigger_def)

lemma server_published_iff:
  "world_published (fold server_apply ms w) i \<longleftrightarrow>
     world_published w i \<or> Some i \<in> server_established ` set ms \<and> conns w i \<noteq> None"
  by (induction ms arbitrary: w) (auto simp: server_apply_published server_apply_conns simp del: not_None_eq)

lemma server_apply_triggered [simp]: "triggered (server_apply m w) = triggered w @ [server_event_of m]"
  by (cases m) (simp_all add: server_apply_def Let_def)

lemma server_fold_triggered: "triggered (fold server_apply ms w) = triggered w @ map server_event_of ms"
  by (induction ms arbitrary: w) simp_all

lemma server_system_fifo:
  assumes "mpsc_laws MI pend"
  shows "\<exists>rx'. server_incoming_system MI settings qs rx w =
       (rx', fold server_apply (take (events_per_frame (resolve_queues settings qs)) (pend rx)) w)
     \<and> pend rx' = drop (events_per_frame (resolve_queues settings qs)) (pend rx)"
  using drain_messages_fifo [OF assms, of "events_per_frame (resolve_queues settings qs)" rx]
  by (auto simp: server_incoming_system_def)

lemma server_frames_fifo:
  assumes "mpsc_laws MI pend"
  shows "\<exists>rx'. server_frames MI settings qs n rx w =
       (rx', fold server_apply (take (n * events_per_frame (resolve_queues settings qs)) (pend rx)) w)
     \<and> pend rx' = drop (n * events_per_frame (resolve_queues settings qs)) (pend rx)"
proof (induction n arbitrary: rx w)
  case (Suc n)
  let ?b = "events_per_frame (resolve_queues settings qs)"
  obtain rx1 where 1: "server_incoming_system MI settings qs rx w = (rx1, fold server_apply (take ?b (pend rx)) w)"
    "pend rx1 = drop ?b (pend rx)" using server_system_fifo [OF assms] by blast
  let ?w = "fold server_apply (take ?b (pend rx)) w"
  obtain rx2 where 2: "server_frames MI settings qs n rx1 ?w = (rx2, fold server_apply (take (n * ?b) (pend rx1)) ?w)"
    "pend rx2 = drop (n * ?b) (pend rx1)" using Suc by blast
  have "take (?b + n * ?b) (pend rx) = take ?b (pend rx) @ take (n * ?b) (drop ?b (pend rx))"
    by (rule take_add)
  then show ?case using 1 2 by (simp add: add.commute)
qed simp

section \<open>Properties\<close>


definition demo_tcp_listener :: "(nat, nat, io_error + nat) Listener" where
  "demo_tcp_listener =
     \<lparr>li_accept = (\<lambda>e li. (Ready e, li)), li_handle_disconnection = (\<lambda>_ li. li),
      li_drop_stream = (\<lambda>_ li. Suc li), li_drop = id\<rparr>"

definition demo_adapter :: "(nat, nat, unit, unit, unit) SerializerAdapter" where
  "demo_adapter = ReadOnly \<lparr>ro_serialize = (\<lambda>_ _. Some (Inr [])), ro_deserialize = (\<lambda>_ _. Some (Inr 0))\<rparr> ()"


text \<open>
  (C25) The UDP listener stays consistent below the server. Starting from a freshly opened listener,
  after any run of the accept loop, rejected streams, failed establishments and the end of the loop
  included, the listener is in a state its own invariant covers, and every unfinished establishment
  holds one of the live registrations; so the peers, slots and raw queues keep their limits.
\<close>

theorem server_udp_listener_consistent:
  assumes "listener_from_socket mp Sm ts peer local o' = Inr w"
    and "accept_start Sm qs (Inr w) = Some s0" and "sem_laws Sm avail"
    and "receive_queue_capacity o' \<le> usize_max" "receive_queue_bytes o' \<le> usize_max"
  shows "\<exists>live. udp_reach T Sm mp o' (al_listener (fold (accept_step Sm (udp_server_listener T Sm) d a) evs s0)) live
     \<and> mset (al_tasks (fold (accept_step Sm (udp_server_listener T Sm) d a) evs s0)) \<subseteq># mset live
     \<and> listener_inv avail (al_listener (fold (accept_step Sm (udp_server_listener T Sm) d a) evs s0)) live"
proof -
  have s0: "al_listener s0 = w" "al_tasks s0 = []" using assms(2) by (auto simp: accept_start_def)
  have "alive w"
    using assms(1) by (auto simp: listener_from_socket_def split: sum.splits if_splits)
  then have "udp_srv.loop_ok T Sm mp o' s0"
    using udp_reach.opened [OF assms(1)] s0 by (intro udp_srv.loop_okI [where live = "[]"]) auto
  from udp_srv.accept_run_ok [OF this, of Sm d a evs] show ?thesis
    using udp_reach_inv [OF _ assms(3-5)] unfolding udp_srv.loop_ok_def by blast
qed

theorem server_udp_listener_consistent_witness:
  "\<exists>live s. fold (accept_step nat_semaphore (udp_server_listener demo_tokens nat_semaphore) True
         demo_adapter)
         [AAccept [(Inr ([1, 2], V4 1 1), 5)]]
         \<lparr>al_listener = demo_listener, al_pending = 1, al_warned = False, al_tasks = [], al_running = True\<rparr> = s
     \<and> listener_inv id (al_listener s) live \<and> mset (al_tasks s) \<subseteq># mset live
     \<and> al_tasks s = [PeerRegistration (V4 1 1) 0]"
proof -
  let ?qs = "default_queue_settings\<lparr>receive_capacity := 1\<rparr>"
  let ?a = demo_adapter
  let ?L = "udp_server_listener demo_tokens nat_semaphore"
  let ?st = "\<lparr>al_listener = demo_listener, al_pending = 1, al_warned = False, al_tasks = [], al_running = True\<rparr>"
  let ?s = "fold (accept_step nat_semaphore ?L True ?a) [AAccept [(Inr ([1, 2], V4 1 1), 5)]] ?st"
  have st: "accept_start nat_semaphore ?qs (Inr demo_listener) = Some ?st"
    by (simp add: accept_start_def nat_semaphore_def)
  have l: "receive_queue_capacity demo_udp_options \<le> usize_max" "receive_queue_bytes demo_udp_options \<le> usize_max"
    by (simp_all add: demo_udp_options_def default_udp_options_def usize_max_def)
  obtain w where d: "dispatch demo_tokens nat_semaphore [1, 2] (V4 1 1) 5 demo_listener
        = (Some (PeerRegistration (V4 1 1) 0), w)"
    using demo_dispatch by blast
  have "al_tasks ?s = [PeerRegistration (V4 1 1) 0]"
    using d by (simp add: accept_step_def accept_result_def udp_server_listener_def BUFFER_SIZE_def nat_semaphore_def)
  then show ?thesis
    using server_udp_listener_consistent [OF demo_listener_opened st nat_semaphore_laws l,
        of demo_tokens True ?a "[AAccept [(Inr ([1, 2], V4 1 1), 5)]]"]
    by blast
qed

text \<open>
  The server's view of its connections. Starting without connections, after any sequence of
  lifecycle messages a connection is listed exactly if it was established and not closed since, in
  order of establishment without duplicates when identifiers are fresh, and every listed connection
  is published.
\<close>

theorem server_registry_correct:
  assumes "registry w = []" and "distinct (List.map_filter server_established ms)"
    and "\<And>m i. m \<in> set ms \<Longrightarrow> server_established m = Some i \<Longrightarrow> conns w i \<noteq> None"
  shows "(i \<in> set (registry (fold server_apply ms w)) \<longleftrightarrow>
            (\<exists>pre m post. ms = pre @ m # post \<and> server_established m = Some i
               \<and> (\<forall>x \<in> set post. server_closed x \<noteq> Some i)))
     \<and> distinct (registry (fold server_apply ms w))
     \<and> (i \<in> set (registry (fold server_apply ms w)) \<longrightarrow> world_published (fold server_apply ms w) i)"
proof -
  have r: "i \<in> set (registry (fold server_apply ms w)) \<longleftrightarrow>
      (\<exists>pre m post. ms = pre @ m # post \<and> server_established m = Some i
         \<and> (\<forall>x \<in> set post. server_closed x \<noteq> Some i))"
    using server_reg.registered_iff [of i ms w] assms(1) by simp
  have "world_published (fold server_apply ms w) i" if mem: "i \<in> set (registry (fold server_apply ms w))"
  proof -
    obtain pre m post where "ms = pre @ m # post" "server_established m = Some i" using mem r by blast
    then have m: "m \<in> set ms" "server_established m = Some i" by simp_all
    then have "Some i \<in> server_established ` set ms" by (metis image_eqI)
    then show ?thesis using assms(3) [OF m] by (simp add: server_published_iff)
  qed
  moreover have "distinct (registry (fold server_apply ms w))"
    using assms(1,2) by (intro server_reg.registry_distinct) simp
  ultimately show ?thesis using r by blast
qed

definition demo_server_world ::
  "(char, char list_chan, UdpConnectionHandle, demo_token, nat \<times> demo_token list, (nat, unit, unit) server_event) endpoint_world"
where
  "demo_server_world =
     \<lparr>conns = (\<lambda>i. Some (demo_conn\<lparr>conn_id := i, published := False, disconnect_task := (i, [])\<rparr>)),
      registry = [], current = None, world_tokens = (9, [(2, [])]), triggered = []\<rparr>"

theorem server_registry_correct_witness:
  "5 \<in> set (registry (fold server_apply [SEstablished (V4 0 1) 5, SEstablished (V4 0 2) 6,
      SClosed PacketTooBig 6] demo_server_world))
   \<and> 6 \<notin> set (registry (fold server_apply [SEstablished (V4 0 1) 5, SEstablished (V4 0 2) 6,
      SClosed PacketTooBig 6] demo_server_world))
   \<and> world_published (fold server_apply [SEstablished (V4 0 1) 5, SEstablished (V4 0 2) 6,
      SClosed PacketTooBig 6] demo_server_world) 5"
proof -
  let ?ms = "[SEstablished (V4 0 1) 5, SEstablished (V4 0 2) 6, SClosed PacketTooBig 6]
    :: (nat, unit, unit) server_message list"
  have i: "registry demo_server_world = []" "distinct (List.map_filter server_established ?ms)"
    and k: "\<And>m i. m \<in> set ?ms \<Longrightarrow> server_established m = Some i \<Longrightarrow> conns demo_server_world i \<noteq> None"
    by (simp_all add: demo_server_world_def map_filter_simps)
  have r: "registry (fold server_apply ?ms demo_server_world) = [5]"
    by (simp add: server_apply_registry demo_server_world_def)
  have "5 \<in> set (registry (fold server_apply ?ms demo_server_world)) \<longrightarrow>
      world_published (fold server_apply ?ms demo_server_world) 5"
    using server_registry_correct [OF i, where i = 5] k by blast
  then show ?thesis using r by simp
qed

section \<open>Sessions\<close>

fun message_conn :: "('p, 'd, 'l) server_message \<Rightarrow> ConnectionId" where
  "message_conn (SStreamPacket pe) = pe_connection pe"
| "message_conn (SEstablished _ i) = i"
| "message_conn (SClosed _ i) = i"

fun event_conn :: "('p, 'd, 'l) server_event \<Rightarrow> ConnectionId" where
  "event_conn (SPacketEvent pe) = pe_connection pe"
| "event_conn (NewConnectionEvent _ i) = i"
| "event_conn (SDisconnectionEvent _ i) = i"

lemma event_conn_of [simp]: "event_conn (server_event_of m) = message_conn m"
  by (cases m) simp_all

lemma filter_events:
  "filter (\<lambda>e. event_conn e = i) (map server_event_of ms) = map server_event_of (filter (\<lambda>m. message_conn m = i) ms)"
  by (induction ms) simp_all

lemma receive_packets_messages:
  assumes "receive_packets False rd on_evict es late fw h = Some out"
  shows "\<exists>ps err. ro_messages out = map TmPacket ps @ [TmClosed err]"
proof -
  obtain r msgs fw' h' where l: "receive_loop False rd on_evict es fw h = (r, msgs, fw', h')"
    by (metis prod_cases4)
  then obtain err where r: "r = Some err" using assms by (cases r) (simp_all add: receive_packets_def)
  show ?thesis
    using receive_loop_stops [OF l [unfolded r]] assms l r by (auto simp: receive_packets_def Let_def)
qed

text \<open>
  (C3) The life of a stream connection as observers see it. Take any interleaving, in the lifecycle
  channel, of the messages of one connection (its establishment and what its receive task sent) with
  those of others. After any number of frames the events of that connection are a prefix of: one new
  connection with its peer address, the packets its task sent, in order, and one disconnection;
  and once the frames' budgets cover the channel they are exactly that.
\<close>

theorem server_session_events:
  assumes "mpsc_laws MI pend"
    and "establish M N True True False tok st sr ls qs limits counter = (m0, ecs, Some raw, counter')"
    and "server_receive_packets False rd on_evict es late fw ecs = Some (ms, addr)"
    and "filter (\<lambda>m. message_conn m = conn_id ecs) (pend rx) = m0 @ ms"
    and "triggered w = []"
  shows "\<exists>ps err. ms = map SStreamPacket ps @ [SClosed err (raw_id raw)] \<and>
      (let session = NewConnectionEvent (ns_peer_addr N st) (raw_id raw)
           # map SPacketEvent ps @ [SDisconnectionEvent err (raw_id raw)]
       in \<forall>n. prefix (filter (\<lambda>e. event_conn e = raw_id raw)
               (triggered (snd (server_frames MI settings gs n rx w)))) session
          \<and> (length (pend rx) \<le> n * events_per_frame (resolve_queues settings gs) \<longrightarrow>
               filter (\<lambda>e. event_conn e = raw_id raw)
                 (triggered (snd (server_frames MI settings gs n rx w))) = session))"
proof -
  have ecs: "conn_id ecs = raw_id raw" "m0 = [SEstablished (ns_peer_addr N st) (raw_id raw)]"
    using assms(2)
    by (auto simp: establish_def ecs_connection_def with_limits_def Let_def split: prod.splits)
  obtain out where out: "receive_packets False rd on_evict es late fw (conn_transport ecs) = Some out"
    and ms: "ms = map (server_task_message (conn_id ecs)) (ro_messages out)"
    using assms(3) by (auto simp: server_receive_packets_def split: option.splits)
  obtain ps err where ro: "ro_messages out = map TmPacket ps @ [TmClosed err]"
    using receive_packets_messages [OF out] by blast
  then have msgs: "ms = map SStreamPacket ps @ [SClosed err (raw_id raw)]"
    using ecs ms by (simp add: server_task_message_def)
  from ro have all: "map server_event_of (m0 @ ms) = NewConnectionEvent (ns_peer_addr N st) (raw_id raw)
      # map SPacketEvent ps @ [SDisconnectionEvent err (raw_id raw)]" (is "_ = ?session")
    using ecs ms by (simp add: server_task_message_def)
  have frames: "filter (\<lambda>e. event_conn e = raw_id raw) (triggered (snd (server_frames MI settings gs n rx w)))
      = map server_event_of (filter (\<lambda>m. message_conn m = conn_id ecs)
          (take (n * events_per_frame (resolve_queues settings gs)) (pend rx)))" for n
    using server_frames_fifo [OF assms(1), of settings gs n rx w] assms(5) ecs(1)
    by (auto simp: server_fold_triggered filter_events)
  have "prefix (filter (\<lambda>m. message_conn m = conn_id ecs) (take k (pend rx))) (m0 @ ms)" for k
    unfolding assms(4) [symmetric] by (intro filter_mono_prefix take_is_prefix)
  then have "prefix (filter (\<lambda>e. event_conn e = raw_id raw)
      (triggered (snd (server_frames MI settings gs n rx w)))) ?session" for n
    unfolding frames all [symmetric] by (rule map_mono_prefix)
  moreover have "filter (\<lambda>e. event_conn e = raw_id raw)
      (triggered (snd (server_frames MI settings gs n rx w))) = ?session"
    if "length (pend rx) \<le> n * events_per_frame (resolve_queues settings gs)" for n
    unfolding frames all [symmetric] using that assms(4) by simp
  ultimately show ?thesis using msgs unfolding Let_def by blast
qed

definition demo_packet_env :: "nat \<Rightarrow> (nat PacketReceiveEvent, unit, unit) recv_env" where
  "demo_packet_env x = \<lparr>re_send_error = None, re_cancelled = False,
     re_read = Inr \<lparr>pe_connection = 5, pe_packet = x, pe_received_at = 0\<rparr>, re_fwd_cancelled = False,
     re_incoming_ok = True\<rparr>"

theorem server_session_events_witness:
  "\<exists>m0 ecs raw counter' ms. establish list_mpsc demo_stream True True False ((1, []) :: demo_token) 2 () ()
       default_queue_settings 64 5 = (m0, ecs :: (char, char list_chan, UdpConnectionHandle, demo_token) EcsConnection,
         Some raw, counter')
     \<and> server_receive_packets False record_drop (\<lambda>_ h. h) [demo_packet_env 3, (demo_packet_env 4)\<lparr>re_cancelled := True\<rparr>]
         None \<lparr>fwd_sender = lossy_channel 1 9 DropNewest, fwd_datagram = False\<rparr> ecs = Some (ms, V4 0 2)
     \<and> prefix (filter (\<lambda>e. event_conn e = raw_id raw) (triggered (snd (server_frames list_mpsc None
           (Some (default_queue_settings\<lparr>events_per_frame := 1\<rparr>)) 2
           \<lparr>lc_items = m0 @ SClosed PacketTooBig 9 # ms, lc_cap = 4, lc_closed = False\<rparr> demo_server_world))))
         [NewConnectionEvent (V4 0 2) 5, SPacketEvent \<lparr>pe_connection = 5, pe_packet = 3, pe_received_at = 0\<rparr>,
          SDisconnectionEvent IntentionalDisconnection 5]"
proof -
  let ?p = "\<lparr>pe_connection = 5, pe_packet = 3, pe_received_at = 0\<rparr> :: nat PacketReceiveEvent"
  let ?m = "[SEstablished (V4 0 2) 5] :: (nat, unit, unit) server_message list"
  let ?ms = "[SStreamPacket ?p, SClosed IntentionalDisconnection 5] :: (nat, unit, unit) server_message list"
  let ?rx = "\<lparr>lc_items = ?m @ SClosed PacketTooBig 9 # ?ms, lc_cap = 4, lc_closed = False\<rparr>"
  let ?gs = "Some (default_queue_settings\<lparr>events_per_frame := 1\<rparr>)"
  obtain ecs :: "(char, char list_chan, UdpConnectionHandle, demo_token) EcsConnection" and raw c
    where e: "establish list_mpsc demo_stream True True False ((1, []) :: demo_token) 2 () ()
       default_queue_settings 64 5 = (?m, ecs, Some raw, c)"
      and ids: "conn_id ecs = 5" "raw_id raw = 5" "peer_addr ecs = V4 0 2"
    by (simp add: establish_def ecs_connection_def with_limits_def id_next_def demo_stream_def Let_def
        outgoing_channel_def receiver_from_def)
  have r: "server_receive_packets False record_drop (\<lambda>_ h. h)
      [demo_packet_env 3, (demo_packet_env 4)\<lparr>re_cancelled := True\<rparr>] None
      \<lparr>fwd_sender = lossy_channel 1 9 DropNewest, fwd_datagram = False\<rparr> ecs = Some (?ms, V4 0 2)"
    using ids by (simp add: server_receive_packets_def receive_packets_def demo_packet_env_def server_task_message_def)
  have f: "filter (\<lambda>m. message_conn m = conn_id ecs) (lc_items ?rx) = ?m @ ?ms"
    and t: "triggered demo_server_world = []"
    using ids by (simp_all add: demo_server_world_def)
  have "\<exists>ps err. \<forall>n. prefix (filter (\<lambda>e. event_conn e = 5)
        (triggered (snd (server_frames list_mpsc None ?gs n ?rx demo_server_world))))
        (NewConnectionEvent (V4 0 2) 5 # map SPacketEvent ps @ [SDisconnectionEvent err 5])
      \<and> (Suc (Suc (Suc (Suc 0))) \<le> n \<longrightarrow> filter (\<lambda>e. event_conn e = 5)
        (triggered (snd (server_frames list_mpsc None ?gs n ?rx demo_server_world)))
        = NewConnectionEvent (V4 0 2) 5 # map SPacketEvent ps @ [SDisconnectionEvent err 5])"
    (is "\<exists>ps err. ?session ps err")
    using server_session_events [OF list_mpsc_laws e r f t, of None ?gs] ids
    by (simp add: Let_def resolve_queues_def demo_stream_def) blast
  then obtain ps err where s: "?session ps err" by blast
  have "filter (\<lambda>e. event_conn e = 5) (triggered (snd (server_frames list_mpsc None ?gs 4 ?rx demo_server_world)))
      = map server_event_of (?m @ ?ms)"
    using server_frames_fifo [OF list_mpsc_laws, of None ?gs 4 ?rx demo_server_world] t
    by (auto simp: server_fold_triggered resolve_queues_def)
  then have "NewConnectionEvent (V4 0 2) 5 # map SPacketEvent ps @ [SDisconnectionEvent err 5]
      = [NewConnectionEvent (V4 0 2) 5, SPacketEvent ?p, SDisconnectionEvent IntentionalDisconnection 5]"
    using s by simp
  then show ?thesis using e r ids s by auto
qed

text \<open>
  Delivery of datagrams to server ECS, as on the client: a frame takes the longest prefix, within
  its budget, of packets whose connection is published or cancelled, triggers those of live
  connections in order, counts those of cancelled ones as closed before delivery and leaves the rest
  queued; a frame never triggers a packet of a connection that no message has established.
\<close>

theorem server_datagram_delivery:
  assumes "\<And>i. \<not> world_published w i"
  shows "\<exists>sh' w'. server_receive_datagram_packets T rd settings qs sh (fold server_apply ms w) = (sh', w')
     \<and> (\<exists>ps. queue_contents sh = ps @ queue_contents sh'
          \<and> length ps \<le> events_per_frame (resolve_queues settings qs)
          \<and> (\<forall>pe rest. length ps < events_per_frame (resolve_queues settings qs) \<and> queue_contents sh' = pe # rest
               \<longrightarrow> \<not> world_published (fold server_apply ms w) (pe_connection pe) \<and> \<not> world_cancelled T (fold server_apply ms w) (pe_connection pe))
          \<and> triggered w' = triggered w @ map server_event_of ms @ map SPacketEvent
               (filter (\<lambda>pe. \<not> world_cancelled T (fold server_apply ms w) (pe_connection pe)) ps)
          \<and> (\<forall>pe. SPacketEvent pe \<in> set (drop (length (triggered w) + length ms) (triggered w')) \<longrightarrow>
               Some (pe_connection pe) \<in> server_established ` set ms)
          \<and> conns w' = conns (count_drops rd (map pe_connection
               (filter (\<lambda>pe. world_cancelled T (fold server_apply ms w) (pe_connection pe)) ps))
               (fold server_apply ms w)))"
proof -
  let ?n = "events_per_frame (resolve_queues settings qs)"
  let ?v = "fold server_apply ms w"
  let ?ps = "taken T ?v ?n (queue_contents sh)"
  let ?live = "filter (\<lambda>pe. \<not> world_cancelled T ?v (pe_connection pe)) ?ps"
  obtain sh' where f: "datagram_frame T rd SPacketEvent ?n sh ?v =
     (sh', (count_drops rd (map pe_connection (filter (\<lambda>pe. world_cancelled T ?v (pe_connection pe)) ?ps)) ?v)
           \<lparr>triggered := triggered ?v @ map SPacketEvent ?live\<rparr>)"
    and q: "queue_contents sh' = drop (length ?ps) (queue_contents sh)"
    using datagram_frame_eq by blast
  have "queue_contents sh = ?ps @ queue_contents sh'"
    using taken_props(1) [of T ?v ?n "queue_contents sh"] q by (metis append_eq_conv_conj prefix_def)
  moreover have "Some (pe_connection pe) \<in> server_established ` set ms" if "pe \<in> set ?live" for pe
    using that taken_props(3) [of pe T ?v ?n "queue_contents sh"] assms(1)
    by (simp add: eligible_def server_published_iff)
  moreover have "\<not> eligible T ?v pe" if "length ?ps < ?n" "queue_contents sh' = pe # rest" for pe rest
    using taken_maximal [OF that(1)] that(2) q by simp
  ultimately show ?thesis
    using f taken_props(2) [of T ?v ?n "queue_contents sh"]
    by (auto simp: server_receive_datagram_packets_def server_fold_triggered eligible_def intro!: exI [of _ ?ps])
qed

lemma demo_server_frame:
  "\<exists>sh' w'. server_receive_datagram_packets demo_tokens record_drop None None demo_datagrams
       (fold server_apply [SEstablished (V4 0 1) 5] demo_server_world) = (sh', w')
     \<and> triggered w' = [NewConnectionEvent (V4 0 1) 5, SPacketEvent (demo_packet 5)]
     \<and> queue_contents sh' = [demo_packet 6]"
  by (simp add: server_receive_datagram_packets_def datagram_frame_def resolve_queues_def default_queue_settings_def
      numeral_eq_Suc take_datagrams.simps demo_datagrams_def demo_packet_def server_apply_def Let_def demo_server_world_def
      try_recv_if_def world_published_def world_cancelled_def demo_tokens_def upd_conn_def trigger_def
      mark_published_def is_published_def server_register_def deliver_datagram_def ecs_record_drop_def
      queue_contents_def)

theorem server_datagram_delivery_witness:
  "\<exists>sh' w' ps. server_receive_datagram_packets demo_tokens record_drop None None demo_datagrams
       (fold server_apply [SEstablished (V4 0 1) 5] demo_server_world) = (sh', w')
     \<and> queue_contents demo_datagrams = ps @ queue_contents sh' \<and> queue_contents sh' = [demo_packet 6]
     \<and> triggered w' = [NewConnectionEvent (V4 0 1) 5, SPacketEvent (demo_packet 5)]"
proof -
  have "\<And>i. \<not> world_published demo_server_world i"
    by (simp add: demo_server_world_def world_published_def is_published_def)
  from server_datagram_delivery [OF this, of demo_tokens record_drop None None demo_datagrams
      "[SEstablished (V4 0 1) 5]"]
  obtain sh' w' ps where f: "server_receive_datagram_packets demo_tokens record_drop None None demo_datagrams
       (fold server_apply [SEstablished (V4 0 1) 5] demo_server_world) = (sh', w')"
    and q: "queue_contents demo_datagrams = ps @ queue_contents sh'" by blast
  have "triggered w' = [NewConnectionEvent (V4 0 1) 5, SPacketEvent (demo_packet 5)]"
    "queue_contents sh' = [demo_packet 6]"
    using demo_server_frame f by simp_all
  then show ?thesis using f q by blast
qed

end
