(* ===== verification/Connection_Life.thy ===== *)
theory Connection_Life
  imports Client_Endpoint Server_Endpoint "HOL-Library.Sublist"
begin

text \<open>
  The two tasks of a connection side by side: \<open>ConnectedTransport::run\<close> of \<^verbatim>\<open>src/src/client.rs\<close> and
  \<^verbatim>\<open>src/src/server.rs\<close>, which starts them, and their interleavings. The tasks share the connection's
  token, its transport handle and the oneshot through which the writer hands over its error. The
  reader is a state machine over the points at which it can be suspended; the writer is that of
  \<open>Conn_Tasks\<close>, whose fields \<open>task_cancelled\<close>, \<open>task_handle\<close> and \<open>send_error\<close> are the shared state. How the
  runtime takes the tasks and drops them at shutdown is the subject of \<open>Net_Runtime\<close>.
\<close>

section \<open>State\<close>

datatype ('p, 'd, 'l) reader_pc =
    Selecting
  | Forwarding 'p
  | Breaking "('d, 'l) ReceiveError"
  | Reporting "('d, 'l) ReceiveError"
  | Notifying
  | ReaderDone

record ('p, 'q, 'c, 'h, 'w, 'd, 'l) conn_tasks =
  ct_writer :: "('q, 'c, 'h, 'w) send_task"
  ct_reader :: "('p, 'd, 'l) reader_pc"
  ct_error_taken :: bool
  ct_ecs :: "('p, 'd, 'l) task_message list"
  ct_forwarder :: "'p PacketForwarder"
  ct_reader_closed :: bool
  ct_notified :: bool

text \<open>What the tasks of an endpoint have in common; only the server's reader notifies its listener.\<close>

record ('p, 'q, 'c, 'h, 'w, 'e) task_env =
  te_mpsc :: "('q, 'c) mpsc"
  te_record_drop :: "QueueDropReason \<Rightarrow> 'h \<Rightarrow> 'h"
  te_on_evict :: "'p \<Rightarrow> 'h \<Rightarrow> 'h"
  te_writer :: "'q \<Rightarrow> 'e \<Rightarrow> 'w \<Rightarrow> 'h \<Rightarrow> (io_error + unit) poll \<times> 'w \<times> 'h"
  te_datagram :: bool
  te_server :: bool

section \<open>Starting the tasks\<close>

text \<open>\<open>cancelled\<close> is the state of the token when the tasks start, \<open>q\<close> the connection's outgoing queue.\<close>

definition spawn_tasks ::
  "bool \<Rightarrow> bool \<Rightarrow> 'p Shared \<Rightarrow> ('q, 'c) OutgoingInner \<Rightarrow> 'w \<Rightarrow> ('q, 'c, 'h, 'k) EcsConnection
     \<Rightarrow> ('p, 'q, 'c, 'h, 'w, 'd, 'l) conn_tasks"
where
  "spawn_tasks datagram cancelled datagram_packets q write ecs =
     \<lparr>ct_writer = \<lparr>pc = Receiving, task_queue = q, task_handle = conn_transport ecs, task_writer = write,
                   task_cancelled = cancelled, send_error = None\<rparr>,
      ct_reader = Selecting, ct_error_taken = False, ct_ecs = [],
      ct_forwarder = \<lparr>fwd_sender = datagram_packets, fwd_datagram = datagram\<rparr>,
      ct_reader_closed = False, ct_notified = False\<rparr>"

definition client_run_tasks ::
  "('k, 'ts) tokens \<Rightarrow> ('s, 'h) NetworkStream \<Rightarrow> bool \<Rightarrow> 'p Shared \<Rightarrow> io_error + 'rh \<times> 'w \<Rightarrow> bool
     \<Rightarrow> ('s, 'z, 'ls, 'k) RawConnection \<Rightarrow> ('q, 'c, 'h, 'k) EcsConnection \<Rightarrow> ('q, 'c) OutgoingInner \<Rightarrow> 'ts
     \<Rightarrow> ('p, 'q, 'c, 'h, 'w, 'd, 'l) conn_tasks option \<times> ('p2, 'd, 'l) client_message list \<times> 'ts"
where
  "client_run_tasks T N datagram datagram_packets split inc_ok raw ecs q ts =
     (case client_run T N split inc_ok raw ts of
        (halves, msgs, ts') \<Rightarrow>
          (map_option (\<lambda>(read, write).
              spawn_tasks datagram (tok_is_cancelled T ts' (raw_disconnect_task raw)) datagram_packets q write ecs)
             halves, msgs, ts'))"

definition server_run_tasks ::
  "('k, 'ts) tokens \<Rightarrow> bool \<Rightarrow> 'p Shared \<Rightarrow> io_error + 'rh \<times> 'w \<Rightarrow> bool
     \<Rightarrow> ('s, 'z, 'ls, 'k) RawConnection \<Rightarrow> ('q, 'c, 'h, 'k) EcsConnection \<Rightarrow> ('q, 'c) OutgoingInner \<Rightarrow> 'ts
     \<Rightarrow> ('p, 'q, 'c, 'h, 'w, 'd, 'l) conn_tasks option \<times> ('p2, 'd, 'l) server_message list \<times> 'ts"
where
  "server_run_tasks T datagram datagram_packets split inc_ok raw ecs q ts =
     (case server_run T split inc_ok ecs ts of
        (halves, msgs, ts') \<Rightarrow>
          (map_option (\<lambda>(read, write).
              spawn_tasks datagram (tok_is_cancelled T ts' (raw_disconnect_task raw)) datagram_packets q write ecs)
             halves, msgs, ts'))"

section \<open>Steps\<close>

text \<open>The writer's error, as long as the reader has not taken it.\<close>

definition oneshot :: "('p, 'q, 'c, 'h, 'w, 'd, 'l) conn_tasks \<Rightarrow> io_error option" where
  "oneshot s = (if ct_error_taken s then None else send_error (ct_writer s))"

abbreviation cancelled :: "('p, 'q, 'c, 'h, 'w, 'd, 'l) conn_tasks \<Rightarrow> bool" where
  "cancelled s \<equiv> task_cancelled (ct_writer s)"

text \<open>The \<open>select!\<close> of the receive loop, with what the packet reader answers at this poll.\<close>

definition reader_select ::
  "('p, 'q, 'c, 'h, 'w, 'e) task_env \<Rightarrow> (('d, 'l) ReceiveError + 'p) poll
     \<Rightarrow> ('p, 'q, 'c, 'h, 'w, 'd, 'l) conn_tasks \<Rightarrow> ('p, 'q, 'c, 'h, 'w, 'd, 'l) conn_tasks"
where
  "reader_select E read s =
     (case oneshot s of
        Some err \<Rightarrow> s\<lparr>ct_reader := Breaking (Io err), ct_error_taken := True\<rparr>
      | None \<Rightarrow>
          if cancelled s then s\<lparr>ct_reader := Breaking IntentionalDisconnection\<rparr>
          else (case read of
                  Pending \<Rightarrow> s
                | Ready (Inl err) \<Rightarrow> s\<lparr>ct_reader := Breaking err\<rparr>
                | Ready (Inr p) \<Rightarrow>
                    if te_datagram E then
                      (case forward (te_record_drop E) (te_on_evict E) (cancelled s) p (ct_forwarder s)
                              (task_handle (ct_writer s)) of
                         (res, fw, h, _) \<Rightarrow>
                           s\<lparr>ct_forwarder := fw, ct_writer := (ct_writer s)\<lparr>task_handle := h\<rparr>,
                             ct_reader := (if res = Ready True then Selecting else Breaking IntentionalDisconnection)\<rparr>)
                    else s\<lparr>ct_reader := Forwarding p\<rparr>))"

text \<open>
  One poll of the reader: what the packet reader and the channel it sends to answer. A break out of
  the loop is a step of its own, since the writer can act between it and the last look at the oneshot.
\<close>

definition reader_poll ::
  "('p, 'q, 'c, 'h, 'w, 'e) task_env \<Rightarrow> (('d, 'l) ReceiveError + 'p) poll \<Rightarrow> bool poll
     \<Rightarrow> ('p, 'q, 'c, 'h, 'w, 'd, 'l) conn_tasks \<Rightarrow> ('p, 'q, 'c, 'h, 'w, 'd, 'l) conn_tasks"
where
  "reader_poll E read sent s =
     (case ct_reader s of
        Selecting \<Rightarrow> reader_select E read s
      | Forwarding p \<Rightarrow>
          if cancelled s then s\<lparr>ct_reader := Breaking IntentionalDisconnection\<rparr>
          else (case sent of
                  Pending \<Rightarrow> s
                | Ready True \<Rightarrow> s\<lparr>ct_ecs := ct_ecs s @ [TmPacket p], ct_reader := Selecting\<rparr>
                | Ready False \<Rightarrow> s\<lparr>ct_reader := Breaking IntentionalDisconnection\<rparr>)
      | Breaking err \<Rightarrow>
          s\<lparr>ct_reader := Reporting (case oneshot s of Some e \<Rightarrow> Io e | None \<Rightarrow> err),
            ct_error_taken := ct_error_taken s \<or> oneshot s \<noteq> None,
            ct_writer := (ct_writer s)\<lparr>task_cancelled := True\<rparr>,
            ct_reader_closed := True\<rparr>
      | Reporting err \<Rightarrow>
          (case sent of
             Pending \<Rightarrow> s
           | Ready ok \<Rightarrow> s\<lparr>ct_ecs := ct_ecs s @ (if ok then [TmClosed err] else []),
                           ct_reader := (if te_server E then Notifying else ReaderDone)\<rparr>)
      | Notifying \<Rightarrow>
          (case sent of Pending \<Rightarrow> s | Ready ok \<Rightarrow> s\<lparr>ct_notified := ok, ct_reader := ReaderDone\<rparr>)
      | ReaderDone \<Rightarrow> s)"

text \<open>
  A step of either task. \<open>LateWrite\<close> is a write that completes in a poll that found the token not
  cancelled, whatever happened to the token since.
\<close>

datatype ('p, 'q, 'd, 'l, 'e) task_event =
    WriterStep "('q, 'e) send_event"
  | LateWrite 'e
  | ReaderPoll "(('d, 'l) ReceiveError + 'p) poll" "bool poll"

fun tasks_step ::
  "('p, 'q, 'c, 'h, 'w, 'e) task_env \<Rightarrow> ('p, 'q, 'd, 'l, 'e) task_event
     \<Rightarrow> ('p, 'q, 'c, 'h, 'w, 'd, 'l) conn_tasks \<Rightarrow> ('p, 'q, 'c, 'h, 'w, 'd, 'l) conn_tasks option"
where
  "tasks_step E (WriterStep ev) s =
     map_option (\<lambda>(_, w). s\<lparr>ct_writer := w\<rparr>)
       (send_packets_step (te_mpsc E) (te_record_drop E) (te_writer E) ev (ct_writer s))"
| "tasks_step E (LateWrite e) s =
     (case pc (ct_writer s) of
        Sending p \<Rightarrow> map_option (\<lambda>w. s\<lparr>ct_writer := w\<rparr>)
          (send_task_write (te_mpsc E) (te_record_drop E) (te_writer E) p e (ct_writer s))
      | _ \<Rightarrow> Some s)"
| "tasks_step E (ReaderPoll read sent) s = Some (reader_poll E read sent s)"

fun run_steps :: "('e \<Rightarrow> 's \<Rightarrow> 's option) \<Rightarrow> 'e list \<Rightarrow> 's \<Rightarrow> 's option" where
  "run_steps step [] s = Some s"
| "run_steps step (e # es) s = (case step e s of None \<Rightarrow> None | Some s' \<Rightarrow> run_steps step es s')"

lemma run_steps_invariant:
  assumes "\<And>e s s'. I s \<Longrightarrow> step e s = Some s' \<Longrightarrow> I s'" and "I s" "run_steps step es s = Some s'"
  shows "I s'"
  using assms(2,3)
proof (induction es arbitrary: s)
  case (Cons e es)
  then obtain s1 where "step e s = Some s1" "run_steps step es s1 = Some s'" by (auto split: option.splits)
  with assms(1) [OF Cons.prems(1)] Cons.IH show ?case by blast
qed simp

lemma run_steps_total:
  assumes "\<And>e s. \<exists>s'. step e s = Some s'"
  shows "\<exists>s'. run_steps step es s = Some s'"
proof (induction es arbitrary: s)
  case (Cons e es)
  obtain s1 where "step e s = Some s1" using assms by blast
  with Cons.IH [of s1] show ?case by simp
qed simp

section \<open>Winding down\<close>

text \<open>
  A system that winds down: once the invariant holds, no step raises the rank, and the helping steps
  lower it until it is zero.
\<close>

locale winding_down =
  fixes step :: "'e \<Rightarrow> 's \<Rightarrow> 's option" and inv :: "'s \<Rightarrow> bool" and rank :: "'s \<Rightarrow> nat" and helps :: "'e \<Rightarrow> bool"
  assumes inv_step: "inv s \<Longrightarrow> step e s = Some s' \<Longrightarrow> inv s'"
    and rank_step: "inv s \<Longrightarrow> step e s = Some s' \<Longrightarrow> rank s' \<le> rank s"
    and progress: "inv s \<Longrightarrow> helps e \<Longrightarrow> step e s = Some s' \<Longrightarrow> rank s' \<le> rank s - 1"
begin

lemma rank_run:
  assumes "inv s" "run_steps step es s = Some s'"
  shows "rank s' \<le> rank s - length (filter helps es)"
  using assms
proof (induction es arbitrary: s)
  case (Cons e es)
  then obtain s1 where s1: "step e s = Some s1" "run_steps step es s1 = Some s'" by (auto split: option.splits)
  have "rank s' \<le> rank s1 - length (filter helps es)" using Cons.IH inv_step Cons.prems(1) s1 by blast
  moreover have "rank s1 \<le> rank s - (if helps e then 1 else 0)"
    using rank_step progress Cons.prems(1) s1(1) by auto
  ultimately show ?case by auto
qed simp

lemma comes_to_rest: "inv s \<Longrightarrow> run_steps step es s = Some s' \<Longrightarrow> rank s \<le> length (filter helps es) \<Longrightarrow> rank s' = 0"
  using rank_run by fastforce

end

section \<open>The writer's side\<close>

definition writer_inv :: "('q, 'c, 'h, 'w) send_task \<Rightarrow> bool" where
  "writer_inv w \<longleftrightarrow> (send_error w \<noteq> None \<longrightarrow> pc w = Finished) \<and> (pc w = Finished \<longrightarrow> task_cancelled w)"

text \<open>What any step of the writer keeps: its invariant, its end with the error it ended with, the token.\<close>

definition writer_moves :: "('q, 'c, 'h, 'w) send_task \<Rightarrow> ('q, 'c, 'h, 'w) send_task \<Rightarrow> bool" where
  "writer_moves w w' \<longleftrightarrow> (writer_inv w \<longrightarrow> writer_inv w') \<and> (task_cancelled w \<longrightarrow> task_cancelled w')
     \<and> (pc w = Finished \<longrightarrow> pc w' = Finished \<and> send_error w' = send_error w)"

lemma send_finish_fields:
  "send_finish M rd s = Some s' \<Longrightarrow> pc s' = Finished \<and> task_cancelled s' \<and> send_error s' = send_error s"
  by (auto simp: send_finish_def split: option.splits prod.splits)

lemma send_finish_total:
  assumes "mpsc_laws M pend"
  shows "\<exists>s'. send_finish M rd s = Some s'"
proof (cases "task_queue s")
  case (Reliable c)
  obtain rx where "drain_reliable M rd (mpsc_close M c) (task_handle s)
      = Some (rx, (rd ClosedBeforeDelivery ^^ length (pend (mpsc_close M c))) (task_handle s))"
    using drain_reliable_total [OF assms, of rd "mpsc_close M c" "task_handle s"] by blast
  then show ?thesis using Reliable by (simp add: send_finish_def outgoing_receiver_drop_def)
next
  case (Lossy sh)
  then show ?thesis by (simp add: send_finish_def outgoing_receiver_drop_def Let_def split: prod.split)
qed

lemma send_task_write_total:
  assumes "mpsc_laws M pend"
  shows "\<exists>s'. send_task_write M rd wr p e s = Some s'"
  using send_finish_total [OF assms, of rd]
  by (auto simp: send_task_write_def Let_def split: prod.splits poll.splits sum.splits)

lemma send_task_cancelled_fields:
  "send_task_cancelled M rd s = Some s' \<Longrightarrow> pc s' = Finished \<and> task_cancelled s' \<and> send_error s' = send_error s"
  by (cases "pc s") (auto simp: send_task_cancelled_def dest: send_finish_fields)

lemma send_task_cancelled_moves:
  "send_task_cancelled M rd s = Some s' \<Longrightarrow> writer_moves s s'"
  by (drule send_task_cancelled_fields) (simp add: writer_moves_def writer_inv_def)

lemma send_task_recv_moves:
  assumes "pc s = Receiving" "send_task_recv M rd s = Some s'"
  shows "writer_moves s s'"
  using assms
  by (auto simp: send_task_recv_def writer_moves_def writer_inv_def dest!: send_finish_fields
      split: prod.splits poll.splits option.splits if_splits)

lemma send_task_write_moves:
  assumes "pc s = Sending p" "send_task_write M rd wr p e s = Some s'"
  shows "writer_moves s s'"
  using assms
  by (auto simp: send_task_write_def Let_def writer_moves_def writer_inv_def dest!: send_finish_fields
      split: prod.splits poll.splits sum.splits)

lemma out_step_send_total: "\<exists>l q h. out_step M rd (OSend p) (inner, x) = Some (l, q, h)"
  by (cases inner) (simp_all split: prod.split sum.split SendError.split)

lemma send_packets_step_moves:
  assumes "send_packets_step M rd wr ev s = Some (l, s')"
  shows "writer_moves s s' \<and> (ev = EPoll \<and> task_cancelled s \<and> writer_inv s \<longrightarrow> pc s' = Finished)"
proof (cases ev)
  case (EQueue p)
  then show ?thesis
    using assms by (auto simp: send_packets_step_def writer_moves_def writer_inv_def split: option.splits)
next
  case ECancel
  then show ?thesis using assms by (auto simp: send_packets_step_def writer_moves_def writer_inv_def)
next
  case EPoll
  then show ?thesis
    using assms
    by (cases "pc s"; cases "task_cancelled s")
      (auto simp: send_packets_step_def writer_moves_def dest: send_task_cancelled_fields
        send_task_cancelled_moves send_task_recv_moves)
next
  case (EWrite e)
  then show ?thesis
    using assms
    by (cases "pc s"; cases "task_cancelled s")
      (auto simp: send_packets_step_def writer_moves_def dest: send_task_cancelled_moves send_task_write_moves)
qed

lemma send_packets_step_some:
  assumes "mpsc_laws M pend"
  shows "\<exists>l s'. send_packets_step M rd wr ev s = Some (l, s')"
proof -
  note fin = send_finish_total [OF assms, of rd]
  have can: "\<exists>s'. send_task_cancelled M rd s = Some s'"
    using fin by (cases "pc s") (simp_all add: send_task_cancelled_def)
  have rcv: "\<exists>s'. send_task_recv M rd s = Some s'"
    using fin by (auto simp: send_task_recv_def split: prod.splits poll.splits option.splits)
  note wri = send_task_write_total [OF assms, of rd wr]
  show ?thesis
  proof (cases ev)
    case (EQueue p)
    then show ?thesis
      using out_step_send_total [of M rd p "task_queue s" "task_handle s"] by (auto simp: send_packets_step_def)
  next
    case EPoll
    then show ?thesis using can rcv by (cases "pc s") (auto simp: send_packets_step_def)
  next
    case (EWrite e)
    show ?thesis
    proof (cases "pc s")
      case (Sending p)
      then show ?thesis
        using EWrite can wri [of p e] by (cases "task_cancelled s") (auto simp: send_packets_step_def)
    qed (use EWrite in \<open>simp_all add: send_packets_step_def\<close>)
  qed (simp add: send_packets_step_def)
qed

lemma tasks_step_total:
  assumes "mpsc_laws (te_mpsc E) pend"
  shows "\<exists>s'. tasks_step E ev s = Some s'"
proof (cases ev)
  case (WriterStep e)
  then show ?thesis
    using send_packets_step_some [OF assms, of "te_record_drop E" "te_writer E" e "ct_writer s"] by auto
next
  case (LateWrite e)
  then show ?thesis
    using send_task_write_total [OF assms, of "te_record_drop E" "te_writer E" _ e "ct_writer s"]
    by (cases "pc (ct_writer s)") auto
qed simp

section \<open>Both sides\<close>

definition closures :: "('p, 'd, 'l) task_message list \<Rightarrow> ('d, 'l) ReceiveError list" where
  "closures ms = concat (map (\<lambda>m. case m of TmClosed err \<Rightarrow> [err] | TmPacket _ \<Rightarrow> []) ms)"

lemma closures_simps [simp]:
  "closures [] = []" "closures (ms @ ms') = closures ms @ closures ms'"
  "closures [TmPacket p] = []" "closures [TmClosed err] = [err]"
  by (simp_all add: closures_def)

text \<open>
  A closure is reported once, after the loop; the error taken from the oneshot is the one that will be
  reported; whoever is at the end has cancelled the token.
\<close>

definition tasks_inv :: "('p, 'q, 'c, 'h, 'w, 'd, 'l) conn_tasks \<Rightarrow> bool" where
  "tasks_inv s \<longleftrightarrow> writer_inv (ct_writer s)
     \<and> (case ct_reader s of
          Breaking err \<Rightarrow> closures (ct_ecs s) = []
            \<and> (ct_error_taken s \<longrightarrow> (\<exists>e. send_error (ct_writer s) = Some e \<and> err = Io e))
        | Reporting err \<Rightarrow> closures (ct_ecs s) = [] \<and> cancelled s \<and> ct_reader_closed s
        | Notifying \<Rightarrow> length (closures (ct_ecs s)) \<le> 1 \<and> cancelled s \<and> ct_reader_closed s
        | ReaderDone \<Rightarrow> length (closures (ct_ecs s)) \<le> 1 \<and> cancelled s \<and> ct_reader_closed s
        | _ \<Rightarrow> closures (ct_ecs s) = [] \<and> \<not> ct_error_taken s)"

lemma oneshot_cases [simp]:
  "\<not> ct_error_taken s \<Longrightarrow> oneshot s = send_error (ct_writer s)" "ct_error_taken s \<Longrightarrow> oneshot s = None"
  by (simp_all add: oneshot_def)

lemma tasks_inv_spawn [simp]: "tasks_inv (spawn_tasks datagram c sh q w ecs)"
  by (simp add: tasks_inv_def spawn_tasks_def writer_inv_def)

lemma tasks_inv_writer:
  assumes "tasks_inv s" "writer_moves (ct_writer s) w"
  shows "tasks_inv (s\<lparr>ct_writer := w\<rparr>)"
proof -
  have e: "send_error w = Some e" if "send_error (ct_writer s) = Some e" for e
    using assms that by (auto simp: tasks_inv_def writer_moves_def writer_inv_def)
  show ?thesis
    using assms e
    by (cases "ct_reader s") (auto simp: tasks_inv_def writer_moves_def)
qed

lemma tasks_inv_select:
  assumes "tasks_inv s" "ct_reader s = Selecting"
  shows "tasks_inv (reader_select E read s)"
  using assms
  by (auto simp: tasks_inv_def reader_select_def writer_inv_def
      split: option.splits poll.splits sum.splits prod.splits)

lemma tasks_inv_poll: "tasks_inv s \<Longrightarrow> tasks_inv (reader_poll E read sent s)"
proof (cases "ct_reader s")
  case Selecting
  then show "tasks_inv s \<Longrightarrow> ?thesis" by (simp add: reader_poll_def tasks_inv_select)
qed (auto simp: tasks_inv_def reader_poll_def writer_inv_def split: poll.splits bool.splits)

lemma tasks_step_writer:
  assumes "tasks_step E ev s = Some s'"
  obtains (writer) w where "s' = s\<lparr>ct_writer := w\<rparr>" "writer_moves (ct_writer s) w"
      "ev = WriterStep EPoll \<and> cancelled s \<and> writer_inv (ct_writer s) \<longrightarrow> pc w = Finished"
      "\<forall>read sent. ev \<noteq> ReaderPoll read sent"
    | (reader) read sent where "ev = ReaderPoll read sent" "s' = reader_poll E read sent s"
proof (cases ev)
  case (WriterStep e)
  then show thesis
    using assms send_packets_step_moves [of "te_mpsc E" "te_record_drop E" "te_writer E" e "ct_writer s"]
    by (auto intro!: writer)
next
  case (LateWrite e)
  have same: "writer_moves (ct_writer s) (ct_writer s)" by (simp add: writer_moves_def)
  show thesis
  proof (cases "pc (ct_writer s)")
    case (Sending p)
    then obtain w where "send_task_write (te_mpsc E) (te_record_drop E) (te_writer E) p e (ct_writer s) = Some w"
      "s' = s\<lparr>ct_writer := w\<rparr>"
      using assms LateWrite by auto
    then show thesis using LateWrite send_task_write_moves [OF Sending] by (intro writer) auto
  qed (use assms LateWrite same in \<open>auto intro!: writer [of "ct_writer s"]\<close>)
next
  case (ReaderPoll read sent)
  then show thesis using assms by (auto intro: reader)
qed

lemma tasks_inv_step: "tasks_inv s \<Longrightarrow> tasks_step E ev s = Some s' \<Longrightarrow> tasks_inv s'"
  by (erule tasks_step_writer) (auto simp: tasks_inv_writer tasks_inv_poll)

lemma tasks_inv_run: "tasks_inv s \<Longrightarrow> run_steps (tasks_step E) evs s = Some s' \<Longrightarrow> tasks_inv s'"
  by (rule run_steps_invariant [where I = tasks_inv and step = "tasks_step E"]) (auto intro: tasks_inv_step)

fun reader_rank :: "('p, 'd, 'l) reader_pc \<Rightarrow> nat" where
  "reader_rank (Breaking _) = 3"
| "reader_rank (Reporting _) = 2"
| "reader_rank Notifying = 1"
| "reader_rank ReaderDone = 0"
| "reader_rank _ = 4"

definition writer_rank :: "'q send_pc \<Rightarrow> nat" where
  "writer_rank c = (if c = Finished then 0 else 1)"

fun polls_reader :: "('p, 'q, 'd, 'l, 'e) task_event \<Rightarrow> bool" where
  "polls_reader (ReaderPoll read (Ready ok)) = True"
| "polls_reader _ = False"

definition polls_writer :: "('p, 'q, 'd, 'l, 'e) task_event \<Rightarrow> bool" where
  "polls_writer ev \<longleftrightarrow> ev = WriterStep EPoll"

lemma reader_poll_writer [simp]:
  "pc (ct_writer (reader_poll E read sent s)) = pc (ct_writer s)"
  "send_error (ct_writer (reader_poll E read sent s)) = send_error (ct_writer s)"
  "cancelled s \<Longrightarrow> cancelled (reader_poll E read sent s)"
  by (auto simp: reader_poll_def reader_select_def
      split: reader_pc.split poll.split bool.split option.split sum.split prod.split)

lemma reader_poll_rank:
  assumes "cancelled s"
  shows "reader_rank (ct_reader (reader_poll E read sent s)) \<le> reader_rank (ct_reader s)"
    and "sent = Ready ok \<Longrightarrow> reader_rank (ct_reader (reader_poll E read sent s)) \<le> reader_rank (ct_reader s) - 1"
  using assms
  by (auto simp: reader_poll_def reader_select_def
      split: reader_pc.split poll.split bool.split option.split)

interpretation rdr: winding_down "tasks_step E" "\<lambda>s. tasks_inv s \<and> cancelled s" "\<lambda>s. reader_rank (ct_reader s)" polls_reader for E
proof
  fix s :: "('a, 'b, 'c, 'd, 'e, 'g, 'h) conn_tasks" and ev s'
  assume s: "tasks_inv s \<and> cancelled s" and st: "tasks_step E ev s = Some s'"
  show "tasks_inv s' \<and> cancelled s'"
    using st s tasks_inv_step by (cases rule: tasks_step_writer) (auto simp: writer_moves_def tasks_inv_writer tasks_inv_poll)
  show "reader_rank (ct_reader s') \<le> reader_rank (ct_reader s)"
    using st s by (cases rule: tasks_step_writer) (auto intro: reader_poll_rank)
  show "reader_rank (ct_reader s') \<le> reader_rank (ct_reader s) - 1" if helps: "polls_reader ev"
    using st
  proof (cases rule: tasks_step_writer)
    case (reader read sent)
    then obtain ok where "sent = Ready ok" using helps by (cases sent) auto
    then show ?thesis using s reader reader_poll_rank(2) by blast
  qed (use helps in \<open>cases ev; auto\<close>)
qed

interpretation wtr: winding_down "tasks_step E" "\<lambda>s. tasks_inv s \<and> cancelled s" "\<lambda>s. writer_rank (pc (ct_writer s))" polls_writer for E
proof
  fix s :: "('a, 'b, 'c, 'd, 'e, 'g, 'h) conn_tasks" and ev s'
  assume s: "tasks_inv s \<and> cancelled s" and st: "tasks_step E ev s = Some s'"
  show "tasks_inv s' \<and> cancelled s'" by (rule rdr.inv_step [OF s st])
  show "writer_rank (pc (ct_writer s')) \<le> writer_rank (pc (ct_writer s))"
    using st s by (cases rule: tasks_step_writer) (auto simp: writer_rank_def writer_moves_def)
  show "writer_rank (pc (ct_writer s')) \<le> writer_rank (pc (ct_writer s)) - 1" if "polls_writer ev"
    using st s that
    by (cases rule: tasks_step_writer) (auto simp: writer_rank_def polls_writer_def tasks_inv_def)
qed

text \<open>Once the writer has failed while the reader has not looked for the last time, its error is the cause.\<close>

fun before_last_look :: "('p, 'd, 'l) reader_pc \<Rightarrow> bool" where
  "before_last_look (Reporting _) = False"
| "before_last_look Notifying = False"
| "before_last_look ReaderDone = False"
| "before_last_look _ = True"

definition blames :: "io_error \<Rightarrow> ('p, 'q, 'c, 'h, 'w, 'd, 'l) conn_tasks \<Rightarrow> bool" where
  "blames e s \<longleftrightarrow> tasks_inv s \<and> send_error (ct_writer s) = Some e
     \<and> (before_last_look (ct_reader s) \<or> ct_reader s = Reporting (Io e)
        \<or> ct_reader s \<in> {Notifying, ReaderDone} \<and> set (closures (ct_ecs s)) \<subseteq> {Io e})"

lemma blames_poll:
  assumes "blames e s"
  shows "blames e (reader_poll E read sent s)"
proof -
  have i: "tasks_inv (reader_poll E read sent s)" using assms by (simp add: blames_def tasks_inv_poll)
  have sel: "before_last_look (ct_reader (reader_select E read s))" if "ct_reader s = Selecting"
    using that by (auto simp: reader_select_def split: option.split poll.split sum.split prod.split)
  have "before_last_look (ct_reader (reader_poll E read sent s)) \<or> ct_reader (reader_poll E read sent s) = Reporting (Io e)
      \<or> ct_reader (reader_poll E read sent s) \<in> {Notifying, ReaderDone}
         \<and> set (closures (ct_ecs (reader_poll E read sent s))) \<subseteq> {Io e}"
    using assms sel
    by (cases "ct_reader s")
      (auto simp: blames_def reader_poll_def tasks_inv_def oneshot_def split: poll.split bool.split)
  then show ?thesis using i assms by (simp add: blames_def)
qed

lemma blames_step:
  assumes "blames e s" "tasks_step E ev s = Some s'"
  shows "blames e s'"
  using assms(2)
proof (cases rule: tasks_step_writer)
  case (writer w)
  have "pc (ct_writer s) = Finished" using assms(1) by (auto simp: blames_def tasks_inv_def writer_inv_def)
  then show ?thesis
    using assms(1) writer tasks_inv_writer [of s w] by (auto simp: blames_def writer_moves_def)
qed (simp add: assms(1) blames_poll)

section \<open>The reader as the loop over what it meets\<close>

fun read_of :: "(('d, 'l) ReceiveError + 'p) poll \<Rightarrow> 'p list" where
  "read_of (Ready (Inr p)) = [p]"
| "read_of _ = []"

fun offered :: "('p, 'q, 'd, 'l, 'e) task_event list \<Rightarrow> 'p list" where
  "offered [] = []"
| "offered (ReaderPoll read sent # evs) = read_of read @ offered evs"
| "offered (_ # evs) = offered evs"

lemma offered_Cons: "offered (ev # evs) = offered [ev] @ offered evs"
  by (cases ev) simp_all

lemma reads_append [simp]: "reads (xs @ ys) = reads xs @ reads ys"
  by (simp add: reads_def)

lemma receive_loop_append:
  assumes "receive_loop False rd on_evict es fw h = (None, ms, fw, h)"
  shows "receive_loop False rd on_evict (es @ es') fw h
     = (case receive_loop False rd on_evict es' fw h of (r, ms', x) \<Rightarrow> (r, ms @ ms', x))"
  using assms
proof (induction es arbitrary: ms)
  case Nil
  then show ?case by (simp split: prod.split)
next
  case (Cons e es)
  have "re_send_error e = None" "\<not> re_cancelled e" and f: "\<not> re_fwd_cancelled e" "re_incoming_ok e"
    using Cons.prems by (auto split: option.splits if_splits sum.splits prod.splits)
  moreover obtain p where "re_read e = Inr p"
    using Cons.prems calculation by (cases "re_read e") simp_all
  moreover obtain ms1 where "receive_loop False rd on_evict es fw h = (None, ms1, fw, h)" "ms = TmPacket p # ms1"
    using Cons.prems calculation by (auto split: prod.splits)
  ultimately show ?case using Cons.IH by (simp split: prod.split)
qed

text \<open>
  The iterations \<open>es\<close> account for what a stream's reader has done so far: the errors they meet are the
  writer's, the packets they read were offered in this order, and the loop over them is where it is.
\<close>

definition accounts ::
  "('p, 'q, 'c, 'h, 'w, 'e) task_env \<Rightarrow> 'p PacketForwarder \<Rightarrow> 'h \<Rightarrow> 'p list \<Rightarrow> ('p, 'd, 'l) recv_env list
     \<Rightarrow> ('p, 'q, 'c, 'h, 'w, 'd, 'l) conn_tasks \<Rightarrow> bool"
where
  "accounts E fw h seen es s \<longleftrightarrow>
     (let loop = receive_loop False (te_record_drop E) (te_on_evict E) es fw h;
          task = (\<lambda>late. receive_packets False (te_record_drop E) (te_on_evict E) es late fw h);
          mine = {None, send_error (ct_writer s)}
      in (\<forall>x \<in> set es. re_send_error x \<in> mine)
         \<and> (case ct_reader s of
              Selecting \<Rightarrow> loop = (None, ct_ecs s, fw, h) \<and> subseq (reads es) seen
            | Forwarding p \<Rightarrow> loop = (None, ct_ecs s, fw, h) \<and> subseq (reads es @ [p]) seen
            | Breaking err \<Rightarrow> loop = (Some err, ct_ecs s, fw, h) \<and> subseq (reads es) seen
            | Reporting err \<Rightarrow> subseq (reads es) seen
                \<and> (\<exists>late \<in> mine. \<exists>out. task late = Some out \<and> ro_messages out = ct_ecs s @ [TmClosed err])
            | _ \<Rightarrow> subseq (reads es) seen
                \<and> (\<exists>late \<in> mine. \<exists>out. task late = Some out
                     \<and> (ct_ecs s = ro_messages out \<or> ct_ecs s = butlast (ro_messages out)))))"

lemma accounts_writer:
  assumes "accounts E fw h seen es s" "tasks_inv s" "writer_moves (ct_writer s) w"
  shows "accounts E fw h seen es (s\<lparr>ct_writer := w\<rparr>)"
proof -
  have "send_error (ct_writer s) = None \<or> send_error w = send_error (ct_writer s)"
    using assms(2,3) by (auto simp: tasks_inv_def writer_moves_def writer_inv_def)
  then show ?thesis
    using assms(1) by (cases "ct_reader s") (auto simp: accounts_def Let_def)
qed

lemma accounts_more: "accounts E fw h seen es s \<Longrightarrow> accounts E fw h (seen @ later) es s"
  by (cases "ct_reader s") (auto simp: accounts_def Let_def intro: list_emb_append2 subseq_order.order_trans)

text \<open>One more iteration, which continues the loop or ends it.\<close>

lemma accounts_iteration:
  assumes "accounts E fw h seen es s" "ct_reader s = Selecting \<or> ct_reader s = Forwarding p"
    and "receive_loop False (te_record_drop E) (te_on_evict E) [x] fw h = (r, ms, fw, h)"
    and "re_send_error x \<in> {None, send_error (ct_writer s)}" "subseq (reads es @ reads [x]) seen"
    and "ct_writer s' = ct_writer s" "ct_ecs s' = ct_ecs s @ ms"
    and "ct_reader s' = (case r of None \<Rightarrow> Selecting | Some err \<Rightarrow> Breaking err)"
  shows "accounts E fw h seen (es @ [x]) s'"
  using assms receive_loop_append [of "te_record_drop E" "te_on_evict E" es fw h "ct_ecs s" "[x]"]
  by (cases r) (auto simp: accounts_def Let_def)

text \<open>The iteration in which the reader meets what it meets.\<close>

abbreviation iteration ::
  "io_error option \<Rightarrow> bool \<Rightarrow> ('d, 'l) ReceiveError + 'p \<Rightarrow> bool \<Rightarrow> bool \<Rightarrow> ('p, 'd, 'l) recv_env"
where
  "iteration err c read fc ok \<equiv>
     \<lparr>re_send_error = err, re_cancelled = c, re_read = read, re_fwd_cancelled = fc, re_incoming_ok = ok\<rparr>"

lemma accounts_select:
  assumes a: "accounts E fw h seen es s" and pc: "ct_reader s = Selecting" "\<not> te_datagram E"
  shows "\<exists>es'. accounts E fw h (seen @ read_of read) es' (reader_select E read s)"
proof -
  have seen: "subseq (reads es) (seen @ l)" for l
    using a pc by (auto simp: accounts_def Let_def intro: list_emb_append2)
  note a' = accounts_more [OF a, of "read_of read"]
  show ?thesis
  proof (cases "oneshot s")
    case (Some err)
    then show ?thesis
      using pc seen by (intro exI [of _ "es @ [iteration (Some err) False (Inl IntentionalDisconnection) False True]"]
          accounts_iteration [OF a']) (auto simp: reader_select_def oneshot_def split: if_splits)
  next
    case None
    show ?thesis
    proof (cases "cancelled s")
      case True
      then show ?thesis
        using pc seen None by (intro exI [of _ "es @ [iteration None True (Inl IntentionalDisconnection) False True]"]
            accounts_iteration [OF a']) (auto simp: reader_select_def)
    next
      case False
      consider "read = Pending" | e where "read = Ready (Inl e)" | p where "read = Ready (Inr p)"
        by (metis poll.exhaust sum.exhaust)
      then show ?thesis
      proof cases
        case 1
        then show ?thesis using a None False by (auto simp: reader_select_def)
      next
        case 2
        then show ?thesis
          using pc seen [of "[]"] None False by (intro exI [of _ "es @ [iteration None False (Inl e) False True]"]
              accounts_iteration [OF a']) (auto simp: reader_select_def)
      next
        case 3
        then show ?thesis
          using a pc None False
          by (intro exI [of _ es]) (auto simp: reader_select_def accounts_def Let_def intro: list_emb_append_mono)
      qed
    qed
  qed
qed

lemma accounts_poll:
  assumes a: "accounts E fw h seen es s" and dg: "\<not> te_datagram E"
  shows "\<exists>es'. accounts E fw h (seen @ read_of read) es' (reader_poll E read sent s)"
proof -
  note a' = accounts_more [OF a, of "read_of read"]
  show ?thesis
  proof (cases "ct_reader s")
    case Selecting
    then show ?thesis using accounts_select [OF a Selecting dg] by (simp add: reader_poll_def)
  next
    case (Forwarding p)
    have seen: "subseq (reads es @ [p]) (seen @ read_of read)"
      using a' Forwarding by (simp add: accounts_def Let_def)
    have step: ?thesis
      if "ct_reader (reader_poll E read sent s) = (case fst (receive_loop False (te_record_drop E) (te_on_evict E)
            [iteration None False (Inr p) fc ok] fw h) of None \<Rightarrow> Selecting | Some err \<Rightarrow> Breaking err)"
        and "ct_writer (reader_poll E read sent s) = ct_writer s"
        and "ct_ecs (reader_poll E read sent s) = ct_ecs s @ (if \<not> fc \<and> ok then [TmPacket p] else [])" for fc ok
      using Forwarding seen that
      by (intro exI [of _ "es @ [iteration None False (Inr p) fc ok]"] accounts_iteration [OF a', of p])
        (auto split: if_splits)
    show ?thesis
    proof (cases "cancelled s")
      case True
      then show ?thesis using Forwarding by (intro step [of True True]) (simp_all add: reader_poll_def)
    next
      case False
      show ?thesis
      proof (cases sent)
        case Pending
        then show ?thesis using a' Forwarding False by (auto simp: reader_poll_def)
      next
        case (Ready ok)
        then show ?thesis
          using Forwarding False by (intro step [of False ok]) (simp_all add: reader_poll_def split: bool.split)
      qed
    qed
  next
    case (Breaking err)
    then show ?thesis
      using a' by (intro exI [of _ es])
        (auto simp: accounts_def Let_def reader_poll_def receive_packets_def oneshot_def split: option.splits)
  next
    case (Reporting err)
    then show ?thesis
      using a' by (intro exI [of _ es])
        (auto simp: accounts_def Let_def reader_poll_def butlast_append split: poll.splits)
  qed (use a' in \<open>auto simp: accounts_def Let_def reader_poll_def split: poll.splits intro!: exI [of _ es]\<close>)
qed

lemma accounts_run:
  assumes "\<not> te_datagram E" and "run_steps (tasks_step E) evs s = Some s'"
    and "tasks_inv s" "accounts E fw h seen es s"
  shows "\<exists>es'. accounts E fw h (seen @ offered evs) es' s'"
  using assms(2-4)
proof (induction evs arbitrary: s seen es)
  case (Cons ev evs)
  obtain s1 where s1: "tasks_step E ev s = Some s1" "run_steps (tasks_step E) evs s1 = Some s'"
    using Cons.prems(1) by (auto split: option.splits)
  have "\<exists>es1. accounts E fw h (seen @ offered [ev]) es1 s1"
    using s1(1)
  proof (cases rule: tasks_step_writer)
    case (writer w)
    have "offered [ev] = []" using writer(4) by (cases ev) simp_all
    then show ?thesis using accounts_writer [OF Cons.prems(3,2) writer(2)] writer(1) by auto
  next
    case (reader read sent)
    then show ?thesis using accounts_poll [OF Cons.prems(3) assms(1), of read sent] by simp
  qed
  then show ?case
    using Cons.IH [OF s1(2) tasks_inv_step [OF Cons.prems(2) s1(1)]] offered_Cons [of ev evs] by fastforce
qed auto

section \<open>Properties\<close>

text \<open>
  (C5) The tasks of a connection end together and agree on the cause. However the steps of the writer, of the
  reader and of the application interleave, the tasks never get stuck; a task that is at its end has
  cancelled the connection's token, and the reader reports at most one closure. Once the token is
  cancelled, by whomever, one poll of the writer and four polls of the reader that find room in the
  channels end both tasks, whatever else happens meanwhile. If the writer fails before the reader looks
  for its error the last time, the only cause that can be reported is that error.
\<close>

theorem connection_winds_down:
  assumes "mpsc_laws (te_mpsc E) pend"
  shows "\<exists>s. run_steps (tasks_step E) evs (spawn_tasks datagram c sh q w ecs) = Some s
     \<and> (pc (ct_writer s) = Finished \<or> \<not> before_last_look (ct_reader s) \<longrightarrow> cancelled s)
     \<and> length (closures (ct_ecs s)) \<le> 1
     \<and> (\<forall>later. \<exists>t. run_steps (tasks_step E) later s = Some t
          \<and> (cancelled s \<and> WriterStep EPoll \<in> set later \<and> 4 \<le> length (filter polls_reader later)
               \<longrightarrow> pc (ct_writer t) = Finished \<and> ct_reader t = ReaderDone \<and> ct_reader_closed t)
          \<and> (\<forall>e. send_error (ct_writer s) = Some e \<and> before_last_look (ct_reader s)
               \<longrightarrow> set (closures (ct_ecs t)) \<subseteq> {Io e}))"
proof -
  note total = run_steps_total [of "tasks_step E", OF tasks_step_total [OF assms]]
  obtain s where s: "run_steps (tasks_step E) evs (spawn_tasks datagram c sh q w ecs) = Some s"
    using total by blast
  have inv: "tasks_inv s" by (rule tasks_inv_run [OF tasks_inv_spawn s])
  have c: "pc (ct_writer s) = Finished \<or> \<not> before_last_look (ct_reader s) \<longrightarrow> cancelled s"
    "length (closures (ct_ecs s)) \<le> 1"
    using inv by (cases "ct_reader s"; auto simp: tasks_inv_def writer_inv_def)+
  have "\<exists>t. run_steps (tasks_step E) later s = Some t
          \<and> (cancelled s \<and> WriterStep EPoll \<in> set later \<and> 4 \<le> length (filter polls_reader later)
               \<longrightarrow> pc (ct_writer t) = Finished \<and> ct_reader t = ReaderDone \<and> ct_reader_closed t)
          \<and> (\<forall>e. send_error (ct_writer s) = Some e \<and> before_last_look (ct_reader s)
               \<longrightarrow> set (closures (ct_ecs t)) \<subseteq> {Io e})" for later
  proof -
    obtain t where t: "run_steps (tasks_step E) later s = Some t" using total by blast
    have it: "tasks_inv t" by (rule tasks_inv_run [OF inv t])
    have rest: "pc (ct_writer t) = Finished \<and> ct_reader t = ReaderDone \<and> ct_reader_closed t"
      if cs: "cancelled s" and polls: "WriterStep EPoll \<in> set later" "4 \<le> length (filter polls_reader later)"
    proof -
      have "reader_rank (ct_reader s) \<le> 4" by (cases "ct_reader s") simp_all
      then have "reader_rank (ct_reader t) = 0"
        using rdr.comes_to_rest [of s E later t] inv cs t polls(2) by simp
      moreover have "writer_rank (pc (ct_writer s)) \<le> length (filter polls_writer later)"
        using polls(1) by (auto simp: writer_rank_def polls_writer_def Suc_le_eq filter_empty_conv)
      then have "writer_rank (pc (ct_writer t)) = 0"
        using wtr.comes_to_rest [of s E later t] inv cs t by simp
      ultimately show ?thesis
        using it by (cases "ct_reader t") (auto simp: writer_rank_def tasks_inv_def split: if_splits)
    qed
    have "set (closures (ct_ecs t)) \<subseteq> {Io e}"
      if "send_error (ct_writer s) = Some e" "before_last_look (ct_reader s)" for e
    proof -
      have "blames e s" using inv that by (simp add: blames_def)
      then have b: "blames e t" using run_steps_invariant [of "blames e" "tasks_step E" s later t] blames_step t by blast
      then show ?thesis
        using it by (cases "ct_reader t") (auto simp: blames_def tasks_inv_def)
    qed
    then show ?thesis using t rest by blast
  qed
  then show ?thesis using s c by blast
qed


definition demo_task_env ::
  "(nat, nat, nat list_chan, unit, unit, io_error + unit) task_env"
where
  "demo_task_env = \<lparr>te_mpsc = list_mpsc, te_record_drop = unit_record_drop, te_on_evict = (\<lambda>_ h. h),
     te_writer = (\<lambda>_ res w h. (Ready res, w, h)), te_datagram = False, te_server = True\<rparr>"

definition demo_ecs :: "(nat, nat list_chan, unit, unit) EcsConnection" where
  "demo_ecs = \<lparr>disconnect_task = (), conn_id = 0, published = True,
     packet_tx = fst (outgoing_channel list_mpsc default_queue_settings False), conn_transport = (),
     local_addr = V4 0 1, peer_addr = V4 0 2\<rparr>"

definition demo_tasks :: "(nat, nat, nat list_chan, unit, unit, unit, unit) conn_tasks" where
  "demo_tasks = spawn_tasks False False demo_full (packet_tx demo_ecs) () demo_ecs"

definition demo_failing :: "(nat, nat, unit, unit, io_error + unit) task_event list" where
  "demo_failing = [WriterStep (EQueue 5), WriterStep EPoll, WriterStep (EWrite (Inl (IoError BrokenPipe '''')))]"

definition demo_polls :: "(nat, nat, unit, unit, io_error + unit) task_event list" where
  "demo_polls = WriterStep EPoll # replicate 4 (ReaderPoll Pending (Ready True))"

lemma demo_tasks_failed:
  "run_steps (tasks_step demo_task_env) demo_failing demo_tasks = Some s
   \<Longrightarrow> send_error (ct_writer s) = Some (IoError BrokenPipe '''') \<and> ct_reader s = Selecting"
  by (auto simp: demo_failing_def demo_tasks_def demo_task_env_def demo_ecs_def spawn_tasks_def send_packets_step_def outgoing_try_send_def
      outgoing_channel_def receiver_from_def outgoing_recv_def list_mpsc_def send_task_recv_def send_task_write_def
      default_queue_settings_def Let_def dest: send_finish_fields
      split: prod.splits option.splits if_splits)

theorem connection_winds_down_witness:
  "\<exists>s t. run_steps (tasks_step demo_task_env) demo_failing demo_tasks = Some s
     \<and> cancelled s
     \<and> run_steps (tasks_step demo_task_env) demo_polls s = Some t
     \<and> ct_reader t = ReaderDone \<and> set (closures (ct_ecs t)) \<subseteq> {Io (IoError BrokenPipe '''')}"
proof -
  have laws: "mpsc_laws (te_mpsc demo_task_env) lc_items" by (simp add: demo_task_env_def list_mpsc_laws)
  note all = connection_winds_down [OF laws, of demo_failing False False demo_full "packet_tx demo_ecs" "()" demo_ecs, folded demo_tasks_def]
  obtain s where s: "run_steps (tasks_step demo_task_env) demo_failing demo_tasks = Some s"
    and c: "pc (ct_writer s) = Finished \<or> \<not> before_last_look (ct_reader s) \<longrightarrow> cancelled s"
    and t: "\<exists>t. run_steps (tasks_step demo_task_env) demo_polls s = Some t
          \<and> (cancelled s \<and> WriterStep EPoll \<in> set demo_polls \<and> 4 \<le> length (filter polls_reader demo_polls)
               \<longrightarrow> pc (ct_writer t) = Finished \<and> ct_reader t = ReaderDone \<and> ct_reader_closed t)
          \<and> (\<forall>e. send_error (ct_writer s) = Some e \<and> before_last_look (ct_reader s)
               \<longrightarrow> set (closures (ct_ecs t)) \<subseteq> {Io e})"
    using all by (elim exE conjE, intro that) (assumption | erule allE [of _ demo_polls], assumption)+
  have "tasks_inv s" by (rule tasks_inv_run [OF _ s]) (simp add: demo_tasks_def)
  then have "cancelled s" using demo_tasks_failed [OF s] by (auto simp: tasks_inv_def writer_inv_def)
  then show ?thesis using s t demo_tasks_failed [OF s] by (auto simp: demo_polls_def)
qed

definition demo_reading :: "(nat, nat, unit, unit, io_error + unit) task_event list" where
  "demo_reading = [ReaderPoll (Ready (Inr 4)) Pending, ReaderPoll Pending (Ready True),
     ReaderPoll (Ready (Inl (Io (IoError BrokenPipe '''')))) Pending, ReaderPoll Pending Pending,
     ReaderPoll Pending (Ready True), ReaderPoll Pending (Ready True)]"


end
