(* ===== verification/Connection_Pool.thy ===== *)
theory Connection_Pool
  imports Client_Endpoint "HOL-Library.Multiset"
begin

text \<open>
  Work that an endpoint runs concurrently, but only so much at a time: \<open>run_connections\<close> of
  \<^verbatim>\<open>src/src/connection/tasks.rs\<close>, which drives the set-up of transports for client and server, and the
  client's \<open>process_connection_requests\<close>. The combinators of the futures crate take the next item of
  a channel while fewer than the limit are running, and finish the running ones in any order; here
  each start and each end is a step. The client's driver is proved to refine the plain pool.
\<close>

section \<open>A bounded pool\<close>

record 'j pool =
  waiting :: "'j list"
  running :: "'j list"
  finished :: "'j list"

datatype 'j pool_event = Arrive 'j | Start | Finish nat

definition remove_nth :: "nat \<Rightarrow> 'a list \<Rightarrow> 'a list" where
  "remove_nth n xs = take n xs @ drop (Suc n) xs"

fun pool_step :: "usize \<Rightarrow> 'j pool_event \<Rightarrow> 'j pool \<Rightarrow> 'j pool" where
  "pool_step limit (Arrive j) s = s\<lparr>waiting := waiting s @ [j]\<rparr>"
| "pool_step limit Start s =
     (if length (running s) < limit
      then (case waiting s of
              [] \<Rightarrow> s
            | j # js \<Rightarrow> s\<lparr>waiting := js, running := running s @ [j]\<rparr>)
      else s)"
| "pool_step limit (Finish n) s =
     (if n < length (running s)
      then s\<lparr>running := remove_nth n (running s), finished := finished s @ [running s ! n]\<rparr>
      else s)"

definition empty_pool :: "'j pool" where
  "empty_pool = \<lparr>waiting = [], running = [], finished = []\<rparr>"

fun arrivals :: "'j pool_event list \<Rightarrow> 'j list" where
  "arrivals [] = []"
| "arrivals (Arrive j # es) = j # arrivals es"
| "arrivals (_ # es) = arrivals es"

text \<open>\<open>run_connections\<close>: \<open>for_each_concurrent\<close> with at least one at a time.\<close>

definition run_connections :: "usize \<Rightarrow> 'j pool_event list \<Rightarrow> 'j pool" where
  "run_connections limit es = fold (pool_step (max limit 1)) es empty_pool"

definition client_process_connections :: "'j pool_event list \<Rightarrow> 'j pool" where
  "client_process_connections = run_connections MAX_CONNECTION_ATTEMPTS"

definition server_process_connections :: "usize \<Rightarrow> 'j pool_event list \<Rightarrow> 'j pool" where
  "server_process_connections setup_limit = run_connections setup_limit"

section \<open>The client's connection requests\<close>

text \<open>
  \<open>rd_inflight\<close> holds the attempts that wait for their connection, with the outgoing queue made for
  each; \<open>rd_warnings\<close> counts the warnings about a stateful serializer.
\<close>

record ('q, 'c, 's, 'z, 'ls, 'k, 'p, 'd, 'l) request_driver =
  rd_requests :: "SocketAddr list"
  rd_inflight :: "(SocketAddr \<times> ('q, 'c) OutgoingInner \<times> OutgoingReceiver) list"
  rd_warned :: bool
  rd_warnings :: nat
  rd_counter :: usize
  rd_messages :: "('p, 'd, 'l) client_message list"
  rd_transports :: "('s, 'z, 'ls, 'k) RawConnection list"
  rd_stopped :: bool

text \<open>
  What the whole driver is given: queue settings, limits, the kind of protocol, and what
  \<open>build_serializer\<close> and the length serializer's \<open>default\<close> return for each attempt.
\<close>

record ('q, 'c, 's, 'h, 'p, 'ee, 'd, 'z, 'ls) driver_config =
  dc_mpsc :: "('q, 'c) mpsc"
  dc_stream :: "('s, 'h) NetworkStream"
  dc_queues :: NetworkQueueSettings
  dc_limits :: ReceiveLimits
  dc_datagram :: bool
  dc_serializer :: "('p, 'q, 'ee, 'd, 'z) SerializerAdapter"
  dc_length :: 'ls

text \<open>A step: a request arrives, an attempt starts, or attempt \<open>n\<close> ends with what it met.\<close>

datatype ('k, 's) driver_event =
    Request SocketAddr
  | StartAttempt
  | EndAttempt nat 'k "io_error + 's" bool bool

definition start_attempt ::
  "('q, 'c, 's, 'h, 'p, 'ee, 'd, 'z, 'ls) driver_config
     \<Rightarrow> ('q, 'c, 's, ('p, 'q, 'ee, 'd, 'z) SerializerAdapter, 'ls, 'k, 'p, 'd, 'l) request_driver
     \<Rightarrow> ('q, 'c, 's, ('p, 'q, 'ee, 'd, 'z) SerializerAdapter, 'ls, 'k, 'p, 'd, 'l) request_driver"
where
  "start_attempt D s =
     (if rd_stopped s \<or> MAX_CONNECTION_ATTEMPTS \<le> length (rd_inflight s) then s
      else (case rd_requests s of
              [] \<Rightarrow> s
            | address # rest \<Rightarrow>
                (let (warn, warned') = warn_if_stateful_over_datagrams (dc_datagram D) (dc_serializer D) (rd_warned s) in
                 s\<lparr>rd_requests := rest,
                   rd_inflight := rd_inflight s @ [(address, outgoing_channel (dc_mpsc D) (dc_queues D) (dc_datagram D))],
                   rd_warned := warned',
                   rd_warnings := rd_warnings s + (if warn then 1 else 0)\<rparr>)))"

definition end_attempt ::
  "('q, 'c, 's, 'h, 'p, 'ee, 'd, 'z, 'ls) driver_config \<Rightarrow> nat \<Rightarrow> 'k \<Rightarrow> io_error + 's \<Rightarrow> bool \<Rightarrow> bool
     \<Rightarrow> ('q, 'c, 's, ('p, 'q, 'ee, 'd, 'z) SerializerAdapter, 'ls, 'k, 'p, 'd, 'l) request_driver
     \<Rightarrow> ('q, 'c, 's, ('p, 'q, 'ee, 'd, 'z) SerializerAdapter, 'ls, 'k, 'p, 'd, 'l) request_driver"
where
  "end_attempt D n tok connected inc_ok conn_ok s =
     (if rd_stopped s \<or> \<not> n < length (rd_inflight s) then s
      else (case rd_inflight s ! n of
              (address, packets, rx) \<Rightarrow>
                (case create_connection tok connected (dc_serializer D) (dc_length D) rx (dc_limits D) (rd_counter s) of
                   (result, counter) \<Rightarrow>
                     (case publish (dc_stream D) inc_ok conn_ok address packets result of
                        (go_on, msgs, _, handed) \<Rightarrow>
                          s\<lparr>rd_inflight := (if go_on then remove_nth n (rd_inflight s) else []),
                            rd_counter := counter,
                            rd_messages := rd_messages s @ msgs,
                            rd_transports := rd_transports s @ (case result of Inr raw \<Rightarrow> if handed then [raw] else [] | Inl _ \<Rightarrow> []),
                            rd_stopped := \<not> go_on\<rparr>))))"

fun driver_step ::
  "('q, 'c, 's, 'h, 'p, 'ee, 'd, 'z, 'ls) driver_config \<Rightarrow> ('k, 's) driver_event
     \<Rightarrow> ('q, 'c, 's, ('p, 'q, 'ee, 'd, 'z) SerializerAdapter, 'ls, 'k, 'p, 'd, 'l) request_driver
     \<Rightarrow> ('q, 'c, 's, ('p, 'q, 'ee, 'd, 'z) SerializerAdapter, 'ls, 'k, 'p, 'd, 'l) request_driver"
where
  "driver_step D (Request a) s = s\<lparr>rd_requests := rd_requests s @ [a]\<rparr>"
| "driver_step D StartAttempt s = start_attempt D s"
| "driver_step D (EndAttempt n tok connected inc_ok conn_ok) s = end_attempt D n tok connected inc_ok conn_ok s"

definition driver_init :: "usize \<Rightarrow> ('q, 'c, 's, 'z, 'ls, 'k, 'p, 'd, 'l) request_driver" where
  "driver_init counter =
     \<lparr>rd_requests = [], rd_inflight = [], rd_warned = False, rd_warnings = 0, rd_counter = counter,
      rd_messages = [], rd_transports = [], rd_stopped = False\<rparr>"

section \<open>The pool's contract\<close>

locale bounded_pool =
  fixes step :: "'e \<Rightarrow> 's \<Rightarrow> 's" and abs :: "'s \<Rightarrow> 'j pool" and ev :: "'e \<Rightarrow> 'j pool_event" and limit :: usize
    and ok :: "'e \<Rightarrow> bool" and live :: "'s \<Rightarrow> bool"
  assumes refines: "live s \<Longrightarrow> ok e \<Longrightarrow> live (step e s) \<and> abs (step e s) = pool_step limit (ev e) (abs s)"
    and positive: "0 < limit"
begin

lemma run_refines:
  "live s \<Longrightarrow> list_all ok es \<Longrightarrow> live (fold step es s) \<and> abs (fold step es s) = fold (pool_step limit) (map ev es) (abs s)"
  by (induction es arbitrary: s) (simp_all add: refines)

lemma pool_bound: "length (running p) \<le> limit \<Longrightarrow> length (running (pool_step limit e p)) \<le> limit"
  by (cases e) (auto simp: remove_nth_def split: list.splits)

lemma pool_bounded: "length (running p) \<le> limit \<Longrightarrow> length (running (fold (pool_step limit) es p)) \<le> limit"
  by (induction es arbitrary: p) (simp_all add: pool_bound)

lemma mset_remove_nth: "n < length xs \<Longrightarrow> mset xs = add_mset (xs ! n) (mset (remove_nth n xs))"
  unfolding remove_nth_def by (subst id_take_nth_drop [of n xs]) simp_all

lemma pool_conserves:
  "mset (waiting (pool_step limit e p)) + mset (running (pool_step limit e p)) + mset (finished (pool_step limit e p))
     = mset (waiting p) + mset (running p) + mset (finished p) + mset (arrivals [e])"
  by (cases e) (auto simp: mset_remove_nth split: list.splits)

lemma arrivals_Cons: "mset (arrivals (e # es)) = mset (arrivals [e]) + mset (arrivals es)"
  by (cases e) simp_all

lemma pool_all:
  "mset (waiting (fold (pool_step limit) es p)) + mset (running (fold (pool_step limit) es p))
      + mset (finished (fold (pool_step limit) es p))
     = mset (waiting p) + mset (running p) + mset (finished p) + mset (arrivals es)"
proof (induction es arbitrary: p)
  case (Cons e es)
  show ?case
    using Cons [of "pool_step limit e p"] pool_conserves [of e p] arrivals_Cons [of e es] by simp
qed simp

text \<open>As long as work is left, either some is running or some can start.\<close>

lemma pool_progress:
  "waiting p \<noteq> [] \<Longrightarrow> running p = [] \<Longrightarrow> running (pool_step limit Start p) = [hd (waiting p)]"
  using positive by (auto split: list.splits)

end
interpretation rc: bounded_pool "pool_step (max l 1)" "\<lambda>p. p" "\<lambda>e. e" "max l 1" "\<lambda>_. True" "\<lambda>_. True" for l
  by unfold_locales simp_all

section \<open>The client's driver is such a pool\<close>

fun message_address :: "('p, 'd, 'l) client_message \<Rightarrow> SocketAddr" where
  "message_address (CEstablished a _) = a"
| "message_address (CClosed _ a _) = a"
| "message_address (CStreamPacket pe) = V4 0 0"

definition driver_abs :: "('q, 'c, 's, 'z, 'ls, 'k, 'p, 'd, 'l) request_driver \<Rightarrow> SocketAddr pool" where
  "driver_abs s =
     \<lparr>waiting = rd_requests s, running = map fst (rd_inflight s), finished = map message_address (rd_messages s)\<rparr>"

fun driver_event_abs :: "('k, 's) driver_event \<Rightarrow> SocketAddr pool_event" where
  "driver_event_abs (Request a) = Arrive a"
| "driver_event_abs StartAttempt = Start"
| "driver_event_abs (EndAttempt n _ _ _ _) = Finish n"

text \<open>The ECS side still takes messages.\<close>

fun ecs_open :: "('k, 's) driver_event \<Rightarrow> bool" where
  "ecs_open (EndAttempt _ _ _ inc_ok _) = inc_ok"
| "ecs_open _ = True"

lemma remove_nth_map: "map f (remove_nth n xs) = remove_nth n (map f xs)"
  by (simp add: remove_nth_def take_map drop_map)

lemma end_attempt_abs:
  assumes "\<not> rd_stopped s"
  shows "\<not> rd_stopped (end_attempt D n tok connected True conn_ok s)
     \<and> driver_abs (end_attempt D n tok connected True conn_ok s) = pool_step l (Finish n) (driver_abs s)"
  using assms
  by (auto simp: end_attempt_def publish_def driver_abs_def remove_nth_map Let_def split: prod.splits sum.splits)

interpretation cd: bounded_pool "driver_step D" driver_abs driver_event_abs MAX_CONNECTION_ATTEMPTS ecs_open
  "\<lambda>s. \<not> rd_stopped s" for D
proof (unfold_locales, goal_cases)
  case (1 s e)
  show ?case
  proof (cases e)
    case (Request a)
    then show ?thesis using 1 by (simp add: driver_abs_def)
  next
    case StartAttempt
    then show ?thesis
      using 1 by (auto simp: start_attempt_def driver_abs_def Let_def split: list.splits prod.splits)
  next
    case (EndAttempt n tok connected inc_ok conn_ok)
    then show ?thesis using 1 end_attempt_abs [of s D n tok connected conn_ok MAX_CONNECTION_ATTEMPTS] by simp
  qed
qed (simp add: MAX_CONNECTION_ATTEMPTS_def)

lemma driver_warnings:
  fixes s :: "('q, 'c, 's, ('p, 'q, 'ee, 'd, 'z) SerializerAdapter, 'ls, 'k, 'p, 'd, 'l) request_driver"
  assumes "rd_warnings s = (if rd_warned s then 1 else 0)"
  shows "rd_warnings (driver_step D e s) = (if rd_warned (driver_step D e s) then 1 else 0)"
proof (cases e)
  case (EndAttempt n tok connected inc_ok conn_ok)
  then show ?thesis using assms by (auto simp: end_attempt_def split: prod.split)
qed (use assms in \<open>auto simp: start_attempt_def warn_if_stateful_over_datagrams_def Let_def
    split: list.split SerializerAdapter.split\<close>)

lemma driver_warns_once:
  fixes s :: "('q, 'c, 's, ('p, 'q, 'ee, 'd, 'z) SerializerAdapter, 'ls, 'k, 'p, 'd, 'l) request_driver"
  assumes "rd_warnings s = (if rd_warned s then 1 else 0)"
  shows "rd_warnings (fold (driver_step D) es s) \<le> 1"
proof -
  have "rd_warnings (fold (driver_step D) es s) = (if rd_warned (fold (driver_step D) es s) then 1 else 0)"
    using assms by (induction es arbitrary: s) (simp_all add: driver_warnings)
  then show ?thesis by simp
qed

lemma driver_stopped_idle:
  fixes s :: "('q, 'c, 's, ('p, 'q, 'ee, 'd, 'z) SerializerAdapter, 'ls, 'k, 'p, 'd, 'l) request_driver"
  assumes "rd_stopped s \<longrightarrow> rd_inflight s = []"
  shows "rd_stopped (fold (driver_step D) es s) \<longrightarrow> rd_inflight (fold (driver_step D) es s) = []"
proof -
  have step: "rd_stopped (driver_step D e s) \<longrightarrow> rd_inflight (driver_step D e s) = []"
    if "rd_stopped s \<longrightarrow> rd_inflight s = []"
    for e and s :: "('q, 'c, 's, ('p, 'q, 'ee, 'd, 'z) SerializerAdapter, 'ls, 'k, 'p, 'd, 'l) request_driver"
  proof (cases e)
    case (EndAttempt n tok connected inc_ok conn_ok)
    then show ?thesis using that by (auto simp: end_attempt_def split: prod.split)
  qed (use that in \<open>auto simp: start_attempt_def Let_def split: list.split prod.split\<close>)
  show ?thesis using assms by (induction es arbitrary: s) (simp_all add: step)
qed

section \<open>Properties\<close>

text \<open>
  Transport set-ups are run once each, within the limit, and never stall. Over any schedule of
  arrivals, starts and ends, \<open>run_connections\<close> never runs more set-ups at a time than the limit, or one
  if the limit is zero; every transport that arrived is waiting, running or finished, exactly once;
  and a transport that waits while none runs is started by the next start.
\<close>

theorem run_connections_bounded:
  "length (running (run_connections limit es)) \<le> max limit 1
   \<and> mset (waiting (run_connections limit es)) + mset (running (run_connections limit es))
       + mset (finished (run_connections limit es)) = mset (arrivals es)
   \<and> (waiting (run_connections limit es) \<noteq> [] \<and> running (run_connections limit es) = [] \<longrightarrow>
       running (run_connections limit (es @ [Start])) = [hd (waiting (run_connections limit es))])"
  using rc.pool_bounded [of empty_pool limit es] rc.pool_all [of limit es empty_pool]
    rc.pool_progress [of "run_connections limit es" limit]
  by (simp add: run_connections_def empty_pool_def)

theorem run_connections_bounded_witness:
  "running (run_connections 0 ([Arrive 7, Arrive 8] @ [Start])) = [7 :: nat]"
  using run_connections_bounded [of 0 "[Arrive 7, Arrive (8 :: nat)]"]
  by (simp add: run_connections_def empty_pool_def)

text \<open>
  (C12) The client answers every connection request exactly once, with at most eight attempts at a time.
  Over any interleaving of requests, starts and ends of attempts, as long as the application still
  takes events: the driver refines a bounded pool, so the requests made are, as a multiset, those that
  still wait, those in flight (never more than eight) and those answered by one establishment or one
  failure naming their address; it never stops; and a serializer that is unfit for datagrams is warned
  about at most once. Once an establishment can no longer be reported the driver stops for good, with
  no attempt left in flight.
\<close>

theorem connection_requests_answered:
  fixes D :: "('q, 'c, 's, 'h, 'p, 'ee, 'd, 'z, 'ls) driver_config"
    and s :: "('q, 'c, 's, ('p, 'q, 'ee, 'd, 'z) SerializerAdapter, 'ls, 'k, 'p, 'd, 'l) request_driver"
  assumes "s = fold (driver_step D) es (driver_init counter)"
  shows "(list_all ecs_open es \<longrightarrow>
        \<not> rd_stopped s \<and> length (rd_inflight s) \<le> 8
        \<and> mset (arrivals (map driver_event_abs es)) =
            mset (rd_requests s) + mset (map fst (rd_inflight s)) + mset (map message_address (rd_messages s)))
     \<and> rd_warnings s \<le> 1
     \<and> (rd_stopped (driver_step D (EndAttempt n tok (Inr st) False conn_ok) s) \<longleftrightarrow> rd_stopped s \<or> n < length (rd_inflight s))
     \<and> (rd_stopped s \<longrightarrow> rd_inflight s = [] \<and> start_attempt D s = s \<and> end_attempt D n tok connected inc_ok conn_ok s = s)"
proof -
  let ?i = "driver_init counter :: ('q, 'c, 's, ('p, 'q, 'ee, 'd, 'z) SerializerAdapter, 'ls, 'k, 'p, 'd, 'l) request_driver"
  have "\<not> rd_stopped s \<and> length (rd_inflight s) \<le> 8
        \<and> mset (arrivals (map driver_event_abs es)) =
            mset (rd_requests s) + mset (map fst (rd_inflight s)) + mset (map message_address (rd_messages s))"
    if "list_all ecs_open es"
  proof -
    have i: "driver_abs ?i = empty_pool" "\<not> rd_stopped ?i" by (simp_all add: driver_abs_def driver_init_def empty_pool_def)
    have r: "\<not> rd_stopped s" "driver_abs s = fold (pool_step MAX_CONNECTION_ATTEMPTS) (map driver_event_abs es) empty_pool"
      using cd.run_refines [OF i(2) that, of D] assms i(1) by simp_all
    have "length (running (driver_abs s)) \<le> MAX_CONNECTION_ATTEMPTS"
      unfolding r(2) by (rule cd.pool_bounded) (simp add: empty_pool_def)
    moreover have "mset (waiting (driver_abs s)) + mset (running (driver_abs s)) + mset (finished (driver_abs s))
        = mset (arrivals (map driver_event_abs es))"
      unfolding r(2) using cd.pool_all [of "map driver_event_abs es" empty_pool] by (simp add: empty_pool_def)
    ultimately show ?thesis using r(1) by (simp add: driver_abs_def MAX_CONNECTION_ATTEMPTS_def)
  qed
  moreover have "rd_warnings s \<le> 1"
    using driver_warns_once [of ?i D es] assms by (simp add: driver_init_def)
  moreover have "rd_stopped (driver_step D (EndAttempt n tok (Inr st) False conn_ok) s) \<longleftrightarrow> rd_stopped s \<or> n < length (rd_inflight s)"
    by (auto simp: end_attempt_def create_connection_def publish_def Let_def split: prod.split)
  moreover have "rd_stopped s \<longrightarrow> rd_inflight s = []"
    using driver_stopped_idle [of ?i D es] assms by (simp add: driver_init_def)
  ultimately show ?thesis by (auto simp: start_attempt_def end_attempt_def)
qed

definition demo_driver ::
  "(char, char list_chan, nat, UdpConnectionHandle, char, unit, unit, unit, unit) driver_config"
where
  "demo_driver =
     \<lparr>dc_mpsc = list_mpsc, dc_stream = demo_stream, dc_queues = default_queue_settings, dc_limits = 64,
      dc_datagram = True,
      dc_serializer = Mutable \<lparr>mut_serialize = (\<lambda>q z. (Some (Inr []), z)), mut_deserialize = (\<lambda>bs z. (Some (Inl ()), z))\<rparr>
        \<lparr>guarded = (), poisoned = False\<rparr>,
      dc_length = ()\<rparr>"

theorem connection_requests_answered_witness:
  "\<exists>s :: (char, char list_chan, nat, (char, char, unit, unit, unit) SerializerAdapter, unit, demo_token, char, unit, unit)
      request_driver. s = fold (driver_step demo_driver) [Request (V4 0 1), Request (V4 0 2), StartAttempt, StartAttempt,
        EndAttempt 1 (1, []) (Inl (IoError ConnectionRefused ''refused'')) True True] (driver_init 5)
     \<and> \<not> rd_stopped s \<and> rd_warnings s \<le> 1
     \<and> mset [V4 0 1, V4 0 2] = mset (rd_requests s) + mset (map fst (rd_inflight s)) + mset (map message_address (rd_messages s))"
proof -
  let ?es = "[Request (V4 0 1), Request (V4 0 2), StartAttempt, StartAttempt,
      EndAttempt 1 ((1, []) :: demo_token) (Inl (IoError ConnectionRefused ''refused'') :: io_error + nat) True True]"
  define s :: "(char, char list_chan, nat, (char, char, unit, unit, unit) SerializerAdapter, unit, demo_token, char, unit, unit)
      request_driver" where "s = fold (driver_step demo_driver) ?es (driver_init 5)"
  have "list_all ecs_open ?es" "arrivals (map driver_event_abs ?es) = [V4 0 1, V4 0 2]" by simp_all
  then have "\<not> rd_stopped s \<and> rd_warnings s \<le> 1
      \<and> mset [V4 0 1, V4 0 2] = mset (rd_requests s) + mset (map fst (rd_inflight s)) + mset (map message_address (rd_messages s))"
    using connection_requests_answered [OF s_def, of 0 "(1, [])" 0 True] by metis
  then show ?thesis using s_def by blast
qed

end
