(* ===== verification/Stream_Delivery.thy ===== *)
theory Stream_Delivery
  imports Server_Endpoint
begin

text \<open>
  A packet's whole way over a stream: from \<open>send\<close> on the client's connection through the outgoing
  queue, the writer task, the framed byte stream, the server's framed reader, its receive task and the
  lifecycle channel to the events that observers see. The components are those of the other theories;
  here they are put together.
\<close>

section \<open>The writing side\<close>

text \<open>What tokio documents of the bounded channel's order, beside \<open>mpsc_laws\<close>.\<close>

definition fifo_laws :: "('p, 'c) mpsc \<Rightarrow> ('c \<Rightarrow> 'p list) \<Rightarrow> bool" where
  "fifo_laws M pend \<longleftrightarrow>
     (\<forall>n. pend (mpsc_channel M n) = []) \<and>
     (\<forall>p c. pend (snd (mpsc_try_send M p c)) = (if result_ok (fst (mpsc_try_send M p c)) then pend c @ [p] else pend c)) \<and>
     (\<forall>c. case fst (mpsc_recv M c) of
            Ready (Some p) \<Rightarrow> pend c = p # pend (snd (mpsc_recv M c))
          | _ \<Rightarrow> pend c = [] \<and> pend (snd (mpsc_recv M c)) = [])"

lemma list_fifo_laws: "fifo_laws list_mpsc lc_items"
  by (auto simp: fifo_laws_def list_mpsc_def split: list.split)

text \<open>The packet writer of a framed stream, as the writer task calls it.\<close>

definition framed_writer ::
  "(byte list \<Rightarrow> 'w \<Rightarrow> (io_error + unit) \<times> 'w) \<Rightarrow> ('p, 'q, 'ee, 'd, 'z) Serializer
     \<Rightarrow> 'l PacketLengthSerializer \<Rightarrow> ('ee \<Rightarrow> string) \<Rightarrow> ('l \<Rightarrow> string)
     \<Rightarrow> 'q \<Rightarrow> unit \<Rightarrow> 'w \<times> 'z \<Rightarrow> 'h \<Rightarrow> (io_error + unit) poll \<times> ('w \<times> 'z) \<times> 'h"
where
  "framed_writer wr S C se sl packet u wz h =
     (case framed_send wr S C se sl packet (fst wz) (snd wz) of (res, w, z) \<Rightarrow> (Ready res, (w, z), h))"

fun accepted :: "'p out_event list \<Rightarrow> 'p list" where
  "accepted [] = []"
| "accepted (SentOk p # es) = p # accepted es"
| "accepted (_ # es) = accepted es"

fun written :: "'p out_event list \<Rightarrow> 'p list" where
  "written [] = []"
| "written (Received p # es) = p # written es"
| "written (_ # es) = written es"

lemma accepted_append [simp]: "accepted (xs @ ys) = accepted xs @ accepted ys"
  by (induction xs rule: accepted.induct) simp_all

lemma written_append [simp]: "written (xs @ ys) = written xs @ written ys"
  by (induction xs rule: written.induct) simp_all

lemma send_all_snoc:
  "send_all wr S C se sl ps w z = (Inr u, w', z') \<Longrightarrow>
     send_all wr S C se sl (ps @ [p]) w z = (case framed_send wr S C se sl p w' z' of
        (Inl e, x) \<Rightarrow> (Inl e, x) | (Inr _, x) \<Rightarrow> (Inr (), x))"
  by (induction ps arbitrary: w z) (auto split: prod.splits sum.splits)

fun in_hand :: "'p send_pc \<Rightarrow> 'p list" where
  "in_hand (Sending p) = [p]"
| "in_hand _ = []"

text \<open>
  While the task runs, what was accepted is what was written, what is in hand and what is queued; as
  long as no write has failed, the wire and the codec are where sending the written packets in one go
  would have left them.
\<close>

definition writer_ok ::
  "('c \<Rightarrow> 'q list) \<Rightarrow> ('q list \<Rightarrow> (io_error + unit) \<times> 'w \<times> 'z) \<Rightarrow> 'q out_event list
     \<Rightarrow> ('q, 'c, 'h, 'w \<times> 'z) send_task \<Rightarrow> bool"
where
  "writer_ok pend wire log s \<longleftrightarrow>
     (\<exists>c. task_queue s = Reliable c
        \<and> (pc s \<noteq> Finished \<longrightarrow> send_error s = None \<and> accepted log = written log @ in_hand (pc s) @ pend c))
     \<and> prefix (written log) (accepted log)
     \<and> (send_error s = None \<longrightarrow> wire (written log) = (Inr (), task_writer s))"

lemma send_finish_ok:
  assumes "mpsc_laws M pend" "task_queue s = Reliable c"
  shows "\<exists>c' h. send_finish M rd s = Some (s\<lparr>pc := Finished, task_queue := Reliable c', task_handle := h, task_cancelled := True\<rparr>)"
proof -
  obtain rx where "drain_reliable M rd (mpsc_close M c) (task_handle s)
      = Some (rx, (rd ClosedBeforeDelivery ^^ length (pend (mpsc_close M c))) (task_handle s))"
    using drain_reliable_total [OF assms(1), of rd "mpsc_close M c" "task_handle s"] by blast
  then show ?thesis using assms(2) by (simp add: send_finish_def outgoing_receiver_drop_def) blast
qed

lemma writer_finish:
  assumes "mpsc_laws M pend" "task_queue s = Reliable c" "prefix (written log) (accepted log)"
    and "send_error s = None \<longrightarrow> wire (written log) = (Inr (), task_writer s)"
  shows "\<exists>s'. send_finish M rd s = Some s' \<and> writer_ok pend wire log s'"
  using send_finish_ok [OF assms(1,2), of rd] assms(3,4) by (auto simp: writer_ok_def)

lemma writer_queue:
  assumes "fifo_laws M pend" "writer_ok pend wire log s"
  shows "\<exists>l s'. send_packets_step M rd wr (EQueue p) s = Some (l, s') \<and> writer_ok pend wire (log @ l) s'"
proof -
  obtain c where c: "task_queue s = Reliable c" using assms(2) by (auto simp: writer_ok_def)
  obtain r c' where t: "mpsc_try_send M p c = (r, c')" by fastforce
  have pc': "pend c' = (if result_ok r then pend c @ [p] else pend c)"
    using assms(1) t unfolding fifo_laws_def by (metis fst_conv snd_conv)
  have q: "(\<exists>u. r = Inr u) \<or> (\<exists>x. r = Inl (Full x)) \<or> (\<exists>x. r = Inl (Closed x))"
    by (metis TrySendError.exhaust sum.exhaust)
  then show ?thesis
    using assms(2) c t pc'
    by (elim disjE exE) (auto simp: send_packets_step_def outgoing_try_send_def writer_ok_def Let_def)
qed

lemma writer_cancelled:
  assumes "mpsc_laws M pend" "writer_ok pend wire log s"
  shows "\<exists>s'. send_task_cancelled M rd s = Some s' \<and> writer_ok pend wire log s'"
proof -
  obtain c where c: "task_queue s = Reliable c" and ok: "prefix (written log) (accepted log)"
    "send_error s = None \<longrightarrow> wire (written log) = (Inr (), task_writer s)"
    using assms(2) by (auto simp: writer_ok_def)
  then show ?thesis
    using writer_finish [OF assms(1), of _ c log wire rd]
    by (cases "pc s") (auto simp: send_task_cancelled_def)
qed

lemma writer_recv:
  assumes laws: "mpsc_laws M pend" "fifo_laws M pend" and ok: "writer_ok pend wire log s"
    and p: "pc s = Receiving" "\<not> task_cancelled s"
  shows "\<exists>s'. send_task_recv M rd s = Some s' \<and> writer_ok pend wire log s'"
proof -
  obtain c where c: "task_queue s = Reliable c" and i: "send_error s = None" "accepted log = written log @ pend c"
    "wire (written log) = (Inr (), task_writer s)"
    using ok p by (auto simp: writer_ok_def)
  obtain r c' where r: "mpsc_recv M c = (r, c')" by fastforce
  have f: "case r of Ready (Some p) \<Rightarrow> pend c = p # pend c' | _ \<Rightarrow> pend c = [] \<and> pend c' = []"
    using laws(2) r unfolding fifo_laws_def by (metis fst_conv snd_conv)
  show ?thesis
  proof (cases r)
    case Pending
    then show ?thesis using c r f i p by (simp add: send_task_recv_def outgoing_recv_def writer_ok_def)
  next
    case (Ready x)
    show ?thesis
    proof (cases x)
      case None
      have "prefix (written log) (accepted log)" using i(2) by simp
      then show ?thesis
        using writer_finish [OF laws(1), of "s\<lparr>task_queue := Reliable c'\<rparr>" c' log wire rd] i c r Ready None
        by (simp add: send_task_recv_def outgoing_recv_def)
    next
      case (Some q)
      then show ?thesis using c r f i p Ready by (simp add: send_task_recv_def outgoing_recv_def writer_ok_def)
    qed
  qed
qed

lemma writer_write:
  assumes laws: "mpsc_laws M pend" and ok: "writer_ok pend (\<lambda>ps. send_all wr S C se sl ps w z) log s"
    and p: "pc s = Sending p" "\<not> task_cancelled s"
  shows "\<exists>l s'. send_packets_step M rd (framed_writer wr S C se sl) (EWrite u) s = Some (l, s')
     \<and> writer_ok pend (\<lambda>ps. send_all wr S C se sl ps w z) (log @ l) s'"
proof -
  obtain c where c: "task_queue s = Reliable c" and i: "send_error s = None" "accepted log = written log @ p # pend c"
    "send_all wr S C se sl (written log) w z = (Inr (), task_writer s)"
    using ok p by (auto simp: writer_ok_def)
  obtain res w' z' where f: "framed_send wr S C se sl p (fst (task_writer s)) (snd (task_writer s)) = (res, w', z')"
    by (rule prod_cases3)
  have all: "send_all wr S C se sl (written log @ [p]) w z
      = (case framed_send wr S C se sl p (fst (task_writer s)) (snd (task_writer s)) of
           (Inl e, x) \<Rightarrow> (Inl e, x) | (Inr _, x) \<Rightarrow> (Inr (), x))"
    using send_all_snoc [where w' = "fst (task_writer s)" and z' = "snd (task_writer s)"] i(3) by simp
  show ?thesis
  proof (cases res)
    case (Inr v)
    then show ?thesis
      using p f c i all
      by (simp add: send_packets_step_def framed_writer_def send_task_write_def writer_ok_def Let_def)
  next
    case (Inl err)
    let ?s = "s\<lparr>task_writer := (w', z'), task_handle := pending_drop rd (pending_finish (Inl err) pending_new) (task_handle s),
      send_error := Some err\<rparr>"
    have "\<exists>s'. send_finish M rd ?s = Some s' \<and> writer_ok pend (\<lambda>ps. send_all wr S C se sl ps w z) (log @ l) s'"
      if "l = [] \<or> l = [Received p]" for l
      using that i(2) c by (intro writer_finish [OF laws, of _ c]) auto
    then show ?thesis
      using p f Inl by (simp add: send_packets_step_def framed_writer_def send_task_write_def Let_def)
  qed
qed

lemma writer_step:
  assumes laws: "mpsc_laws M pend" "fifo_laws M pend" and ok: "writer_ok pend (\<lambda>ps. send_all wr S C se sl ps w z) log s"
  shows "\<exists>l s'. send_packets_step M rd (framed_writer wr S C se sl) ev s = Some (l, s')
     \<and> writer_ok pend (\<lambda>ps. send_all wr S C se sl ps w z) (log @ l) s'"
proof (cases ev)
  case (EQueue q)
  then show ?thesis using writer_queue [OF laws(2) ok] by blast
next
  case ECancel
  then show ?thesis using ok by (simp add: send_packets_step_def writer_ok_def)
next
  case EPoll
  then show ?thesis
    using ok writer_cancelled [OF laws(1) ok, of rd] writer_recv [OF laws ok, of rd]
    by (cases "pc s"; cases "task_cancelled s") (auto simp: send_packets_step_def)
next
  case (EWrite u)
  show ?thesis
  proof (cases "pc s")
    case (Sending q)
    then show ?thesis
      using EWrite writer_write [OF laws(1) ok] writer_cancelled [OF laws(1) ok, of rd]
      by (cases "task_cancelled s") (auto simp: send_packets_step_def)
  qed (use EWrite ok in \<open>simp_all add: send_packets_step_def\<close>)
qed

lemma writer_run:
  assumes laws: "mpsc_laws M pend" "fifo_laws M pend" and "writer_ok pend (\<lambda>ps. send_all wr S C se sl ps w z) log s"
  shows "\<exists>l s'. send_packets_run M rd (framed_writer wr S C se sl) evs s = Some (l, s')
     \<and> writer_ok pend (\<lambda>ps. send_all wr S C se sl ps w z) (log @ l) s'"
  using assms(3)
proof (induction evs arbitrary: log s)
  case (Cons ev evs)
  obtain l s1 where s: "send_packets_step M rd (framed_writer wr S C se sl) ev s = Some (l, s1)"
    and ok: "writer_ok pend (\<lambda>ps. send_all wr S C se sl ps w z) (log @ l) s1"
    using writer_step [OF laws Cons.prems] by blast
  show ?case using Cons.IH [OF ok] s by auto
qed simp

section \<open>The reading side\<close>

text \<open>What the receive task's iterations meet when the reader is a framed stream and nothing else happens.\<close>

definition stream_env ::
  "ConnectionId \<Rightarrow> ('d, 'l) ReceiveError + 'p \<times> instant \<Rightarrow> ('p PacketReceiveEvent, 'd, 'l) recv_env"
where
  "stream_env i res =
     \<lparr>re_send_error = None, re_cancelled = False,
      re_read = map_sum id (\<lambda>(p, t). \<lparr>pe_connection = i, pe_packet = p, pe_received_at = t\<rparr>) res,
      re_fwd_cancelled = False, re_incoming_ok = True\<rparr>"

fun stream_envs ::
  "nat \<Rightarrow> (nat \<Rightarrow> instant) \<Rightarrow> (usize \<Rightarrow> 'r \<Rightarrow> (io_error + byte list) \<times> 'r) \<Rightarrow> ('p, 'q, 'ee, 'd, 'z) Serializer
     \<Rightarrow> 'l PacketLengthSerializer \<Rightarrow> ReceiveLimits \<Rightarrow> ConnectionId \<Rightarrow> 'r \<Rightarrow> 'z
     \<Rightarrow> ('p PacketReceiveEvent, 'd, 'l) recv_env list option"
where
  "stream_envs 0 clock rx S C l i r z = Some []"
| "stream_envs (Suc k) clock rx S C l i r z =
     (case receive_with_timestamp rx S C l (clock k) r z of
        None \<Rightarrow> None
      | Some (Inl err, _) \<Rightarrow> Some [stream_env i (Inl err)]
      | Some (Inr pt, r', z') \<Rightarrow> map_option ((#) (stream_env i (Inr pt))) (stream_envs k clock rx S C l i r' z'))"

lemma framed_receive_timed:
  assumes "framed_receive rx S C l () r z = Some (Inr p, r', z')"
  shows "receive_with_timestamp rx S C l t r z = Some (Inr (p, t), r', z')"
  using assms
  by (auto simp: framed_receive_def receive_with_timestamp_def split: option.splits sum.splits prod.splits if_splits)

lemma stream_envs_receive_n:
  assumes "receive_n k rx S C l r z = Some (Inr ps, r', z')" and "stream_envs m clock rx S C l i r' z' = Some rest"
  shows "\<exists>es. stream_envs (k + m) clock rx S C l i r z = Some (es @ rest)
     \<and> (\<exists>ts. length ts = length ps \<and> es = map (\<lambda>x. stream_env i (Inr x)) (zip ps ts))"
  using assms(1)
proof (induction k arbitrary: r z ps)
  case 0
  then show ?case using assms(2) by auto
next
  case (Suc k)
  obtain p r1 z1 where f: "framed_receive rx S C l () r z = Some (Inr p, r1, z1)"
    using Suc.prems by (auto split: option.splits sum.splits)
  obtain qs where q: "receive_n k rx S C l r1 z1 = Some (Inr qs, r', z')" "ps = p # qs"
    using Suc.prems f by (auto split: option.splits sum.splits) (metis map_sum.simps old.sum.exhaust sum.inject(2) Inl_Inr_False)
  obtain es ts where es: "stream_envs (k + m) clock rx S C l i r1 z1 = Some (es @ rest)"
    "length ts = length qs" "es = map (\<lambda>x. stream_env i (Inr x)) (zip qs ts)"
    using Suc.IH [OF q(1)] by blast
  show ?case
    using framed_receive_timed [OF f, of "clock (k + m)"] es q(2)
    by (auto intro!: exI [of _ "stream_env i (Inr (p, clock (k + m))) # es"] exI [of _ "clock (k + m) # ts"])
qed

text \<open>At the end of the stream the reader reports the I/O error it meets.\<close>

lemma stream_envs_end:
  fixes S :: "('p, 'q, 'ee, 'd, 'z) Serializer"
  assumes "read_laws rx view" "view r = []"
  shows "\<exists>err. stream_envs (Suc 0) clock rx S (fixed_codec e n) l i r z = Some [stream_env i (Inl (Io err))]"
proof -
  have "length (view r) < prefix_size n" using assms(2) by (cases n) (simp_all add: prefix_size_def)
  then obtain err r' where "rx (prefix_size n) r = (Inl err, r')" by (rule read_laws_err [OF assms(1)])
  then show ?thesis
    by (simp add: receive_with_timestamp_def fixed_read_length_eq [OF assms(1)]) blast
qed

lemma receive_loop_stream:
  "receive_loop False rd on_evict (map (\<lambda>x. stream_env i (Inr x)) xs @ [stream_env i (Inl err)]) fw h
     = (Some err, map (\<lambda>(p, t). TmPacket \<lparr>pe_connection = i, pe_packet = p, pe_received_at = t\<rparr>) xs, fw, h)"
  by (induction xs) (auto simp: stream_env_def)

section \<open>From end to end\<close>

definition session_events ::
  "SocketAddr \<Rightarrow> ConnectionId \<Rightarrow> 'p PacketReceiveEvent list \<Rightarrow> ('d, 'l) ReceiveError \<Rightarrow> ('p, 'd, 'l) server_event list"
where
  "session_events peer i ps err = NewConnectionEvent peer i # map SPacketEvent ps @ [SDisconnectionEvent err i]"

text \<open>The bytes of a successful run reach the server's receive task as the packets written.\<close>

lemma wire_to_messages:
  assumes w: "write_laws wr wview" and r: "read_laws rx view" and sync: "codec_sync S S' R"
    and limit: "\<And>p z bs z'. ser_serialize S p z = (Inr bs, z') \<Longrightarrow> length bs \<le> max_packet_size l \<and> length bs \<le> usize_max"
    and "R zs zr" and "wview w = []"
    and "send_all wr S (fixed_codec e n) se sl ps w zs = (Inr u, w', zs')" and "view r = wview w'"
  shows "\<exists>es qs err. stream_envs (Suc (length ps)) clock rx S' (fixed_codec e n) l (conn_id ecs) r zr = Some es
     \<and> server_receive_packets False rd on_evict es None fw ecs
         = Some (map SStreamPacket qs @ [SClosed (Io err) (conn_id ecs)], peer_addr ecs)
     \<and> map pe_packet qs = ps \<and> (\<forall>q \<in> set qs. pe_connection q = conn_id ecs)"
proof -
  have "\<exists>bytes. wview w' = wview w @ bytes \<and> (\<forall>r rest. view r = bytes @ rest \<longrightarrow>
       (\<exists>r' zr'. receive_n (length ps) rx S' (fixed_codec e n) l r zr = Some (Inr ps, r', zr') \<and> view r' = rest \<and> R zs' zr'))"
    by (rule conversation [OF w r sync _ assms(5,7)]) (rule limit)
  then obtain bytes where b: "wview w' = wview w @ bytes"
    and c: "\<And>r rest. view r = bytes @ rest \<Longrightarrow>
       \<exists>r' zr'. receive_n (length ps) rx S' (fixed_codec e n) l r zr = Some (Inr ps, r', zr') \<and> view r' = rest \<and> R zs' zr'"
    by blast
  have "view r = bytes @ []" using b assms(6,8) by simp
  then obtain r' zr' where n: "receive_n (length ps) rx S' (fixed_codec e n) l r zr = Some (Inr ps, r', zr')" "view r' = []"
    using c by blast
  obtain err where "stream_envs (Suc 0) clock rx S' (fixed_codec e n) l (conn_id ecs) r' zr' = Some [stream_env (conn_id ecs) (Inl (Io err))]"
    using stream_envs_end [where clock = clock and S = S' and e = e and n = n and l = l and i = "conn_id ecs" and z = zr',
        OF r n(2)] by blast
  from stream_envs_receive_n [OF n(1) this] obtain ts where ts: "length ts = length ps"
    "stream_envs (Suc (length ps)) clock rx S' (fixed_codec e n) l (conn_id ecs) r zr
       = Some (map (\<lambda>x. stream_env (conn_id ecs) (Inr x)) (zip ps ts) @ [stream_env (conn_id ecs) (Inl (Io err))])"
    by auto
  let ?qs = "map (\<lambda>(p, t). \<lparr>pe_connection = conn_id ecs, pe_packet = p, pe_received_at = t\<rparr>) (zip ps ts)"
  have "map pe_packet ?qs = ps" using ts(1) by (simp add: split_beta comp_def map_fst_zip [symmetric] del: map_fst_zip) (metis map_fst_zip)
  moreover have "server_receive_packets False rd on_evict
      (map (\<lambda>x. stream_env (conn_id ecs) (Inr x)) (zip ps ts) @ [stream_env (conn_id ecs) (Inl (Io err))]) None fw ecs
      = Some (map SStreamPacket ?qs @ [SClosed (Io err) (conn_id ecs)], peer_addr ecs)"
    by (simp add: server_receive_packets_def receive_packets_def receive_loop_stream server_task_message_def split_beta)
  moreover have "\<forall>q \<in> set ?qs. pe_connection q = conn_id ecs" by auto
  ultimately show ?thesis using ts(2) by blast
qed

text \<open>The messages of one connection reach the observers in order, whatever the others send in between.\<close>

lemma messages_to_events:
  assumes "mpsc_laws MI pend" and m: "filter (\<lambda>m. message_conn m = i) (pend rx) = ms" and "triggered w = []"
  shows "prefix (filter (\<lambda>e. event_conn e = i) (triggered (snd (server_frames MI settings gs k rx w)))) (map server_event_of ms)
     \<and> (length (pend rx) \<le> k * events_per_frame (resolve_queues settings gs) \<longrightarrow>
          filter (\<lambda>e. event_conn e = i) (triggered (snd (server_frames MI settings gs k rx w))) = map server_event_of ms)"
proof -
  let ?n = "k * events_per_frame (resolve_queues settings gs)"
  have "filter (\<lambda>e. event_conn e = i) (triggered (snd (server_frames MI settings gs k rx w)))
      = map server_event_of (filter (\<lambda>m. message_conn m = i) (take ?n (pend rx)))"
    using server_frames_fifo [OF assms(1), of settings gs k rx w] assms(3)
    by (auto simp: server_fold_triggered filter_events)
  moreover have "prefix (filter (\<lambda>m. message_conn m = i) (take ?n (pend rx))) ms"
    unfolding m [symmetric] by (intro filter_mono_prefix take_is_prefix)
  ultimately show ?thesis using m by (auto intro: map_mono_prefix)
qed


definition demo_writer ::
  "(byte list, byte list list_chan, UdpConnectionHandle, byte list \<times> nat) send_task"
where
  "demo_writer =
     \<lparr>pc = Receiving, task_queue = fst (outgoing_channel list_mpsc default_queue_settings False),
      task_handle = handle_new 1200 None, task_writer = ([], 0), task_cancelled = False, send_error = None\<rparr>"

definition demo_run ::
  "(byte list out_event list \<times> (byte list, byte list list_chan, UdpConnectionHandle, byte list \<times> nat) send_task) option"
where
  "demo_run = send_packets_run list_mpsc record_drop
     (framed_writer pipe_write demo_codec (fixed_codec BigEndian U16) (\<lambda>_. []) (\<lambda>_. []))
     [EQueue [7, 8], EPoll, EWrite (), EQueue [5], EPoll, ECancel, EPoll] demo_writer"

lemma demo_run_error: "demo_run = Some (log, t) \<Longrightarrow> send_error t = None"
  by (auto simp: demo_run_def demo_writer_def send_packets_step_def outgoing_try_send_def outgoing_channel_def
      receiver_from_def outgoing_recv_def list_mpsc_def send_task_recv_def framed_writer_def send_task_write_def
      framed_send_def demo_codec_def fixed_codec_def serialize_packet_length_def number_max_def pipe_write_def
      send_task_cancelled_def send_finish_def default_queue_settings_def Let_def
      split: prod.splits option.splits sum.splits if_splits)


end
