(* ===== verification/Datagram_Delivery.thy ===== *)
theory Datagram_Delivery
  imports Server_Endpoint "HOL-Library.Sublist"
begin

text \<open>
  A datagram's whole way into a server: from the socket through the listener's routing, the raw queue
  of its peer, the read half, the receive task's forwarder and the queue to ECS to the events that
  observers see, with connections established and dropped and frames run in any order. The components
  are those of the other theories; here they are put together for \<open>UdpProtocol\<close>. The lifecycle channel
  of a datagram endpoint carries no packets, so a frame's messages are an argument. Counters of the
  handles are the subject of the components' own theorems and are not followed here.
\<close>

section \<open>State\<close>

text \<open>\<open>NetworkStream for UdpServerStream\<close>; the handle lives in the peer's entry.\<close>

definition udp_network_stream ::
  "('k, 'ts, 'sm) UdpNetworkListener \<Rightarrow> (UdpServerStream, UdpConnectionHandle) NetworkStream"
where
  "udp_network_stream w =
     \<lparr>ns_transport = (\<lambda>st. ps_handle (peer_state (entries w ! reg_state (registration st)))),
      ns_local_addr = srv_local_addr, ns_peer_addr = srv_peer_addr\<rparr>"

record ('p, 'q, 'ee, 'd, 'z, 'c, 'k, 'ts, 'sm) udp_config =
  uc_tokens :: "('k, 'ts) tokens"
  uc_semaphore :: "'sm semaphore"
  uc_serializer :: "('p, 'q, 'ee, 'd, 'z) Serializer"
  uc_codec :: 'z
  uc_limits :: ReceiveLimits
  uc_mpsc :: "('q, 'c) mpsc"
  uc_queues :: NetworkQueueSettings

text \<open>The reading side of an established connection.\<close>

record 'z udp_reader =
  ur_registration :: PeerRegistration
  ur_conn :: ConnectionId
  ur_codec :: 'z
  ur_open :: bool

record ('p, 'q, 'd, 'l, 'z, 'c, 'k, 'ts, 'sm) udp_server =
  us_listener :: "('k, 'ts, 'sm) UdpNetworkListener"
  us_live :: "PeerRegistration list"
  us_readers :: "'z udp_reader list"
  us_counter :: usize
  us_queue :: "'p PacketReceiveEvent Shared"
  us_world :: "('q, 'c, UdpConnectionHandle, 'k, 'ts, ('p, 'd, 'l) server_event) endpoint_world"

datatype ('p, 'd, 'l, 'k) us_event =
    Arrive SocketAddr "byte list" instant
  | Establish PeerRegistration 'k SocketAddr
  | DrawId
  | ReadStream nat bool
  | LifecycleFrame "('p, 'd, 'l) server_message list"
  | DatagramFrame
  | DropStream PeerRegistration
  | ClosePeer nat
  | Disconnect ConnectionId
  | DropListener

section \<open>Steps\<close>

text \<open>A datagram is received from the socket: \<open>accept\<close> of the listener dispatches it.\<close>

definition arrive ::
  "('p, 'q, 'ee, 'd, 'z, 'c, 'k, 'ts, 'sm) udp_config \<Rightarrow> SocketAddr \<Rightarrow> byte list \<Rightarrow> instant
     \<Rightarrow> ('p, 'q, 'd, 'l, 'z, 'c, 'k, 'ts, 'sm) udp_server \<Rightarrow> ('p, 'q, 'd, 'l, 'z, 'c, 'k, 'ts, 'sm) udp_server"
where
  "arrive C addr bs at s =
     (if \<not> alive (us_listener s) then s
      else case dispatch (uc_tokens C) (uc_semaphore C) bs addr at (us_listener s) of
             (r, w) \<Rightarrow> s\<lparr>us_listener := w,
                         us_live := (case r of None \<Rightarrow> us_live s | Some reg \<Rightarrow> reg # us_live s)\<rparr>)"

text \<open>An accepted stream becomes a connection.\<close>

definition establish_stream ::
  "('p, 'q, 'ee, 'd, 'z, 'c, 'k, 'ts, 'sm) udp_config \<Rightarrow> PeerRegistration \<Rightarrow> 'k \<Rightarrow> SocketAddr
     \<Rightarrow> ('p, 'q, 'd, 'l, 'z, 'c, 'k, 'ts, 'sm) udp_server \<Rightarrow> ('p, 'q, 'd, 'l, 'z, 'c, 'k, 'ts, 'sm) udp_server"
where
  "establish_stream C reg tok local s =
     (if reg \<in> set (us_live s) \<and> reg \<notin> set (map ur_registration (us_readers s))
      then (case establish (uc_mpsc C) (udp_network_stream (us_listener s)) True True True tok
                   (server_stream_accepted reg (reg_address reg) local) (uc_codec C) () (uc_queues C)
                   (uc_limits C) (us_counter s)
                   :: ('p, 'd, 'l) server_message list \<times> _ \<times> _ \<times> _ of
              (_, ecs, _, counter) \<Rightarrow>
                s\<lparr>us_counter := counter,
                  us_readers := us_readers s @ [\<lparr>ur_registration = reg, ur_conn = conn_id ecs,
                                                 ur_codec = uc_codec C, ur_open = True\<rparr>],
                  us_world := (us_world s)\<lparr>conns := (conns (us_world s))(conn_id ecs \<mapsto> ecs)\<rparr>\<rparr>)
      else s)"

text \<open>The receive task of connection number \<open>n\<close> ends: it cancels the connection and closes the read half.\<close>

definition end_reader ::
  "('p, 'q, 'ee, 'd, 'z, 'c, 'k, 'ts, 'sm) udp_config \<Rightarrow> nat
     \<Rightarrow> ('p, 'q, 'd, 'l, 'z, 'c, 'k, 'ts, 'sm) udp_server \<Rightarrow> ('p, 'q, 'd, 'l, 'z, 'c, 'k, 'ts, 'sm) udp_server"
where
  "end_reader C n s =
     (let rd = us_readers s ! n;
          world = (case conns (us_world s) (ur_conn rd) of
                     None \<Rightarrow> us_world s
                   | Some ecs \<Rightarrow> (us_world s)\<lparr>world_tokens := tok_cancel (uc_tokens C) (disconnect_task ecs) (world_tokens (us_world s))\<rparr>)
      in s\<lparr>us_world := world,
           us_listener := peer_close (uc_tokens C) (reg_state (ur_registration rd)) (us_listener s),
           us_readers := (us_readers s)[n := rd\<lparr>ur_open := False\<rparr>]\<rparr>)"

text \<open>
  A poll of connection number \<open>n\<close>'s receive task; \<open>writer_failed\<close> says whether the send task has reported
  an error. The read half takes the next good datagram of its raw queue, and the packet is forwarded
  to ECS.
\<close>

definition read_stream ::
  "('p, 'q, 'ee, 'd, 'z, 'c, 'k, 'ts, 'sm) udp_config \<Rightarrow> nat \<Rightarrow> bool
     \<Rightarrow> ('p, 'q, 'd, 'l, 'z, 'c, 'k, 'ts, 'sm) udp_server \<Rightarrow> ('p, 'q, 'd, 'l, 'z, 'c, 'k, 'ts, 'sm) udp_server"
where
  "read_stream C n writer_failed s =
     (if \<not> n < length (us_readers s) \<or> \<not> ur_open (us_readers s ! n) then s
      else if writer_failed \<or> world_cancelled (uc_tokens C) (us_world s) (ur_conn (us_readers s ! n)) then end_reader C n s
      else
        (let rd = us_readers s ! n; w = us_listener s; i = reg_state (ur_registration rd); p = entries w ! i in
         case (udp_receive queue_next (peer_is_closed (uc_tokens C) i w) False (uc_serializer C) (uc_limits C)
                 (peer_queue p) (ps_handle (peer_state p)) (ur_codec rd)
               :: ((('d, 'l) ReceiveError + 'p \<times> instant) poll \<times> _) option) of
           None \<Rightarrow> s
         | Some (res, failed, q, h, z) \<Rightarrow>
             (let w1 = upd_entry i (\<lambda>p. p\<lparr>peer_queue := q, peer_state := (peer_state p)\<lparr>ps_handle := h\<rparr>\<rparr>) w;
                  w2 = (if failed then peer_close (uc_tokens C) i w1 else w1);
                  s1 = s\<lparr>us_listener := w2, us_readers := (us_readers s)[n := rd\<lparr>ur_codec := z\<rparr>]\<rparr>
              in case res of
                   Pending \<Rightarrow> s1
                 | Ready (Inl err) \<Rightarrow> end_reader C n s1
                 | Ready (Inr (packet, at)) \<Rightarrow>
                     (case forward (\<lambda>r. upd_conn (ur_conn rd) (ecs_record_drop record_drop r))
                             (\<lambda>pe. upd_conn (pe_connection pe) (ecs_record_drop record_drop ReceiveQueueEvicted))
                             (world_cancelled (uc_tokens C) (us_world s) (ur_conn rd))
                             \<lparr>pe_connection = ur_conn rd, pe_packet = packet, pe_received_at = at\<rparr>
                             \<lparr>fwd_sender = us_queue s, fwd_datagram = True\<rparr> (us_world s) of
                        (forwarded, fw, world, _) \<Rightarrow>
                          (let s2 = s1\<lparr>us_queue := fwd_sender fw, us_world := world\<rparr> in
                           if forwarded = Ready True then s2 else end_reader C n s2)))))"

text \<open>Dropping the stream, or its read half, closes the peer, drops the raw queue and the registration.\<close>

definition drop_stream ::
  "('p, 'q, 'ee, 'd, 'z, 'c, 'k, 'ts, 'sm) udp_config \<Rightarrow> PeerRegistration
     \<Rightarrow> ('p, 'q, 'd, 'l, 'z, 'c, 'k, 'ts, 'sm) udp_server \<Rightarrow> ('p, 'q, 'd, 'l, 'z, 'c, 'k, 'ts, 'sm) udp_server"
where
  "drop_stream C reg s =
     (if reg \<in> set (us_live s)
      then s\<lparr>us_listener := registration_drop (uc_tokens C) (uc_semaphore C) reg
                 (upd_entry (reg_state reg) tracked_drop (peer_close (uc_tokens C) (reg_state reg) (us_listener s))),
             us_live := remove1 reg (us_live s),
             us_readers := map (\<lambda>rd. if ur_registration rd = reg then rd\<lparr>ur_open := False\<rparr> else rd) (us_readers s)\<rparr>
      else s)"

fun lifecycle :: "('p, 'd, 'l) server_message \<Rightarrow> bool" where
  "lifecycle (SStreamPacket pe) = False"
| "lifecycle _ = True"

fun us_step ::
  "('p, 'q, 'ee, 'd, 'z, 'c, 'k, 'ts, 'sm) udp_config \<Rightarrow> ('p, 'd, 'l, 'k) us_event
     \<Rightarrow> ('p, 'q, 'd, 'l, 'z, 'c, 'k, 'ts, 'sm) udp_server \<Rightarrow> ('p, 'q, 'd, 'l, 'z, 'c, 'k, 'ts, 'sm) udp_server"
where
  "us_step C (Arrive addr bs at) s = arrive C addr bs at s"
| "us_step C (Establish reg tok local) s = establish_stream C reg tok local s"
| "us_step C DrawId s = s\<lparr>us_counter := snd (id_next (us_counter s))\<rparr>"
| "us_step C (ReadStream n writer_failed) s = read_stream C n writer_failed s"
| "us_step C (LifecycleFrame ms) s = s\<lparr>us_world := fold server_apply (filter lifecycle ms) (us_world s)\<rparr>"
| "us_step C DatagramFrame s =
     (case server_receive_datagram_packets (uc_tokens C) record_drop None (Some (uc_queues C)) (us_queue s) (us_world s) of
        (q, world) \<Rightarrow> s\<lparr>us_queue := q, us_world := world\<rparr>)"
| "us_step C (DropStream reg) s = drop_stream C reg s"
| "us_step C (ClosePeer i) s = s\<lparr>us_listener := peer_close (uc_tokens C) i (us_listener s)\<rparr>"
| "us_step C (Disconnect c) s =
     (case conns (us_world s) c of
        None \<Rightarrow> s
      | Some ecs \<Rightarrow> s\<lparr>us_world := (us_world s)\<lparr>world_tokens := ecs_disconnect (uc_tokens C) ecs (world_tokens (us_world s))\<rparr>\<rparr>)"
| "us_step C DropListener s =
     (if alive (us_listener s) then s\<lparr>us_listener := listener_drop (uc_tokens C) (us_listener s)\<rparr> else s)"

definition us_init ::
  "('p, 'q, 'ee, 'd, 'z, 'c, 'k, 'ts, 'sm) udp_config \<Rightarrow> ('k, 'ts, 'sm) UdpNetworkListener \<Rightarrow> 'ts \<Rightarrow> usize
     \<Rightarrow> ('p, 'q, 'd, 'l, 'z, 'c, 'k, 'ts, 'sm) udp_server"
where
  "us_init C w ts counter =
     \<lparr>us_listener = w, us_live = [], us_readers = [], us_counter = counter,
      us_queue = lossy_channel (max (receive_capacity (uc_queues C)) 1) usize_max (datagram_receive_overflow (uc_queues C)),
      us_world = \<lparr>conns = (\<lambda>_. None), registry = [], current = None, world_tokens = ts, triggered = []\<rparr>\<rparr>"

section \<open>Embeddings\<close>

text \<open>Each of \<open>xs\<close> is matched with an element of \<open>ys\<close>, in the same order, and none is used twice.\<close>

inductive embeds :: "('a \<Rightarrow> 'b \<Rightarrow> bool) \<Rightarrow> 'a list \<Rightarrow> 'b list \<Rightarrow> bool" for P where
  embeds_Nil [simp, intro]: "embeds P [] ys"
| embeds_skip: "embeds P xs ys \<Longrightarrow> embeds P xs (y # ys)"
| embeds_match: "P x y \<Longrightarrow> embeds P xs ys \<Longrightarrow> embeds P (x # xs) (y # ys)"

inductive_cases embeds_ConsE: "embeds P xs (y # ys)"
inductive_simps embeds_right_Nil [simp]: "embeds P xs []"

lemma subseq_embeds: "subseq xs ys \<Longrightarrow> embeds (=) xs ys"
  by (induction rule: list_emb.induct) (auto intro: embeds.intros)

lemma embeds_eq_iff: "embeds (=) xs ys \<longleftrightarrow> subseq xs ys"
proof
  show "embeds (=) xs ys \<Longrightarrow> subseq xs ys" by (induction rule: embeds.induct) auto
qed (rule subseq_embeds)

lemma embeds_compose:
  assumes "embeds R xs ys" "embeds Q ys zs" and "\<And>x y z. R x y \<Longrightarrow> Q y z \<Longrightarrow> Q' x z"
  shows "embeds Q' xs zs"
  using assms(2,1)
proof (induction arbitrary: xs rule: embeds.induct)
  case (embeds_skip ys zs z)
  then show ?case by (auto intro: embeds.embeds_skip)
next
  case (embeds_match y z ys zs)
  from embeds_match.prems show ?case
    using embeds_match.IH assms(3) embeds_match.hyps(1)
    by (elim embeds_ConsE) (auto intro: embeds.embeds_match embeds.embeds_skip)
qed simp

lemma embeds_append: "embeds P xs ys \<Longrightarrow> embeds P xs' ys' \<Longrightarrow> embeds P (xs @ xs') (ys @ ys')"
proof (induction rule: embeds.induct)
  case (embeds_Nil ys)
  then show ?case by (induction ys) (auto intro: embeds.embeds_skip)
qed (auto intro: embeds.embeds_skip embeds.embeds_match)

lemma embeds_map_left: "embeds P (map f xs) ys \<longleftrightarrow> embeds (\<lambda>x. P (f x)) xs ys"
proof
  assume "embeds P (map f xs) ys"
  moreover have "embeds (\<lambda>x y. y = f x) xs (map f xs)" by (induction xs) (auto intro: embeds_match)
  ultimately show "embeds (\<lambda>x. P (f x)) xs ys" using embeds_compose by fastforce
next
  assume "embeds (\<lambda>x. P (f x)) xs ys"
  moreover have "embeds (\<lambda>y x. y = f x) (map f xs) xs" by (induction xs) (auto intro: embeds_match)
  ultimately show "embeds P (map f xs) ys" using embeds_compose by fastforce
qed

lemma embeds_set: "embeds P xs ys \<Longrightarrow> x \<in> set xs \<Longrightarrow> \<exists>y \<in> set ys. P x y"
  by (induction rule: embeds.induct) auto

text \<open>
  Packets on their way to the observers and datagrams still in the raw queue, in this order, embed in
  the datagrams routed to the peer; \<open>P\<close> relates a packet to the datagram it was decoded from.
\<close>

definition passes :: "('e \<Rightarrow> 'g \<Rightarrow> bool) \<Rightarrow> 'e list \<Rightarrow> 'g list \<Rightarrow> 'g list \<Rightarrow> bool" where
  "passes P seen raw routed =
     embeds (\<lambda>x d. case x of Inl e \<Rightarrow> P e d | Inr d' \<Rightarrow> d' = d) (map Inl seen @ map Inr raw) routed"

lemma passes_mono:
  assumes "passes P seen raw routed" "subseq seen' seen" "subseq raw' raw"
  shows "passes P seen' raw' routed"
proof -
  have "embeds (=) (map Inl seen' @ map Inr raw') (map Inl seen @ map Inr raw)"
    using assms(2,3) by (intro subseq_embeds list_emb_append_mono) (simp_all add: subseq_map)
  from embeds_compose [OF this assms(1) [unfolded passes_def]] show ?thesis
    unfolding passes_def by simp
qed

lemma passes_arrive:
  assumes "passes P seen raw routed" "subseq raw' (raw @ [d])"
  shows "passes P seen raw' (routed @ [d])"
proof -
  have "passes P seen (raw @ [d]) (routed @ [d])"
    using embeds_append [OF assms(1) [unfolded passes_def], of "[Inr d]" "[d]"]
    by (simp add: passes_def embeds_match)
  from passes_mono [OF this _ assms(2), of seen] show ?thesis by simp
qed

lemma passes_read:
  assumes "passes P seen (skipped @ d # raw) routed" "P e d"
  shows "passes P (seen @ [e]) raw routed"
proof -
  let ?R = "\<lambda>x y. x = y \<or> (\<exists>e d. x = Inl e \<and> y = Inr d \<and> P e d)"
  have refl: "embeds ?R xs xs" for xs by (induction xs) (auto intro: embeds_match)
  have "embeds ?R (map Inl seen @ [] @ Inl e # map Inr raw) (map Inl seen @ map Inr skipped @ Inr d # map Inr raw)"
    using assms(2) by (intro embeds_append embeds_match refl) auto
  moreover have "embeds (\<lambda>x d. case x of Inl e \<Rightarrow> P e d | Inr d' \<Rightarrow> d' = d)
      (map Inl seen @ map Inr skipped @ Inr d # map Inr raw) routed"
    using assms(1) by (simp add: passes_def)
  ultimately have "embeds (\<lambda>x d. case x of Inl e \<Rightarrow> P e d | Inr d' \<Rightarrow> d' = d)
      (map Inl seen @ [] @ Inl e # map Inr raw) routed"
    by (rule embeds_compose) (auto split: sum.splits)
  then show ?thesis by (simp add: passes_def)
qed

lemma passes_seen:
  assumes "passes P seen raw routed"
  shows "embeds P seen routed"
  using passes_mono [OF assms, of seen "[]"] by (simp add: passes_def embeds_map_left)

section \<open>Raw queues\<close>

lemma subseq_set: "subseq xs ys \<Longrightarrow> set xs \<subseteq> set ys"
  by (induction rule: list_emb.induct) auto

abbreviation raw_of :: "('k, 'ts, 'sm) UdpNetworkListener \<Rightarrow> nat \<Rightarrow> datagram list" where
  "raw_of w i \<equiv> queue_ready (peer_queue (entries w ! i))"

lemma try_send_contents:
  assumes "lossy_wf sh" "try_send v n sh = (r, sh', ns)"
  shows "lossy_wf sh' \<and> subseq (queue_contents sh') (queue_contents sh @ [v])"
proof -
  have t: "try_send_where v n (\<lambda>_. True) sh = (r, sh', ns)" using assms(2) by (simp add: try_send_def)
  have "subseq (queue_contents sh') (queue_contents sh @ [v])"
  proof (cases r)
    case (Inl e)
    then have "sh' = sh" using try_send_where_err [OF assms(1)] t by blast
    then show ?thesis by (simp add: prefix_imp_subseq)
  next
    case (Inr ev)
    then have "ev @ queue_contents sh' = queue_contents sh @ [v]"
      using try_send_where_log [OF assms(1)] t by (simp add: queue_contents_def)
    then show ?thesis by (metis list_emb_append2 subseq_order.refl)
  qed
  with try_send_where_wf [OF assms(1) t] show ?thesis by simp
qed

lemma queue_ready_subseq: "subseq (queue_contents sh') (queue_contents sh) \<Longrightarrow> subseq (queue_ready sh') (queue_ready sh)"
  by (simp add: queue_ready_def subseq_map)

lemma peer_push_raw:
  assumes "lossy_wf (peer_queue p)"
  shows "subseq (queue_ready (peer_queue (peer_push c bs at p))) (queue_ready (peer_queue p) @ [(bs, at)])"
proof -
  obtain r q ns where t: "try_send \<lparr>qd_bytes = bs, qd_received_at = at\<rparr> (length bs) (peer_queue p) = (r, q, ns)"
    by (metis prod_cases3)
  have "subseq (queue_ready q) (queue_ready (peer_queue p) @ [(bs, at)])"
    using subseq_map [OF conjunct2 [OF try_send_contents [OF assms t]], of "\<lambda>d. (qd_bytes d, qd_received_at d)"]
    by (simp add: queue_ready_def)
  then show ?thesis
    using t by (auto simp: peer_push_def fold_peer_count_drop split: sum.split TrySendError.split)
qed

lemma sender_drop_contents [simp]: "queue_ready (fst (sender_drop sh)) = queue_ready sh"
  by (simp add: sender_drop_def queue_ready_def queue_contents_def Let_def)

lemma drop_peer_raw [simp]: "queue_ready (peer_queue (drop_peer p)) = queue_ready (peer_queue p)"
  by (simp add: drop_peer_def)

lemma tracked_drop_raw [simp]: "queue_ready (peer_queue (tracked_drop p)) = []"
  by (simp add: tracked_drop_def close_and_drain_def fold_peer_count_drop receiver_drop_def queue_ready_def
      queue_contents_def Let_def)

lemma upd_entry_raw:
  "raw_of (upd_entry i f w) j = (if i = j \<and> i < length (entries w) then queue_ready (peer_queue (f (entries w ! i))) else raw_of w j)"
  by (cases "i < length (entries w)") (auto simp: upd_entry_def nth_list_update list_update_beyond)

lemma upd_entry_drop_raw [simp]: "raw_of (upd_entry i drop_peer w) j = raw_of w j"
  by (simp add: upd_entry_raw)

lemma drop_peer_at_raw [simp]: "raw_of (drop_peer_at io w) j = raw_of w j"
  by (simp add: drop_peer_at_def split: option.split)

lemma registration_drop_raw [simp]:
  "raw_of (registration_drop T Sm reg w) j = raw_of w j"
  "length (entries (registration_drop T Sm reg w)) = length (entries w)"
  by (simp_all add: registration_drop_def Let_def upd_entry_raw)

lemma fold_drop_raw: "raw_of (fold (\<lambda>(a, i). upd_entry i drop_peer) ps w) j = raw_of w j"
  by (induction ps arbitrary: w) (simp_all add: split_beta)

lemma listener_drop_raw [simp]:
  "raw_of (listener_drop T w) j = raw_of w j" "length (entries (listener_drop T w)) = length (entries w)"
  using fold_drop_raw [of "peers w" "fold (\<lambda>(a, i). peer_close T i) (peers w) w" j] fold_close_frame [of T "peers w" w]
    fold_drop_frame [of "peers w" "fold (\<lambda>(a, i). peer_close T i) (peers w) w"]
  by (simp_all add: listener_drop_def Let_def)

section \<open>Invariant\<close>

text \<open>Where the listener routes a datagram that arrives: the peer's entry, the address, the datagram.\<close>

definition routed ::
  "('p, 'q, 'ee, 'd, 'z, 'c, 'k, 'ts, 'sm) udp_config \<Rightarrow> SocketAddr \<Rightarrow> byte list \<Rightarrow> instant
     \<Rightarrow> ('k, 'ts, 'sm) UdpNetworkListener \<Rightarrow> nat option"
where
  "routed C addr bs at w =
     (if \<not> alive w \<or> MAX_DATAGRAM_SIZE < length bs then None
      else case map_of (peers w) addr of
             Some i \<Rightarrow> if \<not> peer_is_closed (uc_tokens C) i w then Some i
                       else map_option reg_state (fst (dispatch_new (uc_tokens C) (uc_semaphore C) bs addr at w))
           | None \<Rightarrow> map_option reg_state (fst (dispatch_new (uc_tokens C) (uc_semaphore C) bs addr at w)))"

fun us_log ::
  "('p, 'q, 'ee, 'd, 'z, 'c, 'k, 'ts, 'sm) udp_config \<Rightarrow> ('p, 'd, 'l, 'k) us_event list
     \<Rightarrow> ('p, 'q, 'd, 'l, 'z, 'c, 'k, 'ts, 'sm) udp_server \<Rightarrow> (nat \<times> SocketAddr \<times> datagram) list"
where
  "us_log C [] s = []"
| "us_log C (Arrive addr bs at # evs) s =
     (case routed C addr bs at (us_listener s) of None \<Rightarrow> [] | Some i \<Rightarrow> [(i, addr, (bs, at))])
     @ us_log C evs (us_step C (Arrive addr bs at) s)"
| "us_log C (ev # evs) s = us_log C evs (us_step C ev s)"

definition routed_to :: "nat \<Rightarrow> (nat \<times> SocketAddr \<times> datagram) list \<Rightarrow> datagram list" where
  "routed_to i log = map (snd \<circ> snd) (filter (\<lambda>x. fst x = i) log)"

lemma routed_to_simps [simp]:
  "routed_to i [] = []" "routed_to i (log @ log') = routed_to i log @ routed_to i log'"
  "routed_to i [(j, a, d)] = (if i = j then [d] else [])"
  by (simp_all add: routed_to_def)

lemma routed_to_none: "(\<And>x. x \<in> set log \<Longrightarrow> fst x \<noteq> i) \<Longrightarrow> routed_to i log = []"
  by (auto simp: routed_to_def filter_empty_conv)

definition packets :: "('p, 'd, 'l) server_event list \<Rightarrow> 'p PacketReceiveEvent list" where
  "packets evs = concat (map (\<lambda>e. case e of SPacketEvent pe \<Rightarrow> [pe] | _ \<Rightarrow> []) evs)"

lemma packets_simps [simp]:
  "packets [] = []" "packets (xs @ ys) = packets xs @ packets ys" "packets (map SPacketEvent pes) = pes"
  by (induction pes) (simp_all add: packets_def)

definition of_conn :: "ConnectionId \<Rightarrow> 'p PacketReceiveEvent list \<Rightarrow> 'p PacketReceiveEvent list" where
  "of_conn c pes = filter (\<lambda>pe. pe_connection pe = c) pes"

lemma of_conn_append [simp]: "of_conn c (xs @ ys) = of_conn c xs @ of_conn c ys"
  by (simp add: of_conn_def)

lemma of_conn_subseq: "subseq xs ys \<Longrightarrow> subseq (of_conn c xs) (of_conn c ys)"
  by (simp add: of_conn_def subseq_filter)

text \<open>The packet an observer sees was decoded from the datagram and carries its receive time.\<close>

definition decoded ::
  "('p, 'q, 'ee, 'd, 'z, 'c, 'k, 'ts, 'sm) udp_config \<Rightarrow> 'p PacketReceiveEvent \<Rightarrow> datagram \<Rightarrow> bool"
where
  "decoded C pe d \<longleftrightarrow> pe_received_at pe = snd d \<and> deliverable (uc_serializer C) (uc_limits C) d (pe_packet pe)"

definition known :: "('p, 'q, 'd, 'l, 'z, 'c, 'k, 'ts, 'sm) udp_server \<Rightarrow> PeerRegistration set" where
  "known s = set (us_live s) \<union> set (map ur_registration (us_readers s))"

definition addr_of :: "('q, 'c, 'h, 'k, 'ts, 'ev) endpoint_world \<Rightarrow> ConnectionId \<Rightarrow> SocketAddr option" where
  "addr_of w c = map_option peer_addr (conns w c)"

text \<open>Who is who: entries, registrations, connections and addresses correspond.\<close>

definition us_wf ::
  "('sm \<Rightarrow> nat) \<Rightarrow> (nat \<times> SocketAddr \<times> datagram) list \<Rightarrow> ('p, 'q, 'd, 'l, 'z, 'c, 'k, 'ts, 'sm) udp_server \<Rightarrow> bool"
where
  "us_wf avail log s \<longleftrightarrow>
     listener_inv avail (us_listener s) (us_live s) \<and> lossy_wf (us_queue s)
     \<and> (\<forall>r \<in> known s. reg_state r < length (entries (us_listener s))) \<and> inj_on reg_state (known s)
     \<and> (\<forall>x \<in> set log. fst x < length (entries (us_listener s))
          \<and> (\<forall>r \<in> known s. reg_state r = fst x \<longrightarrow> fst (snd x) = reg_address r))
     \<and> distinct (map ur_registration (us_readers s)) \<and> distinct (map ur_conn (us_readers s))
     \<and> (\<forall>rd \<in> set (us_readers s). ur_conn rd < us_counter s
          \<and> addr_of (us_world s) (ur_conn rd) = Some (reg_address (ur_registration rd)))
     \<and> (\<forall>c. c \<notin> ur_conn ` set (us_readers s) \<longrightarrow> conns (us_world s) c = None)
     \<and> (\<forall>pe \<in> set (packets (triggered (us_world s)) @ queue_contents (us_queue s)).
          pe_connection pe \<in> ur_conn ` set (us_readers s))"

text \<open>What each connection has delivered and still holds comes from the datagrams routed to its entry.\<close>

definition us_delivery ::
  "('p, 'q, 'ee, 'd, 'z, 'c, 'k, 'ts, 'sm) udp_config \<Rightarrow> (nat \<times> SocketAddr \<times> datagram) list
     \<Rightarrow> ('p, 'q, 'd, 'l, 'z, 'c, 'k, 'ts, 'sm) udp_server \<Rightarrow> bool"
where
  "us_delivery C log s \<longleftrightarrow>
     (\<forall>rd \<in> set (us_readers s).
        passes (decoded C)
          (of_conn (ur_conn rd) (packets (triggered (us_world s)) @ queue_contents (us_queue s)))
          (raw_of (us_listener s) (reg_state (ur_registration rd)))
          (routed_to (reg_state (ur_registration rd)) log))
     \<and> (\<forall>i < length (entries (us_listener s)). i \<notin> reg_state ` ur_registration ` set (us_readers s) \<longrightarrow>
          passes (decoded C) [] (raw_of (us_listener s) i) (routed_to i log))"

definition us_inv ::
  "('p, 'q, 'ee, 'd, 'z, 'c, 'k, 'ts, 'sm) udp_config \<Rightarrow> ('sm \<Rightarrow> nat) \<Rightarrow> (nat \<times> SocketAddr \<times> datagram) list
     \<Rightarrow> ('p, 'q, 'd, 'l, 'z, 'c, 'k, 'ts, 'sm) udp_server \<Rightarrow> bool"
where
  "us_inv C avail log s \<longleftrightarrow> us_wf avail log s \<and> us_delivery C log s"

lemma us_inv_reader:
  "us_inv C avail log s \<Longrightarrow> rd \<in> set (us_readers s) \<Longrightarrow>
     passes (decoded C)
       (of_conn (ur_conn rd) (packets (triggered (us_world s)) @ queue_contents (us_queue s)))
       (raw_of (us_listener s) (reg_state (ur_registration rd)))
       (routed_to (reg_state (ur_registration rd)) log)"
  unfolding us_inv_def us_delivery_def by blast

lemma us_inv_rest:
  "us_inv C avail log s \<Longrightarrow> i < length (entries (us_listener s)) \<Longrightarrow>
     i \<notin> reg_state ` ur_registration ` set (us_readers s) \<Longrightarrow>
     passes (decoded C) [] (raw_of (us_listener s) i) (routed_to i log)"
  unfolding us_inv_def us_delivery_def by blast

lemma us_wfD:
  assumes "us_wf avail log s"
  shows "listener_inv avail (us_listener s) (us_live s)" "lossy_wf (us_queue s)"
    and "r \<in> known s \<Longrightarrow> reg_state r < length (entries (us_listener s))" "inj_on reg_state (known s)"
    and "x \<in> set log \<Longrightarrow> fst x < length (entries (us_listener s))"
    and "x \<in> set log \<Longrightarrow> r \<in> known s \<Longrightarrow> reg_state r = fst x \<Longrightarrow> fst (snd x) = reg_address r"
    and "distinct (map ur_registration (us_readers s))" "distinct (map ur_conn (us_readers s))"
    and "rd \<in> set (us_readers s) \<Longrightarrow> ur_conn rd < us_counter s"
    and "rd \<in> set (us_readers s) \<Longrightarrow> addr_of (us_world s) (ur_conn rd) = Some (reg_address (ur_registration rd))"
    and "c \<notin> ur_conn ` set (us_readers s) \<Longrightarrow> conns (us_world s) c = None"
    and "pe \<in> set (packets (triggered (us_world s)) @ queue_contents (us_queue s)) \<Longrightarrow>
           pe_connection pe \<in> ur_conn ` set (us_readers s)"
  using assms unfolding us_wf_def by blast+

abbreviation reader_ids :: "'z udp_reader list \<Rightarrow> (PeerRegistration \<times> ConnectionId) list" where
  "reader_ids rds \<equiv> map (\<lambda>rd. (ur_registration rd, ur_conn rd)) rds"

lemma reader_ids_views:
  assumes "reader_ids rds' = reader_ids rds"
  shows "map ur_registration rds' = map ur_registration rds" "map ur_conn rds' = map ur_conn rds"
    and "rd' \<in> set rds' \<Longrightarrow> \<exists>rd \<in> set rds. ur_registration rd' = ur_registration rd \<and> ur_conn rd' = ur_conn rd"
proof -
  have "map fst (reader_ids rds') = map fst (reader_ids rds)" "map snd (reader_ids rds') = map snd (reader_ids rds)"
    using assms by simp_all
  then show "map ur_registration rds' = map ur_registration rds" "map ur_conn rds' = map ur_conn rds"
    by (simp_all add: comp_def)
  assume "rd' \<in> set rds'"
  then have "(ur_registration rd', ur_conn rd') \<in> set (reader_ids rds)" unfolding assms [symmetric] by auto
  then show "\<exists>rd \<in> set rds. ur_registration rd' = ur_registration rd \<and> ur_conn rd' = ur_conn rd" by auto
qed

lemma reader_ids_sets:
  assumes "reader_ids rds' = reader_ids rds"
  shows "ur_conn ` set rds' = ur_conn ` set rds" "ur_registration ` set rds' = ur_registration ` set rds"
  using reader_ids_views(1,2) [OF assms] by (metis set_map)+

text \<open>Steps that accept no peer and establish no connection.\<close>

lemma us_wf_keep:
  assumes wf: "us_wf avail log s"
    and l: "listener_inv avail (us_listener s') (us_live s')" "set (us_live s') \<subseteq> set (us_live s)"
    and len: "length (entries (us_listener s')) = length (entries (us_listener s))"
    and rds: "reader_ids (us_readers s') = reader_ids (us_readers s)" and c: "us_counter s \<le> us_counter s'"
    and q: "lossy_wf (us_queue s')"
      "\<And>pe. pe \<in> set (packets (triggered (us_world s')) @ queue_contents (us_queue s')) \<Longrightarrow>
         pe_connection pe \<in> ur_conn ` set (us_readers s)"
    and a: "addr_of (us_world s') = addr_of (us_world s)"
  shows "us_wf avail log s'"
proof -
  note v = reader_ids_views [OF rds] and rset = reader_ids_sets [OF rds]
  have k: "known s' \<subseteq> known s" using l(2) v(1) by (auto simp: known_def)
  have none: "conns (us_world s') i = None \<longleftrightarrow> conns (us_world s) i = None" for i
    using fun_cong [OF a, of i] by (auto simp: addr_of_def)
  show ?thesis
    unfolding us_wf_def
  proof (intro conjI)
    show "inj_on reg_state (known s')" using us_wfD(4) [OF wf] k by (rule inj_on_subset)
    show "\<forall>x \<in> set log. fst x < length (entries (us_listener s'))
          \<and> (\<forall>r \<in> known s'. reg_state r = fst x \<longrightarrow> fst (snd x) = reg_address r)"
    proof
      fix x assume x: "x \<in> set log"
      have "fst (snd x) = reg_address r" if "r \<in> known s'" "reg_state r = fst x" for r
        using us_wfD(6) [OF wf x _ that(2)] k that(1) by blast
      then show "fst x < length (entries (us_listener s'))
          \<and> (\<forall>r \<in> known s'. reg_state r = fst x \<longrightarrow> fst (snd x) = reg_address r)"
        using us_wfD(5) [OF wf x] len by simp
    qed
    show "\<forall>rd \<in> set (us_readers s'). ur_conn rd < us_counter s'
          \<and> addr_of (us_world s') (ur_conn rd) = Some (reg_address (ur_registration rd))"
    proof
      fix rd assume "rd \<in> set (us_readers s')"
      then obtain rd0 where "rd0 \<in> set (us_readers s)" "ur_registration rd = ur_registration rd0" "ur_conn rd = ur_conn rd0"
        using v(3) by blast
      then show "ur_conn rd < us_counter s' \<and> addr_of (us_world s') (ur_conn rd) = Some (reg_address (ur_registration rd))"
        using us_wfD(9,10) [OF wf] c a by (auto dest: less_le_trans)
    qed
    show "\<forall>r \<in> known s'. reg_state r < length (entries (us_listener s'))" using us_wfD(3) [OF wf] k len by auto
  qed (use us_wfD(7,8,11) [OF wf] l(1) q none rset v(1,2) in \<open>simp_all\<close>)
qed

text \<open>A step that only takes things away keeps the invariant.\<close>

lemma us_inv_shrink:
  assumes inv: "us_inv C avail log s"
    and l: "listener_inv avail (us_listener s') (us_live s')" "set (us_live s') \<subseteq> set (us_live s)"
    and len: "length (entries (us_listener s')) = length (entries (us_listener s))"
    and raw: "\<And>i. subseq (raw_of (us_listener s') i) (raw_of (us_listener s) i)"
    and rds: "reader_ids (us_readers s') = reader_ids (us_readers s)" and c: "us_counter s \<le> us_counter s'"
    and q: "lossy_wf (us_queue s')"
      "subseq (packets (triggered (us_world s')) @ queue_contents (us_queue s'))
         (packets (triggered (us_world s)) @ queue_contents (us_queue s))"
    and a: "addr_of (us_world s') = addr_of (us_world s)"
  shows "us_inv C avail log s'"
proof -
  have wf: "us_wf avail log s" using inv by (simp add: us_inv_def)
  have "us_wf avail log s'"
    using us_wfD(12) [OF wf] subseq_set [OF q(2)] by (intro us_wf_keep [OF wf l len rds c q(1) _ a]) blast
  moreover have "us_delivery C log s'"
    unfolding us_delivery_def
  proof (intro conjI ballI allI impI)
    fix rd assume "rd \<in> set (us_readers s')"
    then obtain rd0 where rd0: "rd0 \<in> set (us_readers s)" "ur_registration rd = ur_registration rd0" "ur_conn rd = ur_conn rd0"
      using reader_ids_views(3) [OF rds] by blast
    show "passes (decoded C)
          (of_conn (ur_conn rd) (packets (triggered (us_world s')) @ queue_contents (us_queue s')))
          (raw_of (us_listener s') (reg_state (ur_registration rd))) (routed_to (reg_state (ur_registration rd)) log)"
      by (rule passes_mono [OF us_inv_reader [OF inv rd0(1), folded rd0(2,3)] of_conn_subseq [OF q(2)] raw])
  next
    fix i assume "i < length (entries (us_listener s'))" "i \<notin> reg_state ` ur_registration ` set (us_readers s')"
    then show "passes (decoded C) [] (raw_of (us_listener s') i) (routed_to i log)"
      using passes_mono [OF us_inv_rest [OF inv, of i] _ raw, of "[]"] len reader_ids_sets [OF rds] by simp
  qed
  ultimately show ?thesis by (simp add: us_inv_def)
qed

section \<open>Steps that take away\<close>

lemma addr_of_upd_conn [simp]:
  "(\<And>x. peer_addr (f x) = peer_addr x) \<Longrightarrow> addr_of (upd_conn i f w) = addr_of w"
  by (auto simp: addr_of_def upd_conn_def fun_eq_iff option.map_comp comp_def)

lemma addr_of_frame [simp]:
  "addr_of (w\<lparr>triggered := es\<rparr>) = addr_of w" "addr_of (w\<lparr>world_tokens := ts\<rparr>) = addr_of w"
  "addr_of (trigger e w) = addr_of w" "addr_of (w\<lparr>registry := rs\<rparr>) = addr_of w"
  by (simp_all add: addr_of_def fun_eq_iff)

lemma peer_addr_record_drop [simp]: "peer_addr (ecs_record_drop rd r x) = peer_addr x" "peer_addr (mark_published x) = peer_addr x"
  by (simp_all add: ecs_record_drop_def mark_published_def)

lemma count_drops_addr [simp]: "addr_of (count_drops rd is w) = addr_of w"
  by (induction "is" arbitrary: w) simp_all

lemma server_apply_addr [simp]: "addr_of (server_apply m w) = addr_of w"
  by (cases m) (simp_all add: server_apply_def Let_def)

lemma lifecycle_frame:
  "addr_of (fold server_apply (filter lifecycle ms) w) = addr_of w
   \<and> packets (triggered (fold server_apply (filter lifecycle ms) w)) = packets (triggered w)"
proof (induction ms arbitrary: w)
  case (Cons m ms)
  then show ?case by (cases m) (auto simp: packets_def)
qed simp

lemma take_datagrams_wf: "lossy_wf sh \<Longrightarrow> take_datagrams T rd n sh w = (pes, sh', w') \<Longrightarrow> lossy_wf sh'"
  by (rule take_datagrams_keeps [where R = lossy_wf, OF try_recv_if_wf])

lemma datagram_frame_shrinks:
  assumes "lossy_wf sh" "datagram_frame T rd SPacketEvent n sh w = (sh', w')"
  shows "lossy_wf sh' \<and> addr_of w' = addr_of w
     \<and> subseq (packets (triggered w') @ queue_contents sh') (packets (triggered w) @ queue_contents sh)"
proof -
  let ?t = "taken T w n (queue_contents sh)"
  have w': "w' = (count_drops rd (map pe_connection (filter (\<lambda>pe. world_cancelled T w (pe_connection pe)) ?t)) w)
      \<lparr>triggered := triggered w @ map SPacketEvent (filter (\<lambda>pe. \<not> world_cancelled T w (pe_connection pe)) ?t)\<rparr>"
    and q: "queue_contents sh' = drop (length ?t) (queue_contents sh)"
    using datagram_frame_eq [of T rd SPacketEvent n sh w] assms(2) by auto
  have "lossy_wf sh'"
    using assms take_datagrams_wf [OF assms(1)] by (auto simp: datagram_frame_def split: prod.splits)
  moreover have "queue_contents sh = ?t @ drop (length ?t) (queue_contents sh)"
    using taken_props(1) [of T w n "queue_contents sh"] by (metis append_eq_conv_conj prefixE)
  then have "subseq (filter (\<lambda>pe. \<not> world_cancelled T w (pe_connection pe)) ?t @ queue_contents sh') (queue_contents sh)"
    unfolding q by (metis list_emb_append_mono subseq_filter_left subseq_order.refl)
  then have "subseq (packets (triggered w') @ queue_contents sh') (packets (triggered w) @ queue_contents sh)"
    by (simp add: w' list_emb_append_mono)
  ultimately show ?thesis by (simp add: w')
qed

lemma listener_inv_upd:
  assumes "listener_inv avail w live" "\<And>p. entry_ok (listener_options w) p \<Longrightarrow> entry_ok (listener_options w) (f p)"
  shows "listener_inv avail (upd_entry i f w) live"
  using assms upd_entry_ok [of w f i] by (simp add: listener_inv_def)

lemma listener_inv_close: "listener_inv avail w live \<Longrightarrow> listener_inv avail (peer_close T i w) live"
  by (simp add: listener_inv_def)

lemma reader_ids_closed:
  "reader_ids (map (\<lambda>rd. if P rd then rd\<lparr>ur_open := False\<rparr> else rd) rds) = reader_ids rds"
  by (induction rds) auto

lemma us_inv_drop_stream:
  assumes "sem_laws (uc_semaphore C) avail" "us_inv C avail log s"
  shows "us_inv C avail log (drop_stream C reg s)"
proof (cases "reg \<in> set (us_live s)")
  case True
  have wf: "us_wf avail log s" using assms(2) by (simp add: us_inv_def)
  let ?w = "upd_entry (reg_state reg) tracked_drop (peer_close (uc_tokens C) (reg_state reg) (us_listener s))"
  have w: "listener_inv avail ?w (us_live s)"
    by (intro listener_inv_upd listener_inv_close us_wfD(1) [OF wf] tracked_drop_entry_ok)
  have raw: "subseq (raw_of (registration_drop (uc_tokens C) (uc_semaphore C) reg ?w) j) (raw_of (us_listener s) j)" for j
    by (simp add: upd_entry_raw)
  show ?thesis
    using True registration_drop_inv [OF assms(1) w True, of "uc_tokens C"] raw us_wfD(2) [OF wf]
    by (intro us_inv_shrink [OF assms(2)]) (simp_all add: drop_stream_def set_remove1_subset reader_ids_closed)
qed (use assms(2) in \<open>simp add: drop_stream_def\<close>)

section \<open>Arriving datagrams\<close>

lemma us_inv_push:
  assumes inv: "us_inv C avail log s" and l: "listener_inv avail w' (us_live s)"
    and len: "length (entries w') = length (entries (us_listener s))"
    and other: "\<And>j. j \<noteq> i \<Longrightarrow> raw_of w' j = raw_of (us_listener s) j"
    and raw: "subseq (raw_of w' i) (raw_of (us_listener s) i @ [d])"
    and i: "PeerRegistration addr i \<in> set (us_live s)"
  shows "us_inv C avail (log @ [(i, addr, d)]) (s\<lparr>us_listener := w'\<rparr>)"
proof -
  have wf: "us_wf avail log s" using inv by (simp add: us_inv_def)
  have k: "PeerRegistration addr i \<in> known s" using i by (simp add: known_def)
  have k': "known (s\<lparr>us_listener := w'\<rparr>) = known s" by (simp add: known_def)
  have same: "reg_address r = addr" if "r \<in> known s" "reg_state r = i" for r
    using inj_onD [OF us_wfD(4) [OF wf], of r "PeerRegistration addr i"] that k by simp
  have "us_wf avail (log @ [(i, addr, d)]) (s\<lparr>us_listener := w'\<rparr>)"
    using wf l len same us_wfD(3) [OF wf k] unfolding us_wf_def k' by simp
  moreover have p: "passes (decoded C) seen (raw_of w' j) (routed_to j (log @ [(i, addr, d)]))"
    if "passes (decoded C) seen (raw_of (us_listener s) j) (routed_to j log)" for seen j
    using that other [of j] passes_arrive [OF _ raw] by (cases "j = i") simp_all
  then have "us_delivery C (log @ [(i, addr, d)]) (s\<lparr>us_listener := w'\<rparr>)"
    using us_inv_reader [OF inv] us_inv_rest [OF inv] len
    by (auto simp: us_delivery_def simp del: of_conn_append routed_to_simps)
  ultimately show ?thesis by (simp add: us_inv_def)
qed

lemma us_wf_admit:
  assumes wf: "us_wf avail log s" and i: "i = length (entries (us_listener s))"
    and l: "listener_inv avail w' (PeerRegistration addr i # us_live s)" and len: "length (entries w') = Suc i"
  shows "us_wf avail (log @ [(i, addr, d)]) (s\<lparr>us_listener := w', us_live := PeerRegistration addr i # us_live s\<rparr>)"
proof -
  let ?s = "s\<lparr>us_listener := w', us_live := PeerRegistration addr i # us_live s\<rparr>"
  have k: "known ?s = insert (PeerRegistration addr i) (known s)" by (simp add: known_def)
  have below: "r \<in> known s \<Longrightarrow> reg_state r < i" for r using us_wfD(3) [OF wf] i by simp
  show ?thesis
    unfolding us_wf_def
  proof (intro conjI)
    show "inj_on reg_state (known ?s)"
      using us_wfD(4) [OF wf] below by (auto simp: k inj_on_insert)
    show "\<forall>r \<in> known ?s. reg_state r < length (entries (us_listener ?s))"
      using below len by (auto simp: k less_Suc_eq)
    show "\<forall>x \<in> set (log @ [(i, addr, d)]). fst x < length (entries (us_listener ?s))
        \<and> (\<forall>r \<in> known ?s. reg_state r = fst x \<longrightarrow> fst (snd x) = reg_address r)"
    proof
      fix x assume "x \<in> set (log @ [(i, addr, d)])"
      then consider "x \<in> set log" | "x = (i, addr, d)" by auto
      then show "fst x < length (entries (us_listener ?s))
          \<and> (\<forall>r \<in> known ?s. reg_state r = fst x \<longrightarrow> fst (snd x) = reg_address r)"
      proof cases
        case 1
        then show ?thesis using us_wfD(5,6) [OF wf 1] i len unfolding k by auto
      qed (use below len in \<open>auto simp: k\<close>)
    qed
  qed (use wf l in \<open>simp_all add: us_wf_def\<close>)
qed

lemma us_inv_admit:
  assumes inv: "us_inv C avail log s" and i: "i = length (entries (us_listener s))"
    and l: "listener_inv avail w' (PeerRegistration addr i # us_live s)"
    and len: "length (entries w') = Suc i"
    and old: "\<And>j. j < i \<Longrightarrow> raw_of w' j = raw_of (us_listener s) j"
    and raw: "raw_of w' i = [d]"
  shows "us_inv C avail (log @ [(i, addr, d)]) (s\<lparr>us_listener := w', us_live := PeerRegistration addr i # us_live s\<rparr>)"
proof -
  let ?s = "s\<lparr>us_listener := w', us_live := PeerRegistration addr i # us_live s\<rparr>"
  have wf: "us_wf avail log s" using inv by (simp add: us_inv_def)
  have none: "routed_to i log = []" using us_wfD(5) [OF wf] i by (intro routed_to_none) fastforce
  have "us_delivery C (log @ [(i, addr, d)]) ?s"
    unfolding us_delivery_def
  proof (intro conjI ballI allI impI)
    fix rd assume "rd \<in> set (us_readers ?s)"
    then have rd: "rd \<in> set (us_readers s)" by simp
    then have "reg_state (ur_registration rd) < i" using us_wfD(3) [OF wf] by (simp add: known_def i)
    then show "passes (decoded C) (of_conn (ur_conn rd) (packets (triggered (us_world ?s)) @ queue_contents (us_queue ?s)))
        (raw_of (us_listener ?s) (reg_state (ur_registration rd)))
        (routed_to (reg_state (ur_registration rd)) (log @ [(i, addr, d)]))"
      using us_inv_reader [OF inv rd] old by simp
  next
    fix j assume j: "j < length (entries (us_listener ?s))" "j \<notin> reg_state ` ur_registration ` set (us_readers ?s)"
    show "passes (decoded C) [] (raw_of (us_listener ?s) j) (routed_to j (log @ [(i, addr, d)]))"
    proof (cases "j = i")
      case True
      then show ?thesis using passes_arrive [of "decoded C" "[]" "[]" "[]" "[d]" d] raw none by (simp add: passes_def)
    next
      case False
      then show ?thesis using us_inv_rest [OF inv, of j] j old [of j] len i by simp
    qed
  qed
  then show ?thesis using us_wf_admit [OF wf i l len] by (simp add: us_inv_def)
qed

lemma dispatch_new_refused: "dispatch_new T Sm bs addr at w = (None, w') \<Longrightarrow> entries w' = entries w"
  by (auto simp: dispatch_new_def Let_def split: if_splits prod.splits bool.splits sum.splits)

text \<open>A datagram of a known peer, and a datagram that may make its sender one.\<close>

lemma us_inv_known:
  assumes inv: "us_inv C avail log s" and known: "map_of (peers (us_listener s)) addr = Some i"
  shows "us_inv C avail (log @ [(i, addr, (bs, at))])
     (s\<lparr>us_listener := upd_entry i (\<lambda>p. peer_push False bs at (received_datagram (length bs) p)) (us_listener s)\<rparr>)"
proof -
  let ?w = "us_listener s" and ?f = "\<lambda>p. peer_push False bs at (received_datagram (length bs) p)"
  have wf: "us_wf avail log s" using inv by (simp add: us_inv_def)
  note linv = us_wfD(1) [OF wf]
  have live: "PeerRegistration addr i \<in> set (us_live s)"
    using linv known by (fastforce simp: listener_inv_def dest: map_of_SomeD)
  have i: "i < length (entries ?w)" using live us_wfD(3) [OF wf, of "PeerRegistration addr i"] by (simp add: known_def)
  then have "lossy_wf (peer_queue (received_datagram (length bs) (entries ?w ! i)))"
    using linv by (simp add: listener_inv_def entries_ok_def entry_ok_def)
  from peer_push_raw [OF this, of False bs at] i
  have "subseq (raw_of (upd_entry i ?f ?w) i) (raw_of ?w i @ [(bs, at)])" by (simp add: upd_entry_raw)
  then show ?thesis
    using linv by (intro us_inv_push [OF inv _ _ _ _ live] listener_inv_upd)
      (auto simp: upd_entry_raw peer_push_entry_ok)
qed

lemma us_inv_new_peer:
  assumes laws: "sem_laws (uc_semaphore C) avail" and inv: "us_inv C avail log s" and alive: "alive (us_listener s)"
    and d: "dispatch_new (uc_tokens C) (uc_semaphore C) bs addr at (us_listener s) = (Some reg, w')"
  shows "reg = PeerRegistration addr (length (entries (us_listener s)))
     \<and> us_inv C avail (log @ [(reg_state reg, addr, (bs, at))]) (s\<lparr>us_listener := w', us_live := reg # us_live s\<rparr>)"
proof -
  let ?w = "us_listener s"
  let ?o = "options (listener_options ?w)"
  let ?q0 = "lossy_channel (receive_queue_capacity ?o) (receive_queue_bytes ?o) (receive_queue_overflow ?o)"
  have wf: "us_wf avail log s" using inv by (simp add: us_inv_def)
  note linv = us_wfD(1) [OF wf]
  note l' = dispatch_new_inv [OF laws linv alive d]
  from laws linv d obtain sm st ts q ns where new: "reg = PeerRegistration addr (length (entries ?w))"
    "try_send \<lparr>qd_bytes = bs, qd_received_at = at\<rparr> (length bs) ?q0 = (Inr [], q, ns)"
    "w' = (drop_peer_at (map_of (peers ?w) addr)
           (?w\<lparr>slots := sm, tokens_state := ts,
              entries := entries ?w @ [received_datagram (length bs) \<lparr>peer_state = st, peer_queue = q\<rparr>]\<rparr>))
           \<lparr>peers := AList.update addr (length (entries ?w)) (peers ?w)\<rparr>"
    by (cases rule: dispatch_new_cases) auto
  have "lossy_wf ?q0" using linv by (intro lossy_channel_wf) (simp_all add: listener_inv_def)
  from try_send_where_log [OF this new(2) [unfolded try_send_def]]
  have q: "queue_ready q = [(bs, at)]" by (simp add: queue_ready_def queue_contents_def lossy_channel_def)
  have "us_inv C avail (log @ [(length (entries ?w), addr, (bs, at))])
      (s\<lparr>us_listener := w', us_live := PeerRegistration addr (length (entries ?w)) # us_live s\<rparr>)"
    using l' new(1) q by (intro us_inv_admit [OF inv refl]) (simp_all add: new(3) nth_append)
  then show ?thesis by (simp add: new(1))
qed

lemma us_inv_arrive:
  assumes laws: "sem_laws (uc_semaphore C) avail" and inv: "us_inv C avail log s"
  shows "us_inv C avail (log @ (case routed C addr bs at (us_listener s) of None \<Rightarrow> [] | Some i \<Rightarrow> [(i, addr, (bs, at))]))
     (arrive C addr bs at s)"
proof -
  let ?w = "us_listener s" and ?T = "uc_tokens C"
  have wf: "us_wf avail log s" using inv by (simp add: us_inv_def)
  consider "\<not> alive ?w \<or> MAX_DATAGRAM_SIZE < length bs"
    | i where "alive ?w" "\<not> MAX_DATAGRAM_SIZE < length bs" "map_of (peers ?w) addr = Some i" "\<not> peer_is_closed ?T i ?w"
    | "alive ?w" "\<not> MAX_DATAGRAM_SIZE < length bs"
        "dispatch ?T (uc_semaphore C) bs addr at ?w = dispatch_new ?T (uc_semaphore C) bs addr at ?w"
        "routed C addr bs at ?w = map_option reg_state (fst (dispatch_new ?T (uc_semaphore C) bs addr at ?w))"
    by (cases "map_of (peers ?w) addr"; cases "\<exists>i. map_of (peers ?w) addr = Some i \<and> \<not> peer_is_closed ?T i ?w")
      (simp_all add: dispatch_def routed_def, blast+)
  then show ?thesis
  proof cases
    case 1
    then have "arrive C addr bs at s = s" "routed C addr bs at ?w = None"
      by (auto simp: arrive_def routed_def dispatch_def)
    then show ?thesis using inv by simp
  next
    case (2 i)
    then show ?thesis using us_inv_known [OF inv 2(3), of bs at] by (simp add: arrive_def dispatch_def routed_def)
  next
    case 3
    obtain r w' where d: "dispatch_new ?T (uc_semaphore C) bs addr at ?w = (r, w')" by fastforce
    show ?thesis
    proof (cases r)
      case None
      then have "us_inv C avail log (s\<lparr>us_listener := w'\<rparr>)"
        using dispatch_new_inv [OF laws us_wfD(1) [OF wf] 3(1) d] dispatch_new_refused [OF d [unfolded None]] us_wfD(2) [OF wf]
        by (intro us_inv_shrink [OF inv]) simp_all
      then show ?thesis using 3 d None by (simp add: arrive_def)
    next
      case (Some reg)
      then show ?thesis using conjunct2 [OF us_inv_new_peer [OF laws inv 3(1) d [unfolded Some]]] 3 d by (simp add: arrive_def)
    qed
  qed
qed

section \<open>New connections\<close>

text \<open>A place in the listener belongs to one registration, and a registration to one reader.\<close>

lemma reader_of_place:
  assumes wf: "us_wf avail log s" and rd: "rd \<in> set (us_readers s)" "reg \<in> known s" "reg_state reg = reg_state (ur_registration rd)"
  shows "reg = ur_registration rd"
  using inj_onD [OF us_wfD(4) [OF wf] rd(3) rd(2)] rd(1) by (simp add: known_def)

lemma distinct_readers:
  assumes wf: "us_wf avail log s" and rds: "rd \<in> set (us_readers s)" "rd' \<in> set (us_readers s)" "rd' \<noteq> rd"
  shows "ur_conn rd' \<noteq> ur_conn rd" "reg_state (ur_registration rd') \<noteq> reg_state (ur_registration rd)"
proof -
  show "ur_conn rd' \<noteq> ur_conn rd" using rds us_wfD(8) [OF wf] by (auto simp: distinct_map dest: inj_onD)
  have "ur_registration rd' \<noteq> ur_registration rd" using rds us_wfD(7) [OF wf] by (auto simp: distinct_map dest: inj_onD)
  then show "reg_state (ur_registration rd') \<noteq> reg_state (ur_registration rd)"
    using reader_of_place [OF wf rds(1), of "ur_registration rd'"] rds(2) by (auto simp: known_def)
qed

lemma establish_stream_eq:
  assumes "reg \<in> set (us_live s)" "reg \<notin> set (map ur_registration (us_readers s))"
  shows "\<exists>ecs. peer_addr ecs = reg_address reg \<and> disconnect_task ecs = tok \<and> establish_stream C reg tok local s =
     s\<lparr>us_counter := usize_add (us_counter s) 1,
       us_readers := us_readers s @ [\<lparr>ur_registration = reg, ur_conn = us_counter s, ur_codec = uc_codec C, ur_open = True\<rparr>],
       us_world := (us_world s)\<lparr>conns := (conns (us_world s))(us_counter s \<mapsto> ecs)\<rparr>\<rparr>"
  using assms
  by (cases "outgoing_channel (uc_mpsc C) (uc_queues C) True")
    (auto simp: establish_stream_def establish_def with_limits_def id_next_def ecs_connection_def Let_def
      udp_network_stream_def server_stream_accepted_def
      intro!: exI [of _ "\<lparr>disconnect_task = tok, conn_id = us_counter s, published = False,
        packet_tx = fst (outgoing_channel (uc_mpsc C) (uc_queues C) True),
        conn_transport = ps_handle (peer_state (entries (us_listener s) ! reg_state reg)),
        local_addr = local, peer_addr = reg_address reg\<rparr>"])

lemma us_wf_establish:
  assumes wf: "us_wf avail log s" and c: "us_counter s < usize_max" and ecs: "peer_addr ecs = reg_address reg"
    and reg: "reg \<in> set (us_live s)" "reg \<notin> set (map ur_registration (us_readers s))"
    and s': "s' = s\<lparr>us_counter := usize_add (us_counter s) 1,
       us_readers := us_readers s @ [\<lparr>ur_registration = reg, ur_conn = us_counter s, ur_codec = z, ur_open = True\<rparr>],
       us_world := (us_world s)\<lparr>conns := (conns (us_world s))(us_counter s \<mapsto> ecs)\<rparr>\<rparr>"
  shows "us_wf avail log s'"
proof -
  have n: "usize_add (us_counter s) (Suc 0) = Suc (us_counter s)" using c by (simp add: usize_add_exact)
  have fresh: "us_counter s \<notin> ur_conn ` set (us_readers s)" using us_wfD(9) [OF wf] by fastforce
  have k: "known s' = known s" using reg by (auto simp: known_def s')
  have addr: "addr_of (us_world s') = (addr_of (us_world s))(us_counter s \<mapsto> reg_address reg)"
    by (simp add: s' addr_of_def ecs fun_eq_iff)
  show ?thesis
    unfolding us_wf_def k addr
  proof (intro conjI)
    show "\<forall>rd \<in> set (us_readers s'). ur_conn rd < us_counter s'
        \<and> ((addr_of (us_world s))(us_counter s \<mapsto> reg_address reg)) (ur_conn rd) = Some (reg_address (ur_registration rd))"
    proof
      fix rd assume "rd \<in> set (us_readers s')"
      then consider "rd \<in> set (us_readers s)" "ur_conn rd \<noteq> us_counter s"
        | "rd = \<lparr>ur_registration = reg, ur_conn = us_counter s, ur_codec = z, ur_open = True\<rparr>"
        using us_wfD(9) [OF wf, of rd] by (auto simp: s')
      then show "ur_conn rd < us_counter s'
          \<and> ((addr_of (us_world s))(us_counter s \<mapsto> reg_address reg)) (ur_conn rd) = Some (reg_address (ur_registration rd))"
        by cases (simp_all add: s' n us_wfD(9,10) [OF wf] less_SucI)
    qed
    show "\<forall>i. i \<notin> ur_conn ` set (us_readers s') \<longrightarrow> conns (us_world s') i = None"
      using us_wfD(11) [OF wf] by (simp add: s')
    show "\<forall>pe \<in> set (packets (triggered (us_world s')) @ queue_contents (us_queue s')).
        pe_connection pe \<in> ur_conn ` set (us_readers s')"
      using us_wfD(12) [OF wf] by (simp add: s')
    show "\<forall>x \<in> set log. fst x < length (entries (us_listener s'))
        \<and> (\<forall>r \<in> known s. reg_state r = fst x \<longrightarrow> fst (snd x) = reg_address r)"
      using us_wfD(5,6) [OF wf] by (simp add: s')
  qed (use us_wfD(1-4,7,8) [OF wf] fresh reg in \<open>simp_all add: s'\<close>)
qed

lemma us_inv_establish:
  assumes inv: "us_inv C avail log s" and c: "us_counter s < usize_max"
  shows "us_inv C avail log (establish_stream C reg tok local s)"
proof (cases "reg \<in> set (us_live s) \<and> reg \<notin> set (map ur_registration (us_readers s))")
  case True
  then obtain ecs where ecs: "peer_addr ecs = reg_address reg" and e: "establish_stream C reg tok local s =
     s\<lparr>us_counter := usize_add (us_counter s) 1,
       us_readers := us_readers s @ [\<lparr>ur_registration = reg, ur_conn = us_counter s, ur_codec = uc_codec C, ur_open = True\<rparr>],
       us_world := (us_world s)\<lparr>conns := (conns (us_world s))(us_counter s \<mapsto> ecs)\<rparr>\<rparr>"
    using establish_stream_eq [of reg s tok C local] by blast
  have wf: "us_wf avail log s" using inv by (simp add: us_inv_def)
  have fresh: "us_counter s \<notin> ur_conn ` set (us_readers s)" using us_wfD(9) [OF wf] by fastforce
  have none: "of_conn (us_counter s) (packets (triggered (us_world s)) @ queue_contents (us_queue s)) = []"
    unfolding of_conn_def filter_empty_conv using us_wfD(12) [OF wf] fresh by (intro ballI) metis
  have reg: "reg \<in> known s" using True by (simp add: known_def)
  have ne: "reg_state reg \<notin> reg_state ` ur_registration ` set (us_readers s)"
    using reader_of_place [OF wf _ reg] True by auto
  have "us_delivery C log (establish_stream C reg tok local s)"
    using us_inv_reader [OF inv] us_inv_rest [OF inv] us_inv_rest [OF inv us_wfD(3) [OF wf reg] ne] none
    by (auto simp: us_delivery_def e simp del: of_conn_append)
  then show ?thesis using us_wf_establish [OF wf c ecs _ _ e] True by (simp add: us_inv_def)
next
  case False
  then have "establish_stream C reg tok local s = s" by (simp only: establish_stream_def if_False)
  then show ?thesis using inv by simp
qed

section \<open>Reading\<close>

abbreviation queue_keeps :: "QueuedDatagram Shared \<Rightarrow> QueuedDatagram Shared \<Rightarrow> bool" where
  "queue_keeps sh sh' \<equiv> (lossy_wf sh \<longrightarrow> lossy_wf sh') \<and> max_items sh' = max_items sh \<and> max_bytes sh' = max_bytes sh
     \<and> suffix (queue_ready sh') (queue_ready sh)"

lemma queue_next_keeps: "queue_next sh = (r, sh') \<Longrightarrow> queue_keeps sh sh'"
  by (cases "items (state sh)")
    (auto simp: queue_next_def recv_poll_def try_recv_def try_recv_if_form lossy_wf_def queue_ready_def queue_contents_def
      suffix_ConsI split: if_splits)

lemma queue_next_shorter: "queue_next sh = (Ready (Inr d), sh') \<Longrightarrow> length (queue_ready sh') < length (queue_ready sh)"
  by (cases "items (state sh)")
    (auto simp: queue_next_def recv_poll_def try_recv_def try_recv_if_form queue_ready_def queue_contents_def split: if_splits)

lemma udp_receive_keeps:
  "udp_receive queue_next c fs S l sh h z = Some (res, f, sh', h', z') \<Longrightarrow> queue_keeps sh sh'"
proof (induction "length (queue_ready sh)" arbitrary: sh h z rule: less_induct)
  case less
  obtain r sh1 where n: "queue_next sh = (r, sh1)" by fastforce
  have ih: "queue_keeps sh sh'"
    if "udp_receive queue_next c fs S l sh1 h1 z1 = Some (res, f, sh', h', z')" "r = Ready (Inr d)" for d h1 z1
    using less.hyps [OF _ that(1)] queue_next_shorter [of sh d sh1] queue_next_keeps [OF n] n that(2)
      suffix_order.trans [of "queue_ready sh'" "queue_ready sh1" "queue_ready sh"] by simp
  show ?case
  proof (cases c)
    case False
    then show ?thesis
      using less.prems queue_next_keeps [OF n] ih n
      by (subst (asm) udp_receive.simps) (force simp: Let_def split: poll.splits sum.splits prod.splits if_splits)
  qed (use less.prems in \<open>subst (asm) udp_receive.simps; simp\<close>)
qed

text \<open>One packet moves from the raw queue of connection \<open>n\<close> to the queue to ECS.\<close>

lemma us_inv_deliver:
  assumes inv: "us_inv C avail log s" and rd: "rd \<in> set (us_readers s)"
    and l: "listener_inv avail (us_listener s') (us_live s')" "us_live s' = us_live s"
    and len: "length (entries (us_listener s')) = length (entries (us_listener s))"
    and other: "\<And>i. i \<noteq> reg_state (ur_registration rd) \<Longrightarrow> raw_of (us_listener s') i = raw_of (us_listener s) i"
    and own: "raw_of (us_listener s) (reg_state (ur_registration rd)) = skipped @ d # raw_of (us_listener s') (reg_state (ur_registration rd))"
    and pe: "decoded C pe d" "pe_connection pe = ur_conn rd"
    and rds: "reader_ids (us_readers s') = reader_ids (us_readers s)" and c: "us_counter s' = us_counter s"
    and q: "lossy_wf (us_queue s')"
      "subseq (packets (triggered (us_world s')) @ queue_contents (us_queue s'))
         (packets (triggered (us_world s)) @ queue_contents (us_queue s) @ [pe])"
    and a: "addr_of (us_world s') = addr_of (us_world s)"
  shows "us_inv C avail log s'"
proof -
  let ?A = "packets (triggered (us_world s)) @ queue_contents (us_queue s)"
    and ?A' = "packets (triggered (us_world s')) @ queue_contents (us_queue s')"
  have wf: "us_wf avail log s" using inv by (simp add: us_inv_def)
  have "pe_connection pe' \<in> ur_conn ` set (us_readers s)" if "pe' \<in> set ?A'" for pe'
    using subseq_set [OF q(2)] that us_wfD(12) [OF wf, of pe'] pe(2) rd by auto
  then have "us_wf avail log s'"
    using l(2) c by (intro us_wf_keep [OF wf l(1) _ len rds _ q(1) _ a]) simp_all
  moreover have "us_delivery C log s'"
    unfolding us_delivery_def
  proof (intro conjI ballI allI impI)
    fix rd' assume "rd' \<in> set (us_readers s')"
    then obtain rd0 where rd0: "rd0 \<in> set (us_readers s)" "ur_registration rd' = ur_registration rd0" "ur_conn rd' = ur_conn rd0"
      using reader_ids_views(3) [OF rds] by blast
    have sub: "subseq (of_conn i ?A') (of_conn i ?A @ of_conn i [pe])" for i
      using of_conn_subseq [OF q(2), of i] by simp
    show "passes (decoded C) (of_conn (ur_conn rd') ?A')
          (raw_of (us_listener s') (reg_state (ur_registration rd'))) (routed_to (reg_state (ur_registration rd')) log)"
    proof (cases "rd0 = rd")
      case True
      have "passes (decoded C) (of_conn (ur_conn rd) ?A @ [pe])
          (raw_of (us_listener s') (reg_state (ur_registration rd))) (routed_to (reg_state (ur_registration rd)) log)"
        by (rule passes_read [OF us_inv_reader [OF inv rd, unfolded own] pe(1)])
      from passes_mono [OF this _ subseq_order.refl] sub [of "ur_conn rd"] show ?thesis
        using True rd0 pe(2) by (simp add: of_conn_def)
    next
      case False
      note apart = distinct_readers [OF wf rd rd0(1) False]
      from other [OF apart(2)] have raw: "subseq (raw_of (us_listener s') (reg_state (ur_registration rd0)))
          (raw_of (us_listener s) (reg_state (ur_registration rd0)))" by simp
      have "of_conn (ur_conn rd0) [pe] = []" using apart(1) pe(2) by (simp add: of_conn_def)
      then have "subseq (of_conn (ur_conn rd0) ?A') (of_conn (ur_conn rd0) ?A)" using sub [of "ur_conn rd0"] by simp
      from passes_mono [OF us_inv_reader [OF inv rd0(1)] this raw] show ?thesis
        unfolding rd0(2,3) .
    qed
  next
    fix i assume i: "i < length (entries (us_listener s'))" "i \<notin> reg_state ` ur_registration ` set (us_readers s')"
    then have "i \<noteq> reg_state (ur_registration rd)" using reader_ids_sets [OF rds] rd by auto
    then show "passes (decoded C) [] (raw_of (us_listener s') i) (routed_to i log)"
      using us_inv_rest [OF inv, of i] i len reader_ids_sets [OF rds] other [of i] by simp
  qed
  ultimately show ?thesis by (simp add: us_inv_def)
qed

lemma forward_datagram:
  assumes "lossy_wf sh"
    and f: "forward (\<lambda>r. upd_conn i (ecs_record_drop record_drop r))
         (\<lambda>pe. upd_conn (pe_connection pe) (ecs_record_drop record_drop ReceiveQueueEvicted))
         c pe \<lparr>fwd_sender = sh, fwd_datagram = True\<rparr> w = (r, fw, w', ns)"
  shows "lossy_wf (fwd_sender fw) \<and> subseq (queue_contents (fwd_sender fw)) (queue_contents sh @ [pe])
     \<and> addr_of w' = addr_of w \<and> triggered w' = triggered w"
proof -
  obtain res sh' ns' where t: "try_send pe 1 sh = (res, sh', ns')" by (metis prod_cases3)
  have ev: "addr_of (fold (\<lambda>pe. upd_conn (pe_connection pe) (ecs_record_drop record_drop ReceiveQueueEvicted)) pes w) = addr_of w
      \<and> triggered (fold (\<lambda>pe. upd_conn (pe_connection pe) (ecs_record_drop record_drop ReceiveQueueEvicted)) pes w) = triggered w" for pes
    by (induction pes arbitrary: w) simp_all
  have "fwd_sender fw = sh'" "addr_of w' = addr_of w \<and> triggered w' = triggered w"
    using f t ev by (auto simp: forward_def split: sum.splits TrySendError.splits)
  then show ?thesis using try_send_contents [OF assms(1) t] by simp
qed

lemma reader_ids_upd:
  assumes "n < length rds" "\<And>rd. ur_registration (f rd) = ur_registration rd" "\<And>rd. ur_conn (f rd) = ur_conn rd"
  shows "reader_ids (rds[n := f (rds ! n)]) = reader_ids rds"
proof -
  have "reader_ids (rds[n := f (rds ! n)]) = (reader_ids rds)[n := reader_ids rds ! n]"
    using assms by (simp add: map_update)
  then show ?thesis by simp
qed

text \<open>What one poll of the read half does to the queue, cancelled or not.\<close>

lemma udp_receive_datagram:
  fixes S :: "('p, 'q, 'ee, 'd, 'z) Serializer"
  assumes "(udp_receive queue_next c False S l sh h z
      :: ((('d, 'l) ReceiveError + 'p \<times> instant) poll \<times> _) option) = Some (Ready (Inr (p, at)), f, sh', h', z')"
  shows "\<exists>skipped bs. queue_ready sh = skipped @ (bs, at) # queue_ready sh' \<and> deliverable S l (bs, at) p \<and> \<not> f"
proof (cases c)
  case True
  then show ?thesis using assms by (subst (asm) udp_receive.simps) simp
next
  case False
  then show ?thesis
    using raw_queue.receive_accounts [of False S l sh h z, where 'l = 'l] assms by auto
qed

lemma peer_close_raw [simp]:
  "raw_of (peer_close T i w) j = raw_of w j" "length (entries (peer_close T i w)) = length (entries w)"
  by simp_all

lemma us_inv_end_reader:
  assumes inv: "us_inv C avail log s" and n: "n < length (us_readers s)"
  shows "us_inv C avail log (end_reader C n s)"
proof -
  have wf: "us_wf avail log s" using inv by (simp add: us_inv_def)
  have ids: "reader_ids ((us_readers s)[n := (us_readers s ! n)\<lparr>ur_open := False\<rparr>]) = reader_ids (us_readers s)"
    using n by (intro reader_ids_upd) simp_all
  show ?thesis
    using us_wfD(1,2) [OF wf] ids
    by (intro us_inv_shrink [OF inv]) (simp_all add: end_reader_def Let_def listener_inv_close split: option.split)
qed

text \<open>The raw queue and the handle of an entry after a read.\<close>

lemma read_listener:
  assumes inv: "listener_inv avail w live" and i: "i < length (entries w)" and keeps: "queue_keeps (peer_queue (entries w ! i)) q"
    and w1_def: "w1 = upd_entry i (\<lambda>p. p\<lparr>peer_queue := q, peer_state := (peer_state p)\<lparr>ps_handle := h\<rparr>\<rparr>) w"
    and w2_def: "w2 = (if f then peer_close T i w1 else w1)"
  shows "listener_inv avail w2 live" "length (entries w2) = length (entries w)"
    and "raw_of w2 j = (if j = i then queue_ready q else raw_of w j)"
proof -
  have "entry_ok (listener_options w) (entries w ! i)" using inv i by (simp add: listener_inv_def entries_ok_def)
  then have "listener_inv avail w1 live"
    unfolding w1_def using keeps by (intro listener_inv_upd [OF inv]) (simp add: entry_ok_def)
  then show "listener_inv avail w2 live" by (simp add: w2_def listener_inv_close)
qed (use i in \<open>simp_all add: w2_def w1_def upd_entry_def upd_entry_raw\<close>)

text \<open>A packet read from the queue of reader \<open>n\<close> is forwarded to ECS, or the reader ends.\<close>

lemma us_inv_forward:
  assumes inv: "us_inv C avail log s" and n: "n < length (us_readers s)"
    and s1: "us_readers s1 = (us_readers s)[n := (us_readers s ! n)\<lparr>ur_codec := z\<rparr>]"
      "us_live s1 = us_live s" "us_counter s1 = us_counter s" "us_world s1 = us_world s" "us_queue s1 = us_queue s"
    and l: "listener_inv avail (us_listener s1) (us_live s)" "length (entries (us_listener s1)) = length (entries (us_listener s))"
      "\<And>j. j \<noteq> reg_state (ur_registration (us_readers s ! n)) \<Longrightarrow> raw_of (us_listener s1) j = raw_of (us_listener s) j"
    and own: "raw_of (us_listener s) (reg_state (ur_registration (us_readers s ! n)))
        = skipped @ d # raw_of (us_listener s1) (reg_state (ur_registration (us_readers s ! n)))"
    and pe: "decoded C pe d" "pe_connection pe = ur_conn (us_readers s ! n)"
    and fw: "forward (\<lambda>r. upd_conn (ur_conn (us_readers s ! n)) (ecs_record_drop record_drop r))
         (\<lambda>pe. upd_conn (pe_connection pe) (ecs_record_drop record_drop ReceiveQueueEvicted)) c pe
         \<lparr>fwd_sender = us_queue s, fwd_datagram = True\<rparr> (us_world s) = (ok, fw, world, ns)"
    and s2: "s2 = s1\<lparr>us_queue := fwd_sender fw, us_world := world\<rparr>"
  shows "us_inv C avail log (if ok = Ready True then s2 else end_reader C n s2)"
proof -
  have wf: "us_wf avail log s" using inv by (simp add: us_inv_def)
  note fwd = forward_datagram [OF us_wfD(2) [OF wf] fw]
  have rd: "us_readers s ! n \<in> set (us_readers s)" using n by simp
  have ids: "reader_ids (us_readers s1) = reader_ids (us_readers s)"
    unfolding s1(1) using n by (intro reader_ids_upd) simp_all
  have "us_inv C avail log s2"
    by (rule us_inv_deliver [OF inv rd, where pe = pe and d = d and skipped = skipped])
      (use l ids own pe fwd in \<open>simp_all add: s2 s1(2-) list_emb_append_mono\<close>)
  then show ?thesis using us_inv_end_reader [of C avail log s2 n] n by (simp add: s2 s1(1))
qed

lemma us_inv_read:
  fixes C :: "('p, 'q, 'ee, 'd, 'z, 'c, 'k, 'ts, 'sm) udp_config" and s :: "('p, 'q, 'd, 'l, 'z, 'c, 'k, 'ts, 'sm) udp_server"
  assumes inv: "us_inv C avail log s"
  shows "us_inv C avail log (read_stream C n writer_failed s)"
proof (cases "n < length (us_readers s) \<and> ur_open (us_readers s ! n)
    \<and> \<not> writer_failed \<and> \<not> world_cancelled (uc_tokens C) (us_world s) (ur_conn (us_readers s ! n))")
  case False
  then show ?thesis using inv us_inv_end_reader [OF inv, of n] by (simp add: read_stream_def del: de_Morgan_conj) blast
next
  case True
  define rd i p where "rd = us_readers s ! n" and "i = reg_state (ur_registration (us_readers s ! n))"
    and "p = entries (us_listener s) ! reg_state (ur_registration (us_readers s ! n))"
  let ?poll = "udp_receive queue_next (peer_is_closed (uc_tokens C) i (us_listener s)) False (uc_serializer C) (uc_limits C)
      (peer_queue p) (ps_handle (peer_state p)) (ur_codec rd) :: ((('d, 'l) ReceiveError + 'p \<times> instant) poll \<times> _) option"
  have wf: "us_wf avail log s" using inv by (simp add: us_inv_def)
  have i: "i < length (entries (us_listener s))" "p = entries (us_listener s) ! i"
    using us_wfD(3) [OF wf, of "ur_registration rd"] True by (simp_all add: rd_def i_def p_def known_def)
  consider "?poll = None" | res f q h z where "?poll = Some (res, f, q, h, z)" by (cases ?poll) auto
  then show ?thesis
  proof cases
    case 1
    then have "read_stream C n writer_failed s = s" using True by (simp add: read_stream_def Let_def rd_def i_def p_def)
    then show ?thesis using inv by simp
  next
    case r: 2
    define w1 where "w1 = upd_entry i (\<lambda>p. p\<lparr>peer_queue := q, peer_state := (peer_state p)\<lparr>ps_handle := h\<rparr>\<rparr>) (us_listener s)"
    define w2 where "w2 = (if f then peer_close (uc_tokens C) i w1 else w1)"
    define s1 where "s1 = s\<lparr>us_listener := w2, us_readers := (us_readers s)[n := rd\<lparr>ur_codec := z\<rparr>]\<rparr>"
    note read = rd_def i_def p_def s1_def w2_def w1_def
    note keeps = udp_receive_keeps [OF r]
    note l = read_listener [OF us_wfD(1) [OF wf] i(1) keeps [unfolded i(2)] w1_def w2_def]
    show ?thesis
    proof (cases "\<exists>packet at. res = Ready (Inr (packet, at))")
      case False
      have "reader_ids (us_readers s1) = reader_ids (us_readers s)"
        unfolding s1_def rd_def using True by simp (intro reader_ids_upd, simp_all)
      then have "us_inv C avail log s1"
        using l us_wfD(2) [OF wf] keeps by (intro us_inv_shrink [OF inv]) (simp_all add: s1_def i(2) suffix_imp_subseq)
      moreover have "read_stream C n writer_failed s = (if res = Pending then s1 else end_reader C n s1)"
        using True r False by (auto simp: read read_stream_def Let_def split: poll.splits sum.splits)
      ultimately show ?thesis using us_inv_end_reader [of C avail log s1 n] True by (simp add: s1_def)
    next
      case got: True
      then obtain packet at where res: "res = Ready (Inr (packet, at))" by blast
      let ?pe = "\<lparr>pe_connection = ur_conn rd, pe_packet = packet, pe_received_at = at\<rparr>"
      obtain ok fw world ns where fw: "forward (\<lambda>r. upd_conn (ur_conn rd) (ecs_record_drop record_drop r))
           (\<lambda>pe. upd_conn (pe_connection pe) (ecs_record_drop record_drop ReceiveQueueEvicted))
           (world_cancelled (uc_tokens C) (us_world s) (ur_conn rd)) ?pe
           \<lparr>fwd_sender = us_queue s, fwd_datagram = True\<rparr> (us_world s) = (ok, fw, world, ns)"
        by (metis prod_cases4)
      let ?s2 = "s1\<lparr>us_queue := fwd_sender fw, us_world := world\<rparr>"
      have eq: "read_stream C n writer_failed s = (if ok = Ready True then ?s2 else end_reader C n ?s2)"
        using True r fw by (simp add: res read read_stream_def Let_def)
      obtain skipped bs where "queue_ready (peer_queue p) = skipped @ (bs, at) # queue_ready q"
        "deliverable (uc_serializer C) (uc_limits C) (bs, at) packet"
        using udp_receive_datagram [OF r [unfolded res]] by blast
      then have "us_inv C avail log (if ok = Ready True then ?s2 else end_reader C n ?s2)"
        using True l by (intro us_inv_forward [OF inv _ _ _ _ _ _ _ _ _ _ _ _ fw [unfolded rd_def], where d = "(bs, at)" and skipped = skipped])
          (simp_all add: s1_def rd_def i_def p_def decoded_def)
      then show ?thesis unfolding eq .
    qed
  qed
qed

section \<open>Runs\<close>

lemma us_inv_step:
  assumes laws: "sem_laws (uc_semaphore C) avail" and inv: "us_inv C avail log s" and c: "us_counter s < usize_max"
  shows "us_inv C avail (log @ us_log C [ev] s) (us_step C ev s)"
proof -
  have wf: "us_wf avail log s" using inv by (simp add: us_inv_def)
  note same = us_wfD(1,2) [OF wf]
  show ?thesis
  proof (cases ev)
    case (Arrive addr bs at)
    then show ?thesis using us_inv_arrive [OF laws inv] by simp
  next
    case (Establish reg tok local)
    then show ?thesis using us_inv_establish [OF inv c] by simp
  next
    case DrawId
    then show ?thesis
      using same c by (simp add: id_next_def) (intro us_inv_shrink [OF inv], simp_all add: usize_add_exact)
  next
    case (ReadStream n a)
    then show ?thesis using us_inv_read [OF inv] by simp
  next
    case (LifecycleFrame ms)
    then show ?thesis
      using same lifecycle_frame [of ms "us_world s"] by simp (intro us_inv_shrink [OF inv], simp_all)
  next
    case DatagramFrame
    obtain q world where d: "server_receive_datagram_packets (uc_tokens C) record_drop None (Some (uc_queues C))
        (us_queue s) (us_world s) = (q, world)" by fastforce
    from datagram_frame_shrinks [OF us_wfD(2) [OF wf] d [unfolded server_receive_datagram_packets_def Let_def]]
    show ?thesis using DatagramFrame d same(1) by simp (intro us_inv_shrink [OF inv], simp_all)
  next
    case (DropStream reg)
    then show ?thesis using us_inv_drop_stream [OF laws inv] by simp
  next
    case (ClosePeer i)
    then show ?thesis
      using same by simp (intro us_inv_shrink [OF inv], simp_all add: listener_inv_close)
  next
    case (Disconnect i)
    show ?thesis
    proof (cases "conns (us_world s) i")
      case (Some ecs)
      then show ?thesis using Disconnect same by simp (intro us_inv_shrink [OF inv], simp_all)
    qed (use Disconnect inv in simp)
  next
    case DropListener
    then show ?thesis
      using same inv by simp (intro impI us_inv_shrink [OF inv], simp_all add: listener_drop_inv)
  qed
qed

lemma us_log_Cons: "us_log C (ev # evs) s = us_log C [ev] s @ us_log C evs (us_step C ev s)"
  by (cases ev) simp_all

lemma end_reader_counter [simp]: "us_counter (end_reader C n s) = us_counter s"
  by (simp add: end_reader_def Let_def)

lemma us_step_counter: "us_counter s < usize_max \<Longrightarrow> us_counter (us_step C ev s) \<le> Suc (us_counter s)"
proof (cases ev)
  case (Establish reg tok local)
  assume "us_counter s < usize_max"
  then show ?thesis
    using Establish establish_stream_eq [of reg s tok C local]
    by (cases "reg \<in> set (us_live s) \<and> reg \<notin> set (map ur_registration (us_readers s))")
      (auto simp: usize_add_exact establish_stream_def)
next
  case (ReadStream n a)
  then show ?thesis
    by (auto simp: read_stream_def Let_def split: option.splits poll.splits sum.splits prod.splits)
qed (auto simp: arrive_def id_next_def usize_add_exact drop_stream_def split: prod.split option.split)

lemma us_inv_run:
  assumes laws: "sem_laws (uc_semaphore C) avail" and inv: "us_inv C avail log s"
    and c: "us_counter s + length evs \<le> usize_max"
  shows "us_inv C avail (log @ us_log C evs s) (fold (us_step C) evs s)"
  using inv c
proof (induction evs arbitrary: log s)
  case (Cons ev evs)
  have lt: "us_counter s < usize_max" using Cons.prems(2) by simp
  have "us_counter (us_step C ev s) + length evs \<le> usize_max"
    using us_step_counter [OF lt, of C ev] Cons.prems(2) by simp
  from Cons.IH [OF us_inv_step [OF laws Cons.prems(1) lt] this] show ?case
    by (subst us_log_Cons) simp
qed simp

lemma us_inv_init:
  assumes "sem_laws (uc_semaphore C) avail" "listener_from_socket max_permits (uc_semaphore C) ts0 peer local o' = Inr w"
    and "receive_queue_capacity o' \<le> usize_max" "receive_queue_bytes o' \<le> usize_max"
    and "receive_capacity (uc_queues C) \<le> usize_max"
  shows "us_inv C avail [] (us_init C w ts counter)"
proof -
  have e: "entries w = []" using assms(2) by (auto simp: listener_from_socket_def split: sum.splits if_splits)
  have "listener_inv avail w []" using udp_reach_inv [OF udp_reach.opened [OF assms(2)] assms(1,3,4)] by simp
  moreover have "lossy_wf (us_queue (us_init C w ts counter))"
    using assms(5) by (simp add: us_init_def lossy_channel_wf usize_max_def)
  ultimately show ?thesis
    by (simp add: us_inv_def us_wf_def us_delivery_def us_init_def known_def queue_contents_def lossy_channel_def e)
qed

section \<open>End to end\<close>

fun arrival :: "('p, 'd, 'l, 'k) us_event \<Rightarrow> (SocketAddr \<times> datagram) list" where
  "arrival (Arrive addr bs at) = [(addr, (bs, at))]"
| "arrival _ = []"

definition arrivals :: "('p, 'd, 'l, 'k) us_event list \<Rightarrow> (SocketAddr \<times> datagram) list" where
  "arrivals evs = concat (map arrival evs)"

text \<open>The datagrams that a log attributes to a connection.\<close>

definition datagrams_of :: "ConnectionId \<Rightarrow> (ConnectionId option \<times> SocketAddr \<times> datagram) list \<Rightarrow> datagram list" where
  "datagrams_of c log = map (snd \<circ> snd) (filter (\<lambda>x. fst x = Some c) log)"

definition owner :: "'z udp_reader list \<Rightarrow> nat \<Rightarrow> ConnectionId option" where
  "owner rds i = map_of (map (\<lambda>rd. (reg_state (ur_registration rd), ur_conn rd)) rds) i"

lemma us_log_arrivals: "subseq (map snd (us_log C evs s)) (arrivals evs)"
proof (induction evs arbitrary: s)
  case (Cons ev evs)
  have "subseq (map snd (us_log C [ev] s)) (arrival ev)" by (cases ev) (simp_all split: option.split)
  then show ?case
    using list_emb_append_mono [OF _ Cons.IH [of "us_step C ev s"]]
    by (subst us_log_Cons) (simp add: arrivals_def)
qed (simp add: arrivals_def)

lemma owner_iff:
  assumes wf: "us_wf avail log s" and rd: "rd \<in> set (us_readers s)"
  shows "owner (us_readers s) i = Some (ur_conn rd) \<longleftrightarrow> i = reg_state (ur_registration rd)"
proof -
  have "inj_on reg_state (ur_registration ` set (us_readers s))"
    using us_wfD(4) [OF wf] by (rule inj_on_subset) (auto simp: known_def)
  then have d: "distinct (map fst (map (\<lambda>rd. (reg_state (ur_registration rd), ur_conn rd)) (us_readers s)))"
    using us_wfD(7) [OF wf] by (simp add: distinct_map comp_def inj_on_def)
  have "rd' = rd" if "rd' \<in> set (us_readers s)" "ur_conn rd' = ur_conn rd" for rd'
    using us_wfD(8) [OF wf] that rd by (auto simp: distinct_map dest: inj_onD)
  then show ?thesis using rd unfolding owner_def map_of_eq_Some_iff [OF d] by auto
qed

lemma us_provenance:
  assumes "us_inv C avail log s"
  defines "L \<equiv> map (map_prod (owner (us_readers s)) id) log"
  shows "map snd L = map snd log"
    and "conns (us_world s) c = Some ecs \<Longrightarrow> x \<in> set L \<Longrightarrow> fst x = Some c \<Longrightarrow> fst (snd x) = peer_addr ecs"
    and "embeds (decoded C) (of_conn c (packets (triggered (us_world s)))) (datagrams_of c L)"
proof -
  have wf: "us_wf avail log s" using assms(1) by (simp add: us_inv_def)
  show "map snd L = map snd log" by (simp add: L_def)
  {
    assume c: "conns (us_world s) c = Some ecs" and x: "x \<in> set L" "fst x = Some c"
    obtain rd where rd: "rd \<in> set (us_readers s)" "ur_conn rd = c" using us_wfD(11) [OF wf, of c] c by fastforce
    obtain y where y: "y \<in> set log" "snd x = snd y" "fst y = reg_state (ur_registration rd)"
      using x owner_iff [OF wf rd(1)] rd(2) by (auto simp: L_def)
    have "fst (snd y) = reg_address (ur_registration rd)"
      using us_wfD(6) [OF wf y(1), of "ur_registration rd"] y(3) rd(1) by (simp add: known_def)
    then show "fst (snd x) = peer_addr ecs"
      using us_wfD(10) [OF wf rd(1)] rd(2) c y(2) by (simp add: addr_of_def)
  }
  show "embeds (decoded C) (of_conn c (packets (triggered (us_world s)))) (datagrams_of c L)"
  proof (cases "c \<in> ur_conn ` set (us_readers s)")
    case True
    then obtain rd where rd: "rd \<in> set (us_readers s)" "ur_conn rd = c" by blast
    have "datagrams_of c L = routed_to (reg_state (ur_registration rd)) log"
      using owner_iff [OF wf rd(1)] rd(2)
      by (simp add: datagrams_of_def routed_to_def L_def filter_map comp_def)
    then show ?thesis
      using passes_seen [OF passes_mono [OF us_inv_reader [OF assms(1) rd(1)] of_conn_subseq subseq_order.refl]] rd(2)
      by (simp add: prefix_imp_subseq)
  next
    case False
    then have "of_conn c (packets (triggered (us_world s))) = []"
      using us_wfD(12) [OF wf] unfolding of_conn_def filter_empty_conv by fastforce
    then show ?thesis by simp
  qed
qed

lemma us_attributed:
  assumes "sem_laws (uc_semaphore C) avail" "listener_from_socket max_permits (uc_semaphore C) ts0 peer local o' = Inr w"
    and "receive_queue_capacity o' \<le> usize_max" "receive_queue_bytes o' \<le> usize_max"
    and "receive_capacity (uc_queues C) \<le> usize_max" and "counter + length evs \<le> usize_max"
    and s: "s = fold (us_step C) evs (us_init C w ts counter)"
  obtains log where "subseq (map snd log) (arrivals evs)"
    and "\<And>c ecs x. conns (us_world s) c = Some ecs \<Longrightarrow> x \<in> set log \<Longrightarrow> fst x = Some c \<Longrightarrow> fst (snd x) = peer_addr ecs"
    and "\<And>c. embeds (decoded C) (of_conn c (packets (triggered (us_world s)))) (datagrams_of c log)"
proof -
  let ?s = "us_init C w ts counter"
  have "us_counter ?s + length evs \<le> usize_max" using assms(6) by (simp add: us_init_def)
  from us_inv_run [OF assms(1) us_inv_init [OF assms(1-5)] this]
  have inv: "us_inv C avail (us_log C evs ?s) s" by (simp add: s)
  show thesis
    by (rule that [OF _ us_provenance(2,3) [OF inv]]) (simp_all add: us_provenance(1) [OF inv] us_log_arrivals)
qed

lemma datagrams_of_address:
  assumes "subseq (map snd log) xs" "\<And>x. x \<in> set log \<Longrightarrow> fst x = Some c \<Longrightarrow> fst (snd x) = a"
  shows "subseq (datagrams_of c log) (map snd (filter (\<lambda>x. fst x = a) xs))"
proof -
  have "filter (\<lambda>x. fst x = Some c) log = filter (\<lambda>x. fst x = Some c) (filter (\<lambda>x. fst (snd x) = a) log)"
    using assms(2) by (auto intro: filter_cong)
  then have "subseq (filter (\<lambda>x. fst x = Some c) log) (filter (\<lambda>x. fst (snd x) = a) log)"
    by (metis subseq_filter_left)
  then have "subseq (datagrams_of c log) (map snd (map snd (filter (\<lambda>x. fst (snd x) = a) log)))"
    by (simp add: datagrams_of_def subseq_map comp_def)
  also have "map snd (filter (\<lambda>x. fst (snd x) = a) log) = filter (\<lambda>x. fst x = a) (map snd log)"
    by (simp add: filter_map comp_def)
  also have "subseq (map snd (filter (\<lambda>x. fst x = a) (map snd log))) (map snd (filter (\<lambda>x. fst x = a) xs))"
    by (intro subseq_map subseq_filter assms(1))
  finally show ?thesis .
qed

lemma decoded_sent:
  assumes "codec_sync Sc (uc_serializer C) (\<lambda>_ _. True)" "decoded C pe d" "\<exists>z. fst (ser_serialize Sc p z) = Inr (fst d)"
  shows "pe_packet pe = p"
proof -
  obtain z zs where z: "fst (ser_deserialize (uc_serializer C) (fst d) z) = Inr (pe_packet pe)"
    "fst (ser_serialize Sc p zs) = Inr (fst d)"
    using assms(2,3) by (auto simp: decoded_def deliverable_def)
  obtain zs' where "ser_serialize Sc p zs = (Inr (fst d), zs')" using z(2) by (cases "ser_serialize Sc p zs") simp
  then obtain z' where "ser_deserialize (uc_serializer C) (fst d) z = (Inr p, z')"
    using assms(1) unfolding codec_sync_def by blast
  then show ?thesis using z(1) by simp
qed

section \<open>A run\<close>

lemma udp_receive_good:
  "queue_next sh = (Ready (Inr (bs, at)), sh') \<Longrightarrow> length bs \<le> MAX_DATAGRAM_SIZE \<Longrightarrow> length bs \<le> max_packet_size l \<Longrightarrow>
   ser_deserialize S bs z = (Inr p, z') \<Longrightarrow>
   udp_receive queue_next False False S l sh h z = Some (Ready (Inr (p, at)), False, sh', h, z')"
  by (subst udp_receive.simps) (simp add: Let_def)

definition plain_codec :: "(byte list, byte list, unit, unit, unit) Serializer" where
  "plain_codec = \<lparr>ser_serialize = (\<lambda>p z. (Inr p, z)), ser_deserialize = (\<lambda>bs z. (Inr bs, z))\<rparr>"

definition demo_udp_config ::
  "(byte list, byte list, unit, unit, unit, byte list list_chan, demo_token, nat \<times> demo_token list, nat) udp_config"
where
  "demo_udp_config =
     \<lparr>uc_tokens = demo_tokens, uc_semaphore = nat_semaphore, uc_serializer = plain_codec, uc_codec = (),
      uc_limits = default_limits, uc_mpsc = list_mpsc, uc_queues = default_queue_settings\<lparr>events_per_frame := 2\<rparr>\<rparr>"

definition demo_udp_events :: "(byte list, unit, unit, demo_token) us_event list" where
  "demo_udp_events =
     [Arrive (V4 1 1) [1] 5, Arrive (V4 1 1) [2] 6, Establish (PeerRegistration (V4 1 1) 0) (7, []) (V4 0 9),
      ReadStream 0 False, ReadStream 0 False, LifecycleFrame [SEstablished (V4 1 1) 3], DatagramFrame]"

abbreviation demo_udp_start ::
  "(byte list, byte list, unit, unit, unit, byte list list_chan, demo_token, nat \<times> demo_token list, nat) udp_server"
where
  "demo_udp_start \<equiv> us_init demo_udp_config demo_listener (0, []) 3"

text \<open>The states of this run: the raw items of the only peer, the readers, the counter, the queue and the world.\<close>

definition demo_udp_state ::
  "UdpConnectionHandle \<Rightarrow> (byte list \<times> instant) list \<Rightarrow> unit udp_reader list \<Rightarrow> nat \<Rightarrow> byte list PacketReceiveEvent list
     \<Rightarrow> (byte list, byte list list_chan, UdpConnectionHandle, demo_token, nat \<times> demo_token list,
         (byte list, unit, unit) server_event) endpoint_world
     \<Rightarrow> (byte list, byte list, unit, unit, unit, byte list list_chan, demo_token, nat \<times> demo_token list, nat) udp_server"
where
  "demo_udp_state h raw rds n pes w =
     \<lparr>us_listener = demo_listener\<lparr>peers := [(V4 1 1, 0)], slots := 0, tokens_state := (1, []),
        entries := [\<lparr>peer_state = \<lparr>ps_options = ValidatedOptions demo_udp_options, ps_handle = h, ps_closed = (1, [])\<rparr>,
          peer_queue = \<lparr>state = \<lparr>items = map (\<lambda>(bs, at). (\<lparr>qd_bytes = bs, qd_received_at = at\<rparr>, length bs)) raw,
              bytes = sum_list (map (length \<circ> fst) raw), senders = 1, receiver_open = True\<rparr>,
            max_items = 2, max_bytes = receive_queue_bytes default_udp_options, policy = DropNewest\<rparr>\<rparr>]\<rparr>,
      us_live = [PeerRegistration (V4 1 1) 0], us_readers = rds, us_counter = n,
      us_queue = \<lparr>state = \<lparr>items = map (\<lambda>pe. (pe, 1)) pes, bytes = length pes, senders = 1, receiver_open = True\<rparr>,
        max_items = 4096, max_bytes = usize_max, policy = DropNewest\<rparr>,
      us_world = w\<rparr>"

lemmas demo_udp_eval = demo_udp_config_def demo_listener_def demo_udp_options_def default_udp_options_def demo_tokens_def
  nat_semaphore_def default_queue_settings_def lossy_eval Let_def demo_udp_state_def

lemma demo_udp_arrive:
  "\<exists>h. us_step demo_udp_config (Arrive (V4 1 1) [1] 5) demo_udp_start = demo_udp_state h [([1], 5)] [] 3 [] (us_world demo_udp_start)"
  "\<exists>h'. us_step demo_udp_config (Arrive (V4 1 1) [2] 6) (demo_udp_state h [([1], 5)] [] 3 [] w)
      = demo_udp_state h' [([1], 5), ([2], 6)] [] 3 [] w"
  by (simp_all add: demo_udp_eval us_init_def arrive_def dispatch_def dispatch_new_def MAX_DATAGRAM_SIZE_def
      peer_state_new_def drop_peer_at_def received_datagram_def demo_fresh_def peer_is_closed_def upd_entry_def peer_push_def)

definition demo_udp_reader :: "unit udp_reader" where
  "demo_udp_reader = \<lparr>ur_registration = PeerRegistration (V4 1 1) 0, ur_conn = 3, ur_codec = (), ur_open = True\<rparr>"

lemma demo_udp_establish:
  "\<exists>ecs. us_step demo_udp_config (Establish (PeerRegistration (V4 1 1) 0) (7, []) (V4 0 9)) (demo_udp_state h raw [] 3 [] w)
      = demo_udp_state h raw [demo_udp_reader] 4 [] (w\<lparr>conns := (conns w)(3 \<mapsto> ecs)\<rparr>) \<and> peer_addr ecs = V4 1 1
      \<and> disconnect_task ecs = (7, [])"
  using establish_stream_eq [of "PeerRegistration (V4 1 1) 0" "demo_udp_state h raw [] 3 [] w" "(7, [])" demo_udp_config "V4 0 9"]
  by (auto simp: demo_udp_state_def demo_udp_reader_def usize_add_def demo_udp_config_def)

lemma demo_udp_read:
  assumes "length bs = 1" "length pes < 2" "world_tokens w = (0, [])"
  shows "\<exists>h'. us_step demo_udp_config (ReadStream 0 False) (demo_udp_state h ((bs, at) # raw) [demo_udp_reader] 4 pes w)
     = demo_udp_state h' raw [demo_udp_reader] 4 (pes @ [\<lparr>pe_connection = 3, pe_packet = bs, pe_received_at = at\<rparr>]) w"
  using assms
  by (simp add: demo_udp_eval read_stream_def demo_udp_reader_def udp_receive_good queue_next_def plain_codec_def
      default_limits_def limits_new_def max_packet_size_def usize_max_def MAX_DATAGRAM_SIZE_def forward_def upd_entry_def
      world_cancelled_def peer_is_closed_def split: option.split)

lemma demo_udp_frame:
  assumes "conns w 3 = Some ecs" "disconnect_task ecs = (7, [])" "world_tokens w = (0, [])" "triggered w = []"
    and "pe_connection p1 = 3" "pe_connection p2 = 3"
  shows "packets (triggered (us_world (us_step demo_udp_config DatagramFrame
     (us_step demo_udp_config (LifecycleFrame [SEstablished (V4 1 1) 3]) (demo_udp_state h raw rds 4 [p1, p2] w))))) = [p1, p2]"
    and "map_option peer_addr (conns (us_world (us_step demo_udp_config DatagramFrame
     (us_step demo_udp_config (LifecycleFrame [SEstablished (V4 1 1) 3]) (demo_udp_state h raw rds 4 [p1, p2] w)))) 3) = Some (peer_addr ecs)"
  using assms
  by (simp_all add: demo_udp_config_def demo_udp_state_def server_receive_datagram_packets_def Let_def server_apply_def
      default_queue_settings_def resolve_queues_def numeral_2_eq_2 datagram_frame_def try_recv_if_def trigger_def upd_conn_def
      world_published_def world_cancelled_def mark_published_def deliver_datagram_def is_published_def demo_tokens_def packets_def usize_sub_def)

definition demo_udp_end ::
  "(byte list, byte list, unit, unit, unit, byte list list_chan, demo_token, nat \<times> demo_token list, nat) udp_server"
where
  "demo_udp_end = fold (us_step demo_udp_config) demo_udp_events demo_udp_start"

lemma demo_udp_run:
  "packets (triggered (us_world demo_udp_end)) =
     [\<lparr>pe_connection = 3, pe_packet = [1], pe_received_at = 5\<rparr>, \<lparr>pe_connection = 3, pe_packet = [2], pe_received_at = 6\<rparr>]"
  "\<exists>ecs. conns (us_world demo_udp_end) 3 = Some ecs \<and> peer_addr ecs = V4 1 1"
proof -
  obtain h1 where s1: "us_step demo_udp_config (Arrive (V4 1 1) [1] 5) demo_udp_start
      = demo_udp_state h1 [([1], 5)] [] 3 [] (us_world demo_udp_start)" using demo_udp_arrive(1) by blast
  obtain h2 where s2: "us_step demo_udp_config (Arrive (V4 1 1) [2] 6) (demo_udp_state h1 [([1], 5)] [] 3 [] (us_world demo_udp_start))
      = demo_udp_state h2 [([1], 5), ([2], 6)] [] 3 [] (us_world demo_udp_start)" using demo_udp_arrive(2) by blast
  from demo_udp_establish [of h2 "[([1], 5), ([2], 6)]" "us_world demo_udp_start"] obtain ecs where s3:
    "us_step demo_udp_config (Establish (PeerRegistration (V4 1 1) 0) (7, []) (V4 0 9))
        (demo_udp_state h2 [([1], 5), ([2], 6)] [] 3 [] (us_world demo_udp_start))
      = demo_udp_state h2 [([1], 5), ([2], 6)] [demo_udp_reader] 4 []
          ((us_world demo_udp_start)\<lparr>conns := (conns (us_world demo_udp_start))(3 \<mapsto> ecs)\<rparr>)"
    and ecs: "peer_addr ecs = V4 1 1" "disconnect_task ecs = (7, [])" by (elim exE conjE) (rule that)
  define w where "w = (us_world demo_udp_start)\<lparr>conns := (conns (us_world demo_udp_start))(3 \<mapsto> ecs)\<rparr>"
  have w: "conns w 3 = Some ecs" "world_tokens w = (0, [])" "triggered w = []" by (simp_all add: w_def us_init_def)
  let ?p1 = "\<lparr>pe_connection = 3, pe_packet = [1 :: byte], pe_received_at = 5\<rparr>"
    and ?p2 = "\<lparr>pe_connection = 3, pe_packet = [2 :: byte], pe_received_at = 6\<rparr>"
  obtain h3 where s4: "us_step demo_udp_config (ReadStream 0 False)
      (demo_udp_state h2 [([1], 5), ([2], 6)] [demo_udp_reader] 4 [] w) = demo_udp_state h3 [([2], 6)] [demo_udp_reader] 4 [?p1] w"
    using demo_udp_read [of "[1]" "[]" w h2 5 "[([2], 6)]"] w by auto
  obtain h4 where s5: "us_step demo_udp_config (ReadStream 0 False)
      (demo_udp_state h3 [([2], 6)] [demo_udp_reader] 4 [?p1] w) = demo_udp_state h4 [] [demo_udp_reader] 4 [?p1, ?p2] w"
    using demo_udp_read [of "[2]" "[?p1]" w h3 6 "[]"] w by auto
  have "demo_udp_end = us_step demo_udp_config DatagramFrame
      (us_step demo_udp_config (LifecycleFrame [SEstablished (V4 1 1) 3]) (demo_udp_state h4 [] [demo_udp_reader] 4 [?p1, ?p2] w))"
    by (simp only: demo_udp_end_def demo_udp_events_def fold_simps s1 s2 s3 w_def [symmetric] s4 s5)
  then show "packets (triggered (us_world demo_udp_end)) = [?p1, ?p2]"
    "\<exists>ecs. conns (us_world demo_udp_end) 3 = Some ecs \<and> peer_addr ecs = V4 1 1"
    using demo_udp_frame [of w ecs ?p1 ?p2 h4 "[]" "[demo_udp_reader]"] ecs w by auto
qed

lemma demo_udp_setup:
  "sem_laws (uc_semaphore demo_udp_config) id"
  "listener_from_socket 1024 (uc_semaphore demo_udp_config) (0, []) (Inl (IoError Other '''')) (Inr (V4 0 9)) demo_udp_options
     = Inr demo_listener"
  "receive_queue_capacity demo_udp_options \<le> usize_max" "receive_queue_bytes demo_udp_options \<le> usize_max"
  "receive_capacity (uc_queues demo_udp_config) \<le> usize_max" "3 + length demo_udp_events \<le> usize_max"
  using demo_listener_opened
  by (simp_all add: demo_udp_config_def nat_semaphore_laws demo_udp_options_def
      default_udp_options_def default_queue_settings_def demo_udp_events_def usize_max_def)

section \<open>Properties\<close>

text \<open>
  (C2) Where a server's datagram packets come from, for any interleaving of arriving datagrams, accepted and
  dropped streams, reads, frames, closings and disconnections from a fresh listener on, as long as the
  process has not drawn all connection ids: every arrived datagram can be attributed to at most one
  connection, whose peer address is the datagram's source address, such that the packets observers
  have seen from a connection are decoded, within the receive limits, from datagrams attributed to it,
  in the order of arrival, each from a datagram of its own and with that datagram's receive time.
  Nothing is forged, duplicated, reordered or delivered to the wrong connection.
\<close>

theorem datagram_provenance:
  assumes "sem_laws (uc_semaphore C) avail" "listener_from_socket max_permits (uc_semaphore C) ts0 peer local o' = Inr w"
    and "receive_queue_capacity o' \<le> usize_max" "receive_queue_bytes o' \<le> usize_max"
    and "receive_capacity (uc_queues C) \<le> usize_max" and "counter + length evs \<le> usize_max"
    and "s = fold (us_step C) evs (us_init C w ts counter)"
  shows "\<exists>log. subseq (map snd log) (arrivals evs)
     \<and> (\<forall>c ecs x. conns (us_world s) c = Some ecs \<and> x \<in> set log \<and> fst x = Some c \<longrightarrow> fst (snd x) = peer_addr ecs)
     \<and> (\<forall>c. embeds (decoded C) (of_conn c (packets (triggered (us_world s)))) (datagrams_of c log))"
proof (rule us_attributed [OF assms])
  fix log assume log: "subseq (map snd log) (arrivals evs)"
    "\<And>c ecs x. conns (us_world s) c = Some ecs \<Longrightarrow> x \<in> set log \<Longrightarrow> fst x = Some c \<Longrightarrow> fst (snd x) = peer_addr ecs"
    "\<And>c. embeds (decoded C) (of_conn c (packets (triggered (us_world s)))) (datagrams_of c log)"
  show ?thesis by (intro exI [of _ log] conjI allI impI log(1,3)) (elim conjE, rule log(2))
qed

theorem datagram_provenance_witness:
  "\<exists>log. subseq (map snd log) [(V4 1 1, ([1], 5)), (V4 1 1, ([2], 6))]
     \<and> embeds (decoded demo_udp_config)
         [\<lparr>pe_connection = 3, pe_packet = [1], pe_received_at = 5\<rparr>, \<lparr>pe_connection = 3, pe_packet = [2], pe_received_at = 6\<rparr>]
         (datagrams_of 3 log)"
proof -
  obtain log where log: "subseq (map snd log) (arrivals demo_udp_events)"
    "\<forall>c. embeds (decoded demo_udp_config) (of_conn c (packets (triggered (us_world demo_udp_end)))) (datagrams_of c log)"
    using datagram_provenance [OF demo_udp_setup demo_udp_end_def] by blast
  show ?thesis
    using log(1) spec [OF log(2), of 3] unfolding demo_udp_run(1)
    by (intro exI [of _ log]) (simp add: arrivals_def demo_udp_events_def of_conn_def)
qed

text \<open>
  (C7) A client's conversation over UDP: if a client at a connection's peer address sent the packets \<open>ps\<close> with
  a stateless serializer and the network lost some of its datagrams but neither reordered nor duplicated
  them, then whatever the receive queues drop and however reads and frames are scheduled, the packets
  that the server's observers see from the connection are a subsequence of \<open>ps\<close>.
\<close>

theorem datagram_conversation:
  assumes "sem_laws (uc_semaphore C) avail" "listener_from_socket max_permits (uc_semaphore C) ts0 peer local o' = Inr w"
    and "receive_queue_capacity o' \<le> usize_max" "receive_queue_bytes o' \<le> usize_max"
    and "receive_capacity (uc_queues C) \<le> usize_max" and "counter + length evs \<le> usize_max"
    and "s = fold (us_step C) evs (us_init C w ts counter)" and "conns (us_world s) c = Some ecs"
    and "codec_sync Sc (uc_serializer C) (\<lambda>_ _. True)"
    and "embeds (\<lambda>d p. \<exists>z. fst (ser_serialize Sc p z) = Inr (fst d))
        (map snd (filter (\<lambda>x. fst x = peer_addr ecs) (arrivals evs))) ps"
  shows "subseq (map pe_packet (of_conn c (packets (triggered (us_world s))))) ps"
proof (rule us_attributed [OF assms(1-7)])
  fix log assume sub: "subseq (map snd log) (arrivals evs)"
    and addr: "\<And>c ecs x. conns (us_world s) c = Some ecs \<Longrightarrow> x \<in> set log \<Longrightarrow> fst x = Some c \<Longrightarrow> fst (snd x) = peer_addr ecs"
    and seen: "\<And>c. embeds (decoded C) (of_conn c (packets (triggered (us_world s)))) (datagrams_of c log)"
  have "embeds (decoded C) (of_conn c (packets (triggered (us_world s))))
      (map snd (filter (\<lambda>x. fst x = peer_addr ecs) (arrivals evs)))"
    by (rule embeds_compose [OF seen subseq_embeds [OF datagrams_of_address [OF sub addr [OF assms(8)]]]]) simp_all
  from embeds_compose [OF this assms(10) decoded_sent [OF assms(9)]]
  have "embeds (\<lambda>pe p. pe_packet pe = p) (of_conn c (packets (triggered (us_world s)))) ps" .
  then show ?thesis by (simp add: embeds_eq_iff [symmetric] embeds_map_left)
qed

theorem datagram_conversation_witness:
  "map pe_packet (of_conn 3 (packets (triggered (us_world demo_udp_end)))) = [[1], [2]]
   \<and> subseq (map pe_packet (of_conn 3 (packets (triggered (us_world demo_udp_end))))) [[1], [9], [2]]"
proof -
  obtain ecs where ecs: "conns (us_world demo_udp_end) 3 = Some ecs" "peer_addr ecs = V4 1 1" using demo_udp_run(2) by blast
  have sync: "codec_sync plain_codec (uc_serializer demo_udp_config) (\<lambda>_ _. True)"
    by (simp add: codec_sync_def plain_codec_def demo_udp_config_def)
  have "embeds (\<lambda>d p. \<exists>z. fst (ser_serialize plain_codec p z) = Inr (fst d))
      (map snd (filter (\<lambda>x. fst x = peer_addr ecs) (arrivals demo_udp_events))) [[1], [9], [2]]"
    by (simp add: ecs(2) arrivals_def demo_udp_events_def plain_codec_def embeds_match embeds_skip)
  from datagram_conversation [OF demo_udp_setup demo_udp_end_def ecs(1) sync this] show ?thesis
    by (simp add: demo_udp_run(1) of_conn_def)
qed

end
