(* ===== verification/Protocol_Traits.thy ===== *)
theory Protocol_Traits
  imports Tcp_Protocol Udp_Stream
begin

text \<open>
  The \<open>Protocol\<close> trait of \<^verbatim>\<open>src/src/protocols/protocol.rs\<close> and its two implementations: \<open>TcpProtocol\<close> of
  \<^verbatim>\<open>src/src/protocols/tcp.rs\<close> and \<open>ConfiguredUdpProtocol\<close> of \<^verbatim>\<open>src/src/protocols/udp/settings.rs\<close>. A protocol
  works in a world \<open>'w\<close> (for UDP the state of the cancellation tokens). The calls on the operating
  system's sockets are parameters.
\<close>

section \<open>The trait\<close>

record ('w, 'l, 'cs) Protocol =
  DATAGRAM :: bool
  proto_bind :: "SocketAddr \<Rightarrow> 'w \<Rightarrow> (io_error + 'l) \<times> 'w"
  proto_connect :: "SocketAddr \<Rightarrow> 'w \<Rightarrow> (io_error + 'cs) \<times> 'w"
  listener_address :: "'l \<Rightarrow> SocketAddr"
  stream_peer_addr :: "'cs \<Rightarrow> SocketAddr"
  stream_local_addr :: "'cs \<Rightarrow> SocketAddr"

definition connect_to_server :: "('w, 'l, 'cs) Protocol \<Rightarrow> SocketAddr \<Rightarrow> 'w \<Rightarrow> (io_error + 'cs) \<times> 'w" where
  "connect_to_server P addr w =
     (case proto_connect P addr w of
        (Inl e, w') \<Rightarrow> (Inl e, w')
      | (Inr st, w') \<Rightarrow> (Inr st, w'))"

section \<open>Implementations\<close>

definition TcpProtocol :: "('l, 's) tcp_net \<Rightarrow> ('w, 'l TcpNetworkListener, 's TcpNetworkStream) Protocol" where
  "TcpProtocol N =
     \<lparr>DATAGRAM = False, proto_bind = (\<lambda>addr w. (tcp_bind N addr, w)), proto_connect = (\<lambda>addr w. (tcp_connect N addr, w)),
      listener_address = address, stream_peer_addr = tcp_peer, stream_local_addr = tcp_local\<rparr>"

record 's udp_net =
  un_bind :: "SocketAddr \<Rightarrow> io_error + 's"
  un_connect :: "SocketAddr \<Rightarrow> 's \<Rightarrow> io_error + 's"
  un_peer_addr :: "'s \<Rightarrow> io_error + SocketAddr"
  un_local_addr :: "'s \<Rightarrow> io_error + SocketAddr"

definition udp_client_connect ::
  "('k, 'ts) tokens \<Rightarrow> usize \<Rightarrow> 's udp_net \<Rightarrow> UdpOptions \<Rightarrow> SocketAddr \<Rightarrow> 'ts \<Rightarrow> (io_error + 'k UdpClientStream) \<times> 'ts"
where
  "udp_client_connect T max_permits N OPTIONS addr ts =
     connect_with_options T max_permits (un_bind N) (un_connect N) (un_peer_addr N) (un_local_addr N) addr OPTIONS ts"

definition ConfiguredUdpProtocol ::
  "('k, 'ts) tokens \<Rightarrow> usize \<Rightarrow> 'sm semaphore \<Rightarrow> 's udp_net \<Rightarrow> UdpOptions
     \<Rightarrow> ('ts, ('k, 'ts, 'sm) UdpNetworkListener, 'k UdpClientStream) Protocol"
where
  "ConfiguredUdpProtocol T max_permits Sm N OPTIONS =
     \<lparr>DATAGRAM = True,
      proto_bind = (\<lambda>addr ts.
        (listener_bind max_permits Sm ts (map_sum id (\<lambda>s. (un_peer_addr N s, un_local_addr N s)) (un_bind N addr)) OPTIONS, ts)),
      proto_connect = udp_client_connect T max_permits N OPTIONS,
      listener_address = listener_addr, stream_peer_addr = cl_peer_addr, stream_local_addr = cl_local_addr\<rparr>"

definition UdpProtocol ::
  "('k, 'ts) tokens \<Rightarrow> usize \<Rightarrow> 'sm semaphore \<Rightarrow> 's udp_net
     \<Rightarrow> ('ts, ('k, 'ts, 'sm) UdpNetworkListener, 'k UdpClientStream) Protocol"
where
  "UdpProtocol T max_permits Sm N = ConfiguredUdpProtocol T max_permits Sm N default_udp_options"

section \<open>Contract\<close>

text \<open>
  What endpoints rely on: a listener and a stream come from sockets that the system has bound or
  connected, and report the addresses of these sockets.
\<close>

locale protocol_contract =
  fixes P :: "('w, 'l, 'cs) Protocol"
    and bind_call :: "SocketAddr \<Rightarrow> io_error + 'bs" and bound_local :: "'bs \<Rightarrow> io_error + SocketAddr"
    and connect_call :: "SocketAddr \<Rightarrow> io_error + 's" and peer_of local_of :: "'s \<Rightarrow> io_error + SocketAddr"
  assumes bound: "proto_bind P addr w = (Inr l, w') \<Longrightarrow>
      \<exists>s. bind_call addr = Inr s \<and> bound_local s = Inr (listener_address P l)"
    and connected: "proto_connect P addr w = (Inr st, w') \<Longrightarrow>
      \<exists>s. connect_call addr = Inr s \<and> peer_of s = Inr (stream_peer_addr P st) \<and> local_of s = Inr (stream_local_addr P st)"
begin

lemma connect_peer:
  assumes "connect_to_server P addr w = (Inr st, w')" "\<And>s. connect_call addr = Inr s \<Longrightarrow> peer_of s = Inr addr"
  shows "stream_peer_addr P st = addr"
  using connected [of addr w st w'] assms by (auto simp: connect_to_server_def split: prod.splits sum.splits)

lemma bind_port:
  assumes "proto_bind P addr w = (Inr l, w')" "\<And>s. bind_call addr = Inr s \<Longrightarrow> \<exists>a. bound_local s = Inr a \<and> ok a"
  shows "ok (listener_address P l)"
  using bound [OF assms(1)] assms(2) by force

end

interpretation tcp_protocol: protocol_contract "TcpProtocol N" "tn_bind N" "tn_listener_addr N" "tn_connect N" "tn_peer_addr N" "tn_local_addr N"
  by unfold_locales
    (auto simp: TcpProtocol_def tcp_bind_def from_listener_def tcp_connect_def from_stream_def split: sum.splits)

abbreviation udp_connect_call :: "'s udp_net \<Rightarrow> SocketAddr \<Rightarrow> io_error + 's" where
  "udp_connect_call N addr \<equiv> (case un_bind N (unspecified_for addr) of Inl e \<Rightarrow> Inl e | Inr s \<Rightarrow> un_connect N addr s)"

interpretation udp_protocol: protocol_contract "ConfiguredUdpProtocol T max_permits Sm N OPTIONS" "un_bind N" "un_local_addr N"
    "udp_connect_call N" "un_peer_addr N" "un_local_addr N"
proof (unfold_locales, goal_cases)
  case (1 addr w l w')
  then show ?case
    by (cases "un_bind N addr")
      (auto simp: ConfiguredUdpProtocol_def listener_bind_def listener_from_socket_def split: sum.splits if_splits)
next
  case (2 addr w st w')
  then show ?case
    by (auto simp: ConfiguredUdpProtocol_def udp_client_connect_def connect_with_options_def client_from_socket_def split: sum.splits prod.splits)
qed

section \<open>Properties\<close>

fun host :: "SocketAddr \<Rightarrow> 32 word + 128 word" where
  "host (V4 a p) = Inl a"
| "host (V6 a p f s) = Inr a"

text \<open>Documented behaviour of sockets: they are connected to the address asked for, and bound on its host.\<close>

definition tcp_net_laws :: "('l, 's) tcp_net \<Rightarrow> bool" where
  "tcp_net_laws N \<longleftrightarrow>
     (\<forall>a s. tn_connect N a = Inr s \<longrightarrow> tn_peer_addr N s = Inr a)
     \<and> (\<forall>a s. tn_bind N a = Inr s \<longrightarrow> (\<exists>b. tn_listener_addr N s = Inr b \<and> host b = host a))"

definition udp_net_laws :: "'s udp_net \<Rightarrow> bool" where
  "udp_net_laws N \<longleftrightarrow>
     (\<forall>a s s'. un_connect N a s = Inr s' \<longrightarrow> un_peer_addr N s' = Inr a)
     \<and> (\<forall>a s. un_bind N a = Inr s \<longrightarrow> (\<exists>b. un_local_addr N s = Inr b \<and> host b = host a))"

lemma protocol_views [simp]:
  "stream_peer_addr (TcpProtocol N) = tcp_peer" "listener_address (TcpProtocol N) = address"
  "stream_peer_addr (ConfiguredUdpProtocol T max_permits Sm U O') = cl_peer_addr"
  "listener_address (ConfiguredUdpProtocol T max_permits Sm U O') = listener_addr"
  by (simp_all add: TcpProtocol_def ConfiguredUdpProtocol_def)

text \<open>
  (C31) Both protocols keep the contract endpoints rely on. Where the system connects a socket to the
  address it is asked for and binds one to the host it is asked for, a stream returned by
  \<open>connect_to_server\<close> has the requested address as its peer and a listener reports an address of the
  requested host. UDP options that are invalid are refused by both ends with \<open>InvalidInput\<close>, whatever the
  sockets would have done, and with no effect; the default options are valid as long as the
  semaphore allows their number of peers. Only UDP is a datagram protocol.
\<close>

theorem protocols_keep_contract:
  assumes "tcp_net_laws N" "udp_net_laws U"
  shows "(case connect_to_server (TcpProtocol N) addr w of (Inr st, _) \<Rightarrow> tcp_peer st = addr | _ \<Rightarrow> True)
     \<and> (case proto_bind (TcpProtocol N) addr w of (Inr l, _) \<Rightarrow> host (address l) = host addr | _ \<Rightarrow> True)
     \<and> (case connect_to_server (ConfiguredUdpProtocol T max_permits Sm U O') addr ts of
          (Inr st, _) \<Rightarrow> cl_peer_addr st = addr | _ \<Rightarrow> True)
     \<and> (case proto_bind (ConfiguredUdpProtocol T max_permits Sm U O') addr ts of
          (Inr l, _) \<Rightarrow> host (listener_addr l) = host addr | _ \<Rightarrow> True)
     \<and> (MAX_DATAGRAM_SIZE < max_datagram_size O' \<or> max_permits < max_peers O' \<longrightarrow>
          (\<exists>e. kind e = InvalidInput \<and> connect_to_server (ConfiguredUdpProtocol T max_permits Sm U O') addr ts = (Inl e, ts)
             \<and> proto_bind (ConfiguredUdpProtocol T max_permits Sm U O') addr ts = (Inl e, ts)))
     \<and> (1024 \<le> max_permits \<longrightarrow> result_ok (validated_new max_permits default_udp_options))
     \<and> \<not> DATAGRAM (TcpProtocol N) \<and> DATAGRAM (UdpProtocol T max_permits Sm U)"
proof (intro conjI impI)
  let ?U = "ConfiguredUdpProtocol T max_permits Sm U O'"
  show "case connect_to_server (TcpProtocol N) addr w of (Inr st, _) \<Rightarrow> tcp_peer st = addr | _ \<Rightarrow> True"
    using tcp_protocol.connect_peer [of N addr w] assms(1) by (auto simp: tcp_net_laws_def split: prod.split sum.split)
  show "case proto_bind (TcpProtocol N) addr w of (Inr l, _) \<Rightarrow> host (address l) = host addr | _ \<Rightarrow> True"
    using tcp_protocol.bind_port [of N addr w _ _ "\<lambda>a. host a = host addr"] assms(1)
    by (auto simp: tcp_net_laws_def split: prod.split sum.split)
  have peer: "un_peer_addr U s = Inr addr" if "udp_connect_call U addr = Inr s" for s
    using that assms(2) by (auto simp: udp_net_laws_def split: sum.splits)
  show "case connect_to_server ?U addr ts of (Inr st, _) \<Rightarrow> cl_peer_addr st = addr | _ \<Rightarrow> True"
    using udp_protocol.connect_peer [OF _ peer, of T max_permits Sm O' ts] by (auto split: prod.split sum.split)
  show "case proto_bind ?U addr ts of (Inr l, _) \<Rightarrow> host (listener_addr l) = host addr | _ \<Rightarrow> True"
    using udp_protocol.bind_port [of T max_permits Sm U O' addr ts _ _ "\<lambda>a. host a = host addr"] assms(2)
    by (auto simp: udp_net_laws_def split: prod.split sum.split)
  show "\<exists>e. kind e = InvalidInput \<and> connect_to_server ?U addr ts = (Inl e, ts) \<and> proto_bind ?U addr ts = (Inl e, ts)"
    if "MAX_DATAGRAM_SIZE < max_datagram_size O' \<or> max_permits < max_peers O'"
    using that by (intro exI [of _ "IoError InvalidInput ''invalid UDP transport settings''"])
      (auto simp: connect_to_server_def ConfiguredUdpProtocol_def listener_bind_def udp_client_connect_def connect_with_options_def validated_new_def
        max_payload_size_def)
qed (simp_all add: validated_new_def max_payload_size_def default_udp_options_def MAX_DATAGRAM_SIZE_def TcpProtocol_def
      UdpProtocol_def ConfiguredUdpProtocol_def)

definition demo_tcp_net :: "(SocketAddr, SocketAddr) tcp_net" where
  "demo_tcp_net =
     \<lparr>tn_bind = Inr, tn_listener_addr = Inr, tn_accept = (\<lambda>_. Inl (IoError Other '''')), tn_connect = Inr,
      tn_set_nodelay = (\<lambda>_. Inr), tn_peer_addr = Inr, tn_local_addr = Inr\<rparr>"

text \<open>A socket that is bound and, once connected, has a peer.\<close>

definition demo_udp_net :: "(SocketAddr \<times> SocketAddr option) udp_net" where
  "demo_udp_net =
     \<lparr>un_bind = (\<lambda>a. Inr (a, None)), un_connect = (\<lambda>a s. Inr (fst s, Some a)),
      un_peer_addr = (\<lambda>s. case snd s of None \<Rightarrow> Inl (IoError Other '''') | Some a \<Rightarrow> Inr a), un_local_addr = (\<lambda>s. Inr (fst s))\<rparr>"

theorem protocols_keep_contract_witness:
  "\<exists>st ts. connect_to_server (UdpProtocol demo_tokens 2048 nat_semaphore demo_udp_net) (V4 7 9) (0, []) = (Inr st, ts)
     \<and> cl_peer_addr st = V4 7 9"
proof -
  have t: "tcp_net_laws demo_tcp_net" by (simp add: tcp_net_laws_def demo_tcp_net_def)
  have u: "udp_net_laws demo_udp_net" by (auto simp: udp_net_laws_def demo_udp_net_def)
  let ?U = "ConfiguredUdpProtocol demo_tokens 2048 nat_semaphore demo_udp_net default_udp_options"
  have c: "\<exists>st ts. connect_to_server ?U (V4 7 9) (0, []) = (Inr st, ts)"
    by (simp add: connect_to_server_def ConfiguredUdpProtocol_def udp_client_connect_def connect_with_options_def validated_new_def max_payload_size_def
        default_udp_options_def MAX_DATAGRAM_SIZE_def demo_udp_net_def client_from_socket_def peer_state_new_def demo_tokens_def)
  have "case connect_to_server ?U (V4 7 9) (0, []) of (Inr st, _) \<Rightarrow> cl_peer_addr st = V4 7 9 | _ \<Rightarrow> True"
    by (rule conjunct1 [OF conjunct2 [OF conjunct2 [OF protocols_keep_contract [OF t u, where w = "()"]]]])
  then show ?thesis using c by (auto simp: UdpProtocol_def)
qed

end
