(* ===== verification/Net_Runtime.thy ===== *)
theory Net_Runtime
  imports Ecs_Connection Udp_Settings
begin

text \<open>
  The executor shared by the endpoints of one app: \<^verbatim>\<open>src/src/runtime/mod.rs\<close> and \<^verbatim>\<open>task.rs\<close>. The tokio
  runtime, its worker threads and \<open>TaskTracker\<close> are not code of the crate: the outcome of building a
  runtime or a thread is an argument, and the tracker is the list of tasks that have not finished
  with its \<open>close\<close> flag; those that run on the local thread's \<open>LocalSet\<close> are apart, since dropping the set drops them. A task is the state \<open>'f\<close> of its future; polling a future is a parameter \<open>pl\<close>
  that finishes, waits with a new state, or panics. \<open>Inner\<close> is shared by reference counting, so it is
  a state of its own beside the \<open>NetworkRuntime\<close> resource that may have let go of it.
\<close>

section \<open>State\<close>

datatype NetworkRuntimeMode = Owned (worker_threads: usize) | External (multi_thread: bool)

record NetworkRuntimeSettings =
  mode :: NetworkRuntimeMode
  shutdown_timeout :: nat

definition default_runtime_settings :: NetworkRuntimeSettings where
  "default_runtime_settings = \<lparr>mode = Owned 2, shutdown_timeout = 1000000000\<rparr>"

record ('k, 'f) Inner =
  stop :: 'k
  tasks :: "'f list"
  local_tasks :: "'f list"
  tracker_closed :: bool
  local_commands :: "'f list"
  local_open :: bool

record NetworkRuntime =
  has_inner :: bool
  has_thread :: bool
  has_done :: bool
  rt_timeout :: nat

definition unavailable :: "nat \<Rightarrow> NetworkRuntime" where
  "unavailable timeout = \<lparr>has_inner = False, has_thread = False, has_done = False, rt_timeout = timeout\<rparr>"

text \<open>
  \<open>NetworkRuntime::new\<close>: \<open>built\<close> is the outcome of building the owned tokio runtime, \<open>thread\<close> that of
  spawning the local thread.
\<close>

definition runtime_new ::
  "('k, 'ts) tokens \<Rightarrow> bool \<Rightarrow> bool \<Rightarrow> NetworkRuntimeSettings \<Rightarrow> 'ts
     \<Rightarrow> NetworkRuntime \<times> ('k, 'f) Inner option \<times> 'ts"
where
  "runtime_new T built thread settings ts =
     (let ok = (case mode settings of Owned _ \<Rightarrow> built | External multi \<Rightarrow> multi) in
      if \<not> ok then (unavailable (shutdown_timeout settings), None, ts)
      else case tok_new T ts of
        (k, ts') \<Rightarrow>
          if \<not> thread then (unavailable (shutdown_timeout settings), None, ts')
          else (\<lparr>has_inner = True, has_thread = True, has_done = True, rt_timeout = shutdown_timeout settings\<rparr>,
                Some \<lparr>stop = k, tasks = [], local_tasks = [], tracker_closed = False, local_commands = [], local_open = True\<rparr>, ts'))"

definition is_available :: "('k, 'ts) tokens \<Rightarrow> NetworkRuntime \<Rightarrow> ('k, 'f) Inner \<Rightarrow> 'ts \<Rightarrow> bool" where
  "is_available T rt i ts \<longleftrightarrow> has_inner rt \<and> \<not> tok_is_cancelled T ts (stop i) \<and> local_open i"

section \<open>Tasks\<close>

datatype 'f future_poll = FDone | FWaiting 'f | FPanicked

text \<open>
  \<open>until_cancelled\<close> inside \<open>run_task\<close>: the token is looked at first; a panic is caught, so the task ends
  like one that returned. \<open>None\<close> is a finished task, whose future is dropped.
\<close>

definition until_cancelled :: "bool \<Rightarrow> ('f \<Rightarrow> 'f future_poll) \<Rightarrow> 'f \<Rightarrow> 'f future_poll" where
  "until_cancelled cancelled pl f = (if cancelled then FDone else pl f)"

definition run_task :: "bool \<Rightarrow> ('f \<Rightarrow> 'f future_poll) \<Rightarrow> 'f \<Rightarrow> 'f option" where
  "run_task cancelled pl f =
     (case until_cancelled cancelled pl f of FDone \<Rightarrow> None | FWaiting f' \<Rightarrow> Some f' | FPanicked \<Rightarrow> None)"

definition spawn_on :: "('k, 'ts) tokens \<Rightarrow> 'f \<Rightarrow> 'ts \<Rightarrow> ('k, 'f) Inner \<Rightarrow> ('k, 'f) Inner" where
  "spawn_on T f ts i = (if tok_is_cancelled T ts (stop i) then i else i\<lparr>tasks := tasks i @ [f]\<rparr>)"

definition runtime_spawn ::
  "('k, 'ts) tokens \<Rightarrow> NetworkRuntime \<Rightarrow> 'f \<Rightarrow> 'ts \<Rightarrow> ('k, 'f) Inner \<Rightarrow> ('k, 'f) Inner"
where
  "runtime_spawn T rt f ts i = (if has_inner rt then spawn_on T f ts i else i)"

definition spawn_local :: "NetworkRuntime \<Rightarrow> 'f \<Rightarrow> ('k, 'f) Inner \<Rightarrow> ('k, 'f) Inner" where
  "spawn_local rt f i =
     (if has_inner rt \<and> local_open i then i\<lparr>local_commands := local_commands i @ [f]\<rparr> else i)"

text \<open>\<open>connection_token\<close>: a child of the stop token inside a network task, a root token elsewhere.\<close>

definition connection_token :: "('k, 'ts) tokens \<Rightarrow> ('k, 'f) Inner option \<Rightarrow> 'ts \<Rightarrow> 'k \<times> 'ts" where
  "connection_token T current ts = (case current of Some i \<Rightarrow> tok_child T (stop i) ts | None \<Rightarrow> tok_new T ts)"

section \<open>The local thread\<close>

text \<open>A poll of task number \<open>n\<close> by the worker pool or by the local thread.\<close>

definition poll_nth :: "bool \<Rightarrow> ('f \<Rightarrow> 'f future_poll) \<Rightarrow> nat \<Rightarrow> 'f list \<Rightarrow> 'f list" where
  "poll_nth cancelled pl n fs =
     (if n < length fs
      then (case run_task cancelled pl (fs ! n) of None \<Rightarrow> take n fs @ drop (Suc n) fs | Some f \<Rightarrow> fs[n := f])
      else fs)"

definition poll_task ::
  "('k, 'ts) tokens \<Rightarrow> ('f \<Rightarrow> 'f future_poll) \<Rightarrow> nat \<Rightarrow> 'ts \<Rightarrow> ('k, 'f) Inner \<Rightarrow> ('k, 'f) Inner"
where
  "poll_task T pl n ts i = i\<lparr>tasks := poll_nth (tok_is_cancelled T ts (stop i)) pl n (tasks i)\<rparr>"

definition poll_local_task ::
  "('k, 'ts) tokens \<Rightarrow> ('f \<Rightarrow> 'f future_poll) \<Rightarrow> nat \<Rightarrow> 'ts \<Rightarrow> ('k, 'f) Inner \<Rightarrow> ('k, 'f) Inner"
where
  "poll_local_task T pl n ts i = i\<lparr>local_tasks := poll_nth (tok_is_cancelled T ts (stop i)) pl n (local_tasks i)\<rparr>"

text \<open>\<open>TaskTracker::wait\<close> is ready once the tracker is closed and no task is left.\<close>

definition tracker_ready :: "('k, 'f) Inner \<Rightarrow> bool" where
  "tracker_ready i \<longleftrightarrow> tracker_closed i \<and> tasks i = [] \<and> local_tasks i = []"

text \<open>The command branch of the local thread's \<open>select!\<close>.\<close>

definition local_command :: "('k, 'f) Inner \<Rightarrow> ('k, 'f) Inner" where
  "local_command i =
     (case local_commands i of
        [] \<Rightarrow> i
      | f # fs \<Rightarrow> i\<lparr>local_commands := fs, local_tasks := local_tasks i @ [f]\<rparr>)"

text \<open>
  Leaving the loop: the stop token is cancelled, the tracker closed, and the local tasks and the
  queued factories are dropped with the local set and the channel.
\<close>

definition local_finish ::
  "('k, 'ts) tokens \<Rightarrow> ('k, 'f) Inner \<Rightarrow> 'ts \<Rightarrow> ('k, 'f) Inner \<times> 'ts"
where
  "local_finish T i ts =
     (i\<lparr>tracker_closed := True, local_tasks := [], local_commands := [], local_open := False\<rparr>, tok_cancel T (stop i) ts)"

text \<open>
  \<open>wait_for_tasks\<close> over what its iterations see: whether the tracker's wait is ready, and the time
  elapsed when it is not. \<open>None\<close> is a thread that is still parked.
\<close>

fun wait_for_tasks :: "nat \<Rightarrow> (bool \<times> nat) list \<Rightarrow> bool option" where
  "wait_for_tasks timeout [] = None"
| "wait_for_tasks timeout ((ready, elapsed) # polls) =
     (if ready then Some True
      else (let remaining = timeout - elapsed in
            if remaining = 0 then Some False else wait_for_tasks timeout polls))"

section \<open>Shutdown\<close>

datatype done_result = DoneReceived | DoneTimeout | DoneDisconnected

text \<open>
  \<open>shutdown\<close>: what the resource lets go of, and whether the thread is joined, by the outcome of
  waiting for it and whether it has finished.
\<close>

definition shutdown ::
  "('k, 'ts) tokens \<Rightarrow> done_result \<Rightarrow> bool \<Rightarrow> NetworkRuntime \<Rightarrow> ('k, 'f) Inner \<Rightarrow> 'ts
     \<Rightarrow> bool \<times> NetworkRuntime \<times> ('k, 'f) Inner \<times> 'ts"
where
  "shutdown T result finished rt i ts =
     (let (i', ts') = (if has_inner rt then (i\<lparr>tracker_closed := True\<rparr>, tok_cancel T (stop i) ts) else (i, ts));
          rt1 = rt\<lparr>has_inner := False\<rparr>
      in if has_done rt1
         then (has_thread rt1 \<and> (result \<noteq> DoneTimeout \<or> finished),
               rt1\<lparr>has_done := False, has_thread := False\<rparr>, i', ts')
         else (False, rt1, i', ts'))"

text \<open>\<open>stop_on_exit\<close>: shut down once an exit message is there and the resource exists.\<close>

definition stop_on_exit ::
  "('k, 'ts) tokens \<Rightarrow> done_result \<Rightarrow> bool \<Rightarrow> bool \<Rightarrow> NetworkRuntime option \<Rightarrow> ('k, 'f) Inner \<Rightarrow> 'ts
     \<Rightarrow> NetworkRuntime option \<times> ('k, 'f) Inner \<times> 'ts"
where
  "stop_on_exit T result finished exiting rt i ts =
     (case rt of
        Some r \<Rightarrow>
          if exiting then (case shutdown T result finished r i ts of (_, r', i', ts') \<Rightarrow> (Some r', i', ts'))
          else (rt, i, ts)
      | None \<Rightarrow> (rt, i, ts))"

section \<open>Token families\<close>

text \<open>
  Documented behaviour of child tokens: \<open>desc p k\<close> says that \<open>k\<close> was created below \<open>p\<close>; cancelling \<open>p\<close>
  cancels it.
\<close>

definition child_laws :: "('k, 'ts) tokens \<Rightarrow> ('k \<Rightarrow> 'k \<Rightarrow> bool) \<Rightarrow> bool" where
  "child_laws T desc \<longleftrightarrow>
     (\<forall>p ts k ts'. tok_child T p ts = (k, ts') \<longrightarrow> desc p k) \<and>
     (\<forall>p k ts. desc p k \<longrightarrow> tok_is_cancelled T (tok_cancel T p ts) k)"

definition demo_desc :: "demo_token \<Rightarrow> demo_token \<Rightarrow> bool" where
  "demo_desc p k \<longleftrightarrow> fst p = fst k \<and> prefix (snd p) (snd k)"

lemma demo_child_laws: "child_laws demo_tokens demo_desc"
  by (auto simp: child_laws_def demo_tokens_def demo_desc_def)

section \<open>Properties\<close>

lemma wait_for_tasks_bounded:
  assumes "\<exists>x \<in> set polls. fst x \<or> timeout \<le> snd x"
  shows "\<exists>b. wait_for_tasks timeout polls = Some b \<and> (b \<longrightarrow> (\<exists>x \<in> set polls. fst x))"
  using assms by (induction timeout polls rule: wait_for_tasks.induct) (auto simp: Let_def)

lemma poll_task_frame [simp]:
  "stop (poll_task T pl n ts i) = stop i" "local_tasks (poll_task T pl n ts i) = local_tasks i"
  "tracker_closed (poll_task T pl n ts i) = tracker_closed i"
  by (simp_all add: poll_task_def)

lemma poll_cancelled:
  "tok_is_cancelled T ts (stop i) \<Longrightarrow> tasks (poll_task T pl 0 ts i) = tl (tasks i)"
  by (cases "tasks i") (simp_all add: poll_task_def poll_nth_def run_task_def until_cancelled_def)

lemma poll_all_cancelled:
  assumes "tok_is_cancelled T ts (stop i)" "tracker_closed i" "local_tasks i = []"
  shows "tracker_ready ((poll_task T pl 0 ts ^^ length (tasks i)) i)"
  using assms
proof (induction "length (tasks i)" arbitrary: i)
  case 0
  then show ?case by (simp add: tracker_ready_def)
next
  case (Suc n)
  let ?i = "poll_task T pl 0 ts i"
  have "length (tasks ?i) = n" using poll_cancelled [OF Suc.prems(1)] Suc.hyps(2) by simp
  then show ?case
    using Suc.hyps(1) [of ?i] Suc.prems unfolding Suc.hyps(2) [symmetric] by (simp add: funpow_swap1)
qed

text \<open>
  (C17) Shutdown reaches everything the app started. After \<open>shutdown\<close> of a running runtime: it is
  unavailable and spawns nothing more; the token of every connection created inside a network task,
  at whatever time before, is cancelled, so that sends on it are refused; when the local thread has
  left its loop, every remaining task, whatever its future does, ends at its next poll without that
  future being polled, so that polling each once makes the tracker ready; the wait for it returns,
  by then or at the timeout; and a second shutdown changes nothing.
\<close>

theorem shutdown_reaches_all:
  assumes "token_laws T" "child_laws T desc" and "has_inner rt"
    and "connection_token T (Some i0) ts0 = (disconnect_task conn, ts1)" "stop i0 = stop i"
    and "shutdown T result finished rt i ts = (joined, rt', i', ts')"
    and "local_finish T i' ts' = (i'', ts'')"
  shows "\<not> is_available T rt' i' ts' \<and> runtime_spawn T rt' f ts' i' = i' \<and> spawn_on T f ts' i' = i'
     \<and> spawn_local rt' f i' = i'
     \<and> ecs_is_closed M T conn ts' \<and> ecs_send M T rd p conn ts' = (Inl (SendClosed p), conn)
     \<and> tracker_ready ((poll_task T pl 0 ts'' ^^ length (tasks i'')) i'')
     \<and> ((\<exists>x \<in> set polls. fst x \<or> timeout \<le> snd x) \<longrightarrow> (\<exists>b. wait_for_tasks timeout polls = Some b))
     \<and> shutdown T result' finished' rt' i' ts' = (False, rt', i', ts')"
proof -
  have i': "i' = i\<lparr>tracker_closed := True\<rparr>" "ts' = tok_cancel T (stop i) ts" "\<not> has_inner rt'" "\<not> has_done rt'"
    using assms(3,6) by (auto simp: shutdown_def Let_def split: if_splits)
  have c: "tok_is_cancelled T ts' (stop i')"
    using assms(1) by (simp add: i' token_laws_def)
  have "desc (stop i) (disconnect_task conn)"
    using assms(2,4,5) by (auto simp: child_laws_def connection_token_def)
  then have d: "tok_is_cancelled T ts' (disconnect_task conn)"
    using assms(2) by (simp add: child_laws_def i'(2))
  have "tok_is_cancelled T ts'' (stop i'')" "tracker_closed i''" "local_tasks i'' = []"
    using assms(1,7) by (auto simp: local_finish_def token_laws_def)
  note ready = poll_all_cancelled [OF this, of pl]
  show ?thesis
    using c d i'(3,4) ready wait_for_tasks_bounded [of polls timeout]
    by (auto simp: is_available_def runtime_spawn_def spawn_on_def spawn_local_def ecs_is_closed_def ecs_send_def
        shutdown_def)
qed

definition demo_inner :: "(demo_token, nat) Inner" where
  "demo_inner = \<lparr>stop = (1, []), tasks = [4, 5], local_tasks = [6], tracker_closed = False, local_commands = [7],
     local_open = True\<rparr>"

theorem shutdown_reaches_all_witness:
  "\<exists>rt i ts. shutdown demo_tokens DoneReceived True
       \<lparr>has_inner = True, has_thread = True, has_done = True, rt_timeout = 9\<rparr> demo_inner (9, []) = (True, rt, i, ts)
     \<and> \<not> is_available demo_tokens rt i ts
     \<and> ecs_is_closed list_mpsc demo_tokens (demo_conn\<lparr>disconnect_task := (1, [6])\<rparr>) ts
     \<and> tracker_ready ((poll_task demo_tokens FWaiting 0 (snd (local_finish demo_tokens i ts)) ^^ 2)
         (fst (local_finish demo_tokens i ts)))"
proof -
  let ?rt = "\<lparr>has_inner = True, has_thread = True, has_done = True, rt_timeout = 9\<rparr>"
  let ?rt' = "\<lparr>has_inner = False, has_thread = False, has_done = False, rt_timeout = 9\<rparr>"
  let ?i = "demo_inner\<lparr>tracker_closed := True\<rparr>"
  let ?ts = "(9, [(1, [])]) :: nat \<times> demo_token list"
  let ?conn = "demo_conn\<lparr>disconnect_task := (1, [6])\<rparr>"
  have h: "has_inner ?rt" by simp
  have k: "connection_token demo_tokens (Some demo_inner) (5, []) = (disconnect_task ?conn, (6, []))"
    by (simp add: connection_token_def demo_inner_def demo_tokens_def demo_fresh_def)
  have s: "shutdown demo_tokens DoneReceived True ?rt demo_inner (9, []) = (True, ?rt', ?i, ?ts)"
    by (simp add: shutdown_def demo_tokens_def demo_inner_def)
  have n: "length (tasks (fst (local_finish demo_tokens ?i ?ts))) = 2"
    by (simp add: local_finish_def demo_inner_def)
  note all = shutdown_reaches_all [OF demo_tokens_laws demo_child_laws h k refl s
      prod.collapse [symmetric, of "local_finish demo_tokens ?i ?ts"],
      where f = 0 and M = list_mpsc and rd = record_drop and p = "CHR ''x''" and pl = FWaiting and polls = "[]"
        and timeout = 0 and result' = DoneTimeout and finished' = False]
  show ?thesis
    using all s unfolding n by blast
qed

end
