(* ===== verification/Runtime_Thread.thy ===== *)
theory Runtime_Thread
  imports Net_Runtime
begin

text \<open>
  The runtime of \<^verbatim>\<open>src/src/runtime/mod.rs\<close> as the threads that share it: the app, which spawns tasks and
  finally shuts the runtime down; the worker pool, which polls tasks; and the local thread started by
  \<open>NetworkRuntime::new\<close>, which runs local tasks until it is stopped, then waits for all tasks and shuts
  an owned tokio runtime down. Each event is one step of one of them, and the clock advances between
  steps. Calls on the owned tokio runtime, which is not code of the crate, are recorded.
\<close>

section \<open>State\<close>

datatype tokio_shutdown = ShutdownBackground | ShutdownTimeout nat

text \<open>
  Where the local thread is: in its loop; past it, with the instant \<open>started\<close> taken; in
  \<open>wait_for_tasks\<close>, with the instant taken there; or at its end, with the outcome of that wait.
\<close>

datatype thread_pc =
    InLoop
  | LeftLoop instant
  | WaitingForTasks instant instant
  | Finished instant instant bool

datatype app_pc = AppRunning | AppWaiting instant | AppStopped bool

record ('k, 'f, 'ts) runtime_system =
  rs_resource :: NetworkRuntime
  rs_inner :: "('k, 'f) Inner"
  rs_tokens :: 'ts
  rs_timeout :: nat
  rs_owned :: bool
  rs_thread :: thread_pc
  rs_app :: app_pc
  rs_done :: bool
  rs_clock :: instant
  rs_shutdowns :: "tokio_shutdown list"

text \<open>\<open>OwnedRuntime::drop\<close>: a runtime that nobody has taken is shut down without blocking.\<close>

definition owned_drop :: "bool \<Rightarrow> tokio_shutdown list" where
  "owned_drop owned = (if owned then [ShutdownBackground] else [])"

text \<open>
  \<open>NetworkRuntime::new\<close> with what it starts: a runtime that is unavailable with the calls its failure
  leaves, or the running system.
\<close>

definition runtime_launch ::
  "('k, 'ts) tokens \<Rightarrow> bool \<Rightarrow> bool \<Rightarrow> NetworkRuntimeSettings \<Rightarrow> instant \<Rightarrow> 'ts
     \<Rightarrow> NetworkRuntime \<times> tokio_shutdown list + ('k, 'f, 'ts) runtime_system"
where
  "runtime_launch T built thread settings now ts =
     (let owned = (case mode settings of Owned _ \<Rightarrow> built | External _ \<Rightarrow> False) in
      case runtime_new T built thread settings ts of
        (rt, None, ts') \<Rightarrow> Inl (rt, owned_drop owned)
      | (rt, Some i, ts') \<Rightarrow>
          Inr \<lparr>rs_resource = rt, rs_inner = i, rs_tokens = ts', rs_timeout = shutdown_timeout settings, rs_owned = owned,
               rs_thread = InLoop, rs_app = AppRunning, rs_done = False, rs_clock = now, rs_shutdowns = []\<rparr>)"

text \<open>\<open>initialize\<close> puts the resource into the world.\<close>

definition initialize ::
  "('k, 'ts) tokens \<Rightarrow> bool \<Rightarrow> bool \<Rightarrow> NetworkRuntimeSettings \<Rightarrow> instant \<Rightarrow> 'ts
     \<Rightarrow> NetworkRuntime \<times> (tokio_shutdown list + ('k, 'f, 'ts) runtime_system)"
where
  "initialize T built thread settings now ts =
     (case runtime_launch T built thread settings now ts of
        Inl (rt, calls) \<Rightarrow> (rt, Inl calls)
      | Inr s \<Rightarrow> (rs_resource s, Inr s))"

section \<open>The local thread\<close>

definition leave_loop :: "('k, 'ts) tokens \<Rightarrow> ('k, 'f, 'ts) runtime_system \<Rightarrow> ('k, 'f, 'ts) runtime_system" where
  "leave_loop T s =
     (case local_finish T (rs_inner s) (rs_tokens s) of
        (i, ts) \<Rightarrow> s\<lparr>rs_inner := i, rs_tokens := ts, rs_thread := LeftLoop (rs_clock s)\<rparr>)"

text \<open>After the wait: the owned runtime is taken and shut down with the time that is left, then \<open>done\<close> is sent.\<close>

definition thread_end ::
  "instant \<Rightarrow> bool \<Rightarrow> ('k, 'f, 'ts) runtime_system \<Rightarrow> ('k, 'f, 'ts) runtime_system"
where
  "thread_end started ready s =
     (let calls = (if rs_owned s then [ShutdownTimeout (rs_timeout s - (rs_clock s - started))] else [])
      in s\<lparr>rs_owned := False, rs_shutdowns := rs_shutdowns s @ calls, rs_done := True,
           rs_thread := Finished started (rs_clock s) ready\<rparr>)"

text \<open>
  The thread runs on. In the loop, \<open>select!\<close> picks any branch that is ready: \<open>command_first\<close> is its
  choice when both are. In \<open>wait_for_tasks\<close> it polls the tracker once and parks or goes on.
\<close>

definition thread_poll ::
  "('k, 'ts) tokens \<Rightarrow> bool \<Rightarrow> ('k, 'f, 'ts) runtime_system \<Rightarrow> ('k, 'f, 'ts) runtime_system"
where
  "thread_poll T command_first s =
     (case rs_thread s of
        InLoop \<Rightarrow>
          if tok_is_cancelled T (rs_tokens s) (stop (rs_inner s)) \<and> \<not> (command_first \<and> local_commands (rs_inner s) \<noteq> [])
          then leave_loop T s
          else s\<lparr>rs_inner := local_command (rs_inner s)\<rparr>
      | LeftLoop started \<Rightarrow> s\<lparr>rs_thread := WaitingForTasks started (rs_clock s)\<rparr>
      | WaitingForTasks started wait_started \<Rightarrow>
          (case wait_for_tasks (rs_timeout s) [(tracker_ready (rs_inner s), rs_clock s - wait_started)] of
             None \<Rightarrow> s
           | Some ready \<Rightarrow> thread_end started ready s)
      | Finished _ _ _ \<Rightarrow> s)"

section \<open>The app\<close>

text \<open>The two halves of \<open>shutdown\<close>: before it waits for the thread, and when that wait ends.\<close>

definition begin_shutdown :: "('k, 'ts) tokens \<Rightarrow> ('k, 'f, 'ts) runtime_system \<Rightarrow> ('k, 'f, 'ts) runtime_system" where
  "begin_shutdown T s =
     (let rt = rs_resource s;
          s1 = (if has_inner rt
                then s\<lparr>rs_inner := (rs_inner s)\<lparr>tracker_closed := True\<rparr>, rs_tokens := tok_cancel T (stop (rs_inner s)) (rs_tokens s),
                       rs_resource := rt\<lparr>has_inner := False\<rparr>\<rparr>
                else s)
      in if rs_app s = AppRunning \<and> has_done rt
         then s1\<lparr>rs_resource := (rs_resource s1)\<lparr>has_done := False\<rparr>, rs_app := AppWaiting (rs_clock s)\<rparr>
         else s1)"

definition is_finished :: "('k, 'f, 'ts) runtime_system \<Rightarrow> bool" where
  "is_finished s \<longleftrightarrow> (case rs_thread s of Finished _ _ _ \<Rightarrow> True | _ \<Rightarrow> False)"

definition poll_done :: "('k, 'f, 'ts) runtime_system \<Rightarrow> ('k, 'f, 'ts) runtime_system" where
  "poll_done s =
     (case rs_app s of
        AppWaiting since \<Rightarrow>
          if rs_done s \<or> rs_timeout s \<le> rs_clock s - since
          then s\<lparr>rs_resource := (rs_resource s)\<lparr>has_thread := False\<rparr>,
                 rs_app := AppStopped (has_thread (rs_resource s) \<and> (rs_done s \<or> is_finished s))\<rparr>
          else s
      | _ \<Rightarrow> s)"

text \<open>\<open>spawn\<close> inside a network task, whose scope has \<open>CURRENT\<close>; outside of one it panics (\<open>None\<close>).\<close>

definition spawn_current :: "('k, 'ts) tokens \<Rightarrow> ('k, 'f) Inner option \<Rightarrow> 'f \<Rightarrow> 'ts \<Rightarrow> ('k, 'f) Inner option" where
  "spawn_current T current f ts = map_option (spawn_on T f ts) current"

section \<open>Runs\<close>

datatype 'f rt_event =
    Spawn 'f
  | SpawnLocal 'f
  | SpawnChild 'f
  | PollTask nat
  | PollLocal nat
  | ThreadPoll bool
  | ThreadPanic
  | BeginShutdown
  | PollDone
  | Tick nat

text \<open>A child is spawned by a task, so one has to exist; local tasks run while the thread is in its loop.\<close>

fun rt_step ::
  "('k, 'ts) tokens \<Rightarrow> ('f \<Rightarrow> 'f future_poll) \<Rightarrow> 'f rt_event \<Rightarrow> ('k, 'f, 'ts) runtime_system \<Rightarrow> ('k, 'f, 'ts) runtime_system"
where
  "rt_step T pl (Spawn f) s = s\<lparr>rs_inner := runtime_spawn T (rs_resource s) f (rs_tokens s) (rs_inner s)\<rparr>"
| "rt_step T pl (SpawnLocal f) s = s\<lparr>rs_inner := spawn_local (rs_resource s) f (rs_inner s)\<rparr>"
| "rt_step T pl (SpawnChild f) s =
     (case spawn_current T (if tasks (rs_inner s) @ local_tasks (rs_inner s) = [] then None else Some (rs_inner s)) f (rs_tokens s) of
        None \<Rightarrow> s
      | Some i \<Rightarrow> s\<lparr>rs_inner := i\<rparr>)"
| "rt_step T pl (PollTask n) s = s\<lparr>rs_inner := poll_task T pl n (rs_tokens s) (rs_inner s)\<rparr>"
| "rt_step T pl (PollLocal n) s =
     (if rs_thread s = InLoop then s\<lparr>rs_inner := poll_local_task T pl n (rs_tokens s) (rs_inner s)\<rparr> else s)"
| "rt_step T pl (ThreadPoll command_first) s = thread_poll T command_first s"
| "rt_step T pl ThreadPanic s = (if rs_thread s = InLoop then leave_loop T s else s)"
| "rt_step T pl BeginShutdown s = begin_shutdown T s"
| "rt_step T pl PollDone s = poll_done s"
| "rt_step T pl (Tick n) s = s\<lparr>rs_clock := rs_clock s + n\<rparr>"

text \<open>The two halves together are \<open>shutdown\<close> with the outcome of the wait.\<close>

lemma shutdown_halves:
  assumes "rs_app s = AppRunning" "has_done (rs_resource s)" "rs_timeout s = 0 \<or> rs_done s"
  shows "shutdown T (if rs_done s then DoneReceived else DoneTimeout) (is_finished s) (rs_resource s) (rs_inner s) (rs_tokens s)
     = (case poll_done (begin_shutdown T s) of s' \<Rightarrow> (rs_app s' = AppStopped True, rs_resource s', rs_inner s', rs_tokens s'))"
  using assms
  by (auto simp: shutdown_def begin_shutdown_def poll_done_def is_finished_def Let_def split: thread_pc.splits)

section \<open>Invariant\<close>

abbreviation stopped :: "('k, 'ts) tokens \<Rightarrow> ('k, 'f, 'ts) runtime_system \<Rightarrow> bool" where
  "stopped T s \<equiv> tok_is_cancelled T (rs_tokens s) (stop (rs_inner s))"

definition drained :: "('k, 'f) Inner \<Rightarrow> bool" where
  "drained i \<longleftrightarrow> local_tasks i = [] \<and> local_commands i = [] \<and> \<not> local_open i \<and> tracker_closed i"

text \<open>What the resource still holds, by where the app is.\<close>

definition app_wf :: "('k, 'ts) tokens \<Rightarrow> ('k, 'f, 'ts) runtime_system \<Rightarrow> bool" where
  "app_wf T s \<longleftrightarrow>
     (case rs_app s of
        AppRunning \<Rightarrow> has_inner (rs_resource s) \<and> has_done (rs_resource s) \<and> has_thread (rs_resource s)
      | AppWaiting since \<Rightarrow>
          \<not> has_inner (rs_resource s) \<and> \<not> has_done (rs_resource s) \<and> has_thread (rs_resource s) \<and> since \<le> rs_clock s \<and> stopped T s
      | AppStopped joined \<Rightarrow>
          \<not> has_inner (rs_resource s) \<and> \<not> has_done (rs_resource s) \<and> \<not> has_thread (rs_resource s)
          \<and> (joined \<longrightarrow> is_finished s) \<and> stopped T s)"

text \<open>What the thread has done, by where it is; \<open>owned\<close> says whether it was given a tokio runtime.\<close>

definition thread_wf :: "('k, 'ts) tokens \<Rightarrow> bool \<Rightarrow> ('k, 'f, 'ts) runtime_system \<Rightarrow> bool" where
  "thread_wf T owned s \<longleftrightarrow>
     (case rs_thread s of
        InLoop \<Rightarrow> rs_owned s = owned \<and> rs_shutdowns s = [] \<and> \<not> rs_done s \<and> local_open (rs_inner s)
      | LeftLoop started \<Rightarrow>
          rs_owned s = owned \<and> rs_shutdowns s = [] \<and> \<not> rs_done s \<and> drained (rs_inner s) \<and> stopped T s \<and> started \<le> rs_clock s
      | WaitingForTasks started since \<Rightarrow>
          rs_owned s = owned \<and> rs_shutdowns s = [] \<and> \<not> rs_done s \<and> drained (rs_inner s) \<and> stopped T s
          \<and> started \<le> since \<and> since \<le> rs_clock s
      | Finished started ended ready \<Rightarrow>
          \<not> rs_owned s \<and> rs_done s \<and> drained (rs_inner s) \<and> stopped T s \<and> started \<le> ended \<and> ended \<le> rs_clock s
          \<and> rs_shutdowns s = (if owned then [ShutdownTimeout (rs_timeout s - (ended - started))] else [])
          \<and> (if ready then tasks (rs_inner s) = [] else rs_timeout s \<le> ended - started))"

lemmas rt_wf_defs = app_wf_def thread_wf_def drained_def is_finished_def

lemma poll_nth_Nil [simp]: "poll_nth c pl n [] = []"
  by (simp add: poll_nth_def)

lemmas rt_step_defs = thread_poll_def leave_loop_def local_finish_def local_command_def thread_end_def begin_shutdown_def
  poll_done_def runtime_spawn_def spawn_on_def spawn_local_def spawn_current_def poll_task_def poll_local_task_def

lemma rt_step_wf:
  assumes T: "token_laws T" and a: "app_wf T s" and t: "thread_wf T owned s"
  shows "app_wf T (rt_step T pl ev s) \<and> thread_wf T owned (rt_step T pl ev s)"
  using a t T
  by (cases ev; cases "rs_thread s"; cases "rs_app s")
    (auto simp: rt_wf_defs rt_step_defs tracker_ready_def token_laws_def Let_def split: if_splits list.splits)

lemma rt_run_wf:
  assumes T: "token_laws T" and "app_wf T s" "thread_wf T owned s"
  shows "app_wf T (fold (rt_step T pl) evs s) \<and> thread_wf T owned (fold (rt_step T pl) evs s)"
  using assms(2,3) by (induction evs arbitrary: s) (simp_all add: rt_step_wf [OF T])

definition owns_runtime :: "NetworkRuntimeSettings \<Rightarrow> bool" where
  "owns_runtime settings = (case mode settings of Owned _ \<Rightarrow> True | External _ \<Rightarrow> False)"

lemma runtime_launch_wf:
  assumes "runtime_launch T built thread settings now ts = Inr s"
  shows "app_wf T s" "thread_wf T (owns_runtime settings) s" "rs_timeout s = shutdown_timeout settings"
  using assms
  by (auto simp: runtime_launch_def runtime_new_def owns_runtime_def rt_wf_defs Let_def split: NetworkRuntimeMode.splits if_splits prod.splits)

section \<open>Progress\<close>

definition phase :: "('k, 'f, 'ts) runtime_system \<Rightarrow> nat" where
  "phase s = (case rs_thread s of InLoop \<Rightarrow> 0 | LeftLoop _ \<Rightarrow> 1 | WaitingForTasks _ _ \<Rightarrow> 2 | Finished _ _ _ \<Rightarrow> 3)"

definition thread_polls :: "'f rt_event list \<Rightarrow> nat" where
  "thread_polls evs = length (filter (\<lambda>ev. case ev of ThreadPoll _ \<Rightarrow> True | _ \<Rightarrow> False) evs)"

definition ticks :: "'f rt_event list \<Rightarrow> nat" where
  "ticks evs = sum_list (map (\<lambda>ev. case ev of Tick n \<Rightarrow> n | _ \<Rightarrow> 0) evs)"

lemma run_measures [simp]:
  "thread_polls [] = 0" "thread_polls (ThreadPoll c # evs) = Suc (thread_polls evs)" "ticks [] = 0"
  by (simp_all add: thread_polls_def ticks_def)

lemma rt_step_timeout [simp]: "rs_timeout (rt_step T pl ev s) = rs_timeout s"
  by (cases ev) (auto simp: rt_step_defs Let_def split: thread_pc.split app_pc.split option.split)

lemma rt_run_timeout [simp]: "rs_timeout (fold (rt_step T pl) evs s) = rs_timeout s"
  by (induction evs arbitrary: s) simp_all

lemma rt_run_clock: "rs_clock (fold (rt_step T pl) evs s) = rs_clock s + ticks evs"
proof (induction evs arbitrary: s)
  case (Cons ev evs)
  have "rs_clock (rt_step T pl ev s) = rs_clock s + (case ev of Tick n \<Rightarrow> n | _ \<Rightarrow> 0)"
    by (cases ev) (auto simp: rt_step_defs Let_def split: thread_pc.split app_pc.split option.split)
  then show ?case using Cons.IH [of "rt_step T pl ev s"] by (simp add: ticks_def)
qed simp

lemma phase_step: "phase s \<le> phase (rt_step T pl ev s)"
  by (cases ev; cases "rs_thread s")
    (auto simp: phase_def rt_step_defs Let_def split: thread_pc.split app_pc.split option.split if_splits list.split)

lemma phase_run: "phase s \<le> phase (fold (rt_step T pl) evs s)"
proof (induction evs arbitrary: s)
  case (Cons ev evs)
  then show ?case using order_trans [OF phase_step [of s T pl ev] Cons.IH] by simp
qed simp

text \<open>Once the app has begun to shut down, no factory is added and each poll of the loop takes one or leaves.\<close>

lemma loop_step:
  assumes "token_laws T" "app_wf T s" "\<not> has_inner (rs_resource s)" "phase s = 0"
  shows "\<not> has_inner (rs_resource (rt_step T pl ev s))
     \<and> (phase (rt_step T pl ev s) = 0 \<longrightarrow>
          length (local_commands (rs_inner (rt_step T pl ev s))) + thread_polls [ev] \<le> length (local_commands (rs_inner s)))"
  using assms
  by (cases ev; cases "rs_thread s"; cases "rs_app s")
    (auto simp: phase_def app_wf_def rt_step_defs thread_polls_def Let_def split: if_splits list.splits)

lemma thread_polls_Cons: "thread_polls (ev # evs) = thread_polls [ev] + thread_polls evs"
  by (simp add: thread_polls_def)

lemma loop_left:
  assumes "token_laws T" "app_wf T s" "thread_wf T owned s" "\<not> has_inner (rs_resource s)"
    and "length (local_commands (rs_inner s)) < thread_polls evs"
  shows "1 \<le> phase (fold (rt_step T pl) evs s)"
  using assms(2-)
proof (induction evs arbitrary: s)
  case (Cons ev evs)
  let ?s = "rt_step T pl ev s"
  show ?case
  proof (cases "phase s = 0 \<and> phase ?s = 0")
    case True
    then show ?thesis
      using Cons.IH [of ?s] loop_step [OF assms(1) Cons.prems(1,3), of pl ev] rt_step_wf [OF assms(1) Cons.prems(1,2), of pl ev]
        Cons.prems(4) unfolding thread_polls_Cons [of ev evs] by auto
  next
    case False
    then have "1 \<le> phase ?s" using phase_step [of s T pl ev] by auto
    then show ?thesis using phase_run [of ?s T pl evs] by simp
  qed
qed simp

text \<open>A poll moves a thread that has left its loop on, past the wait once the timeout is over.\<close>

lemma poll_moves:
  assumes "1 \<le> phase s" "1 \<le> thread_polls evs"
  shows "2 \<le> phase (fold (rt_step T pl) evs s)"
  using assms
proof (induction evs arbitrary: s)
  case (Cons ev evs)
  let ?s = "rt_step T pl ev s"
  have "1 \<le> phase ?s" using phase_step [of s T pl ev] Cons.prems(1) by simp
  then consider "1 \<le> thread_polls evs" "1 \<le> phase ?s" | c where "ev = ThreadPoll c"
    using Cons.prems(2) by (cases ev) (auto simp: thread_polls_def)
  then show ?case
  proof cases
    case 2
    then have "2 \<le> phase ?s"
      using Cons.prems(1) by (cases "rs_thread s") (auto simp: phase_def thread_poll_def thread_end_def Let_def split: option.split)
    then show ?thesis using phase_run [of ?s T pl evs] by simp
  qed (use Cons.IH in simp)
qed simp

definition overdue :: "('k, 'f, 'ts) runtime_system \<Rightarrow> bool" where
  "overdue s \<longleftrightarrow> (case rs_thread s of WaitingForTasks _ since \<Rightarrow> rs_timeout s \<le> rs_clock s - since | Finished _ _ _ \<Rightarrow> True | _ \<Rightarrow> False)"

lemma overdue_step:
  "overdue s \<Longrightarrow> overdue (rt_step T pl ev s)" "overdue s \<Longrightarrow> phase (rt_step T pl (ThreadPoll c) s) = 3"
  "phase s = 3 \<Longrightarrow> overdue s"
proof -
  show "overdue s \<Longrightarrow> overdue (rt_step T pl ev s)"
    by (cases ev; cases "rs_thread s")
      (auto simp: overdue_def rt_step_defs Let_def split: app_pc.split option.split)
  show "overdue s \<Longrightarrow> phase (rt_step T pl (ThreadPoll c) s) = 3"
    by (cases "rs_thread s") (auto simp: overdue_def phase_def thread_poll_def thread_end_def Let_def)
  show "phase s = 3 \<Longrightarrow> overdue s" by (cases "rs_thread s") (simp_all add: overdue_def phase_def)
qed

lemma poll_ends:
  assumes "overdue s" "1 \<le> thread_polls evs"
  shows "phase (fold (rt_step T pl) evs s) = 3"
  using assms
proof (induction evs arbitrary: s)
  case (Cons ev evs)
  let ?s = "rt_step T pl ev s"
  consider "1 \<le> thread_polls evs" | c where "ev = ThreadPoll c"
    using Cons.prems(2) by (cases ev) (auto simp: thread_polls_def)
  then show ?case
  proof cases
    case 1
    then show ?thesis using Cons.IH [OF overdue_step(1) [OF Cons.prems(1)]] by simp
  next
    case (2 c)
    have "phase s \<le> 3" for s :: "('a, 'b, 'c) runtime_system" by (simp add: phase_def split: thread_pc.split)
    then show ?thesis
      using overdue_step(2) [OF Cons.prems(1)] phase_run [of ?s T pl evs] 2 by (auto intro: antisym)
  qed
qed simp

lemma wait_overdue:
  assumes "rs_thread s = WaitingForTasks t since \<or> phase s = 3" "since + rs_timeout s \<le> rs_clock s + ticks evs"
  shows "overdue (fold (rt_step T pl) evs s)"
  using assms
proof (induction evs arbitrary: s)
  case Nil
  then show ?case by (cases "rs_thread s") (auto simp: overdue_def phase_def)
next
  case (Cons ev evs)
  let ?s = "rt_step T pl ev s"
  have "rs_thread ?s = WaitingForTasks t since \<or> phase ?s = 3"
    using Cons.prems(1) by (cases ev; cases "rs_thread s") (auto simp: rt_step_defs phase_def Let_def split: app_pc.split option.split)
  then show ?case
    using Cons.IH [of ?s] Cons.prems(2) rt_run_clock [of T pl "[ev]" s] by (simp add: ticks_def)
qed

definition app_stopped :: "('k, 'f, 'ts) runtime_system \<Rightarrow> bool" where
  "app_stopped s \<longleftrightarrow> (case rs_app s of AppStopped _ \<Rightarrow> True | _ \<Rightarrow> False)"

lemma app_waits:
  assumes "app_wf T s" "rs_app s = AppWaiting since \<or> app_stopped s" "since + rs_timeout s \<le> rs_clock s + ticks evs"
  shows "app_stopped (poll_done (fold (rt_step T pl) evs s))"
proof -
  have "rs_app (fold (rt_step T pl) evs s) = AppWaiting since \<or> app_stopped (fold (rt_step T pl) evs s)"
    using assms(2)
  proof (induction evs arbitrary: s)
    case (Cons ev evs)
    have "rs_app (rt_step T pl ev s) = AppWaiting since \<or> app_stopped (rt_step T pl ev s)"
      using Cons.prems by (cases ev; cases "rs_app s") (auto simp: app_stopped_def rt_step_defs Let_def split: thread_pc.split option.split)
    from Cons.IH [OF this] show ?case by simp
  qed simp
  then show ?thesis
    using assms(3) by (auto simp: app_stopped_def poll_done_def rt_run_clock split: app_pc.split)
qed

section \<open>Properties\<close>

text \<open>
  (C19) Whose tokio runtime is shut down, how often and for how long. If the local thread cannot be
  started, an owned runtime is shut down in the background, at once and only then. Otherwise, in
  every interleaving of app, workers and thread, whatever the futures do: a runtime of the caller is
  never shut down; an owned one is shut down only at the end of the thread and exactly once, with
  what is left of the timeout, so that waiting and shutting down together are given no more than
  the timeout, and none of it is left when tasks did not stop in time; when the thread reports that
  all tasks stopped, none exists then or later; and the app joins only a finished thread.
\<close>

theorem owned_runtime_stopped_once:
  fixes pl :: "'f \<Rightarrow> 'f future_poll"
  assumes "token_laws T"
  shows "case runtime_launch T built thread settings now ts of
      Inl (rt, calls) \<Rightarrow> rt = unavailable (shutdown_timeout settings) \<and>
        calls = (if owns_runtime settings \<and> built then [ShutdownBackground] else [])
    | Inr s0 \<Rightarrow> \<forall>evs. (let s = fold (rt_step T pl) evs s0 in
        (\<not> owns_runtime settings \<longrightarrow> rs_shutdowns s = [])
        \<and> (case rs_thread s of
             Finished started ended ready \<Rightarrow>
               (owns_runtime settings \<longrightarrow> (\<exists>r. rs_shutdowns s = [ShutdownTimeout r]
                  \<and> (ended - started) + r \<le> max (ended - started) (shutdown_timeout settings) \<and> (ready \<or> r = 0)))
               \<and> (ready \<longrightarrow> tasks (rs_inner s) = []) \<and> local_tasks (rs_inner s) = [] \<and> local_commands (rs_inner s) = []
           | _ \<Rightarrow> rs_shutdowns s = [])
        \<and> (rs_app s = AppStopped True \<longrightarrow> is_finished s))"
proof (cases "runtime_launch T built thread settings now ts :: _ + (_, 'f, _) runtime_system")
  case (Inl x)
  then show ?thesis
    by (auto simp: runtime_launch_def runtime_new_def owned_drop_def owns_runtime_def Let_def
        split: NetworkRuntimeMode.splits if_splits prod.splits)
next
  case (Inr s0)
  note l = runtime_launch_wf [OF Inr]
  show ?thesis
    unfolding Inr sum.case Let_def
  proof (rule allI, goal_cases)
    case (1 evs)
    show ?case
      using rt_run_wf [OF assms l(1,2), of pl evs] l(3)
      by (auto simp: thread_wf_def app_wf_def drained_def split: thread_pc.splits if_splits)
  qed
qed

definition demo_runtime :: "(demo_token, nat, nat \<times> demo_token list) runtime_system" where
  "demo_runtime =
     \<lparr>rs_resource = \<lparr>has_inner = True, has_thread = True, has_done = True, rt_timeout = 1000000000\<rparr>,
      rs_inner = \<lparr>stop = (1, []), tasks = [], local_tasks = [], tracker_closed = False, local_commands = [], local_open = True\<rparr>,
      rs_tokens = (1, []), rs_timeout = 1000000000, rs_owned = True, rs_thread = InLoop, rs_app = AppRunning, rs_done = False,
      rs_clock = 0, rs_shutdowns = []\<rparr>"

definition demo_runtime_events :: "nat rt_event list" where
  "demo_runtime_events =
     [Spawn 5, SpawnLocal 6, BeginShutdown, ThreadPoll True, ThreadPoll False, ThreadPoll False, Tick 3, PollTask 0, ThreadPoll False]"

lemma demo_runtime_launch: "runtime_launch demo_tokens True True default_runtime_settings 0 (0, []) = Inr demo_runtime"
  by (simp add: runtime_launch_def runtime_new_def default_runtime_settings_def demo_tokens_def demo_fresh_def demo_runtime_def)

lemmas demo_runtime_eval = demo_runtime_events_def demo_runtime_def rt_step_defs demo_tokens_def Let_def poll_nth_def run_task_def
  until_cancelled_def tracker_ready_def

theorem owned_runtime_stopped_once_witness:
  "\<exists>r. rs_thread (fold (rt_step demo_tokens FWaiting) demo_runtime_events demo_runtime) = Finished 0 3 True
     \<and> rs_shutdowns (fold (rt_step demo_tokens FWaiting) demo_runtime_events demo_runtime) = [ShutdownTimeout r] \<and> 3 + r \<le> 1000000000"
proof -
  have f: "rs_thread (fold (rt_step demo_tokens FWaiting) demo_runtime_events demo_runtime) = Finished 0 3 True"
    by (simp add: demo_runtime_eval)
  show ?thesis
    using owned_runtime_stopped_once [OF demo_tokens_laws, where pl = "FWaiting :: nat \<Rightarrow> _" and built = True and thread = True
        and settings = default_runtime_settings and now = 0 and ts = "(0, [])", unfolded demo_runtime_launch sum.case Let_def,
        THEN spec [of _ demo_runtime_events]] f
    by (simp add: owns_runtime_def default_runtime_settings_def)
qed

text \<open>
  (C18) Shutdown ends. Once the app has begun it, then in every interleaving, whatever the futures of
  the remaining tasks do: when the local thread has been polled more often than there are queued
  factories, then once more, the shutdown timeout has passed and it is polled again, it has ended
  and sent its report; and independently of the thread the app waits no longer than the timeout.
\<close>

theorem shutdown_completes:
  assumes "token_laws T" "runtime_launch T built thread settings now ts = Inr s0" "s = fold (rt_step T pl) evs s0"
    and "\<not> has_inner (rs_resource s)"
  shows "(length (local_commands (rs_inner s)) < thread_polls evs1 \<and> 1 \<le> thread_polls evs2
          \<and> shutdown_timeout settings \<le> ticks evs3 \<and> 1 \<le> thread_polls evs4
          \<longrightarrow> is_finished (fold (rt_step T pl) (evs1 @ evs2 @ evs3 @ evs4) s) \<and> rs_done (fold (rt_step T pl) (evs1 @ evs2 @ evs3 @ evs4) s))
       \<and> (shutdown_timeout settings \<le> ticks evs1 \<longrightarrow> app_stopped (poll_done (fold (rt_step T pl) evs1 s)))"
proof -
  note l = runtime_launch_wf [OF assms(2)]
  have wf: "app_wf T s" "thread_wf T (owns_runtime settings) s" and to: "rs_timeout s = shutdown_timeout settings"
    using rt_run_wf [OF assms(1) l(1,2), of pl evs, folded assms(3)] l(3) by (simp_all add: assms(3))
  have "is_finished (fold (rt_step T pl) (evs1 @ evs2 @ evs3 @ evs4) s) \<and> rs_done (fold (rt_step T pl) (evs1 @ evs2 @ evs3 @ evs4) s)"
    if p: "length (local_commands (rs_inner s)) < thread_polls evs1" "1 \<le> thread_polls evs2"
      "shutdown_timeout settings \<le> ticks evs3" "1 \<le> thread_polls evs4"
  proof -
    let ?s2 = "fold (rt_step T pl) evs2 (fold (rt_step T pl) evs1 s)" and ?e = "fold (rt_step T pl) (evs1 @ evs2 @ evs3 @ evs4) s"
    have ph: "2 \<le> phase ?s2" using poll_moves [OF loop_left [OF assms(1) wf assms(4) p(1)] p(2)] .
    have "thread_wf T (owns_runtime settings) ?s2" using rt_run_wf [OF assms(1) wf, of pl "evs1 @ evs2"] by simp
    then obtain t since where "rs_thread ?s2 = WaitingForTasks t since \<or> phase ?s2 = 3" "since \<le> rs_clock ?s2"
      using ph by (cases "rs_thread ?s2") (auto simp: phase_def thread_wf_def)
    then have "overdue (fold (rt_step T pl) evs3 ?s2)"
      using p(3) to by (intro wait_overdue) auto
    then have "phase ?e = 3" using poll_ends [OF _ p(4)] by simp
    moreover have "thread_wf T (owns_runtime settings) ?e" using rt_run_wf [OF assms(1) wf] by blast
    ultimately show ?thesis
      by (cases "rs_thread ?e") (simp_all add: phase_def thread_wf_def is_finished_def)
  qed
  moreover have "app_stopped (poll_done (fold (rt_step T pl) evs1 s))" if "shutdown_timeout settings \<le> ticks evs1"
  proof -
    obtain since where "rs_app s = AppWaiting since \<or> app_stopped s" "since \<le> rs_clock s"
      using wf(1) assms(4) by (cases "rs_app s") (auto simp: app_wf_def app_stopped_def)
    then show ?thesis using app_waits [OF wf(1), of since evs1 pl] that to by auto
  qed
  ultimately show ?thesis by blast
qed

theorem shutdown_completes_witness:
  "is_finished (fold (rt_step demo_tokens FWaiting)
      ([ThreadPoll True, ThreadPoll True] @ [ThreadPoll False] @ [Tick 1000000000] @ [ThreadPoll False])
      (fold (rt_step demo_tokens FWaiting) [Spawn 5, SpawnLocal 6, BeginShutdown] demo_runtime))"
proof -
  have "\<not> has_inner (rs_resource (fold (rt_step demo_tokens FWaiting) [Spawn 5, SpawnLocal 6, BeginShutdown] demo_runtime))"
    "length (local_commands (rs_inner (fold (rt_step demo_tokens FWaiting) [Spawn 5, SpawnLocal 6, BeginShutdown] demo_runtime))) = 1"
    by (simp_all add: demo_runtime_eval)
  with shutdown_completes [OF demo_tokens_laws demo_runtime_launch refl this(1), of "[ThreadPoll True, ThreadPoll True]" "[ThreadPoll False]"
      "[Tick 1000000000]" "[ThreadPoll False]"]
  show ?thesis by (simp add: default_runtime_settings_def ticks_def)
qed

end
