(* ===== verification/Browser_Runtime.thy ===== *)
theory Browser_Runtime
  imports Net_Runtime
begin

text \<open>
  The runtime of browser builds: \<^verbatim>\<open>src/src/runtime/wasm.rs\<close>. Tasks run on the JavaScript event loop,
  which is the list of the tasks that have not finished, each with the stop token of its scope. A
  task is polled like a native one, through \<open>until_cancelled\<close>, but nothing catches a panic, which traps
  the whole program (\<open>None\<close>).
\<close>

type_synonym ('k, 'f) event_loop = "('k \<times> 'f) list"

record 'k WebRuntime =
  web_stop :: 'k

definition web_spawn_on :: "('k, 'ts) tokens \<Rightarrow> 'k \<Rightarrow> 'f \<Rightarrow> 'ts \<Rightarrow> ('k, 'f) event_loop \<Rightarrow> ('k, 'f) event_loop" where
  "web_spawn_on T k f ts js = (if tok_is_cancelled T ts k then js else js @ [(k, f)])"

text \<open>\<open>spawn\<close> inside a task, whose scope holds the token; outside of one it panics.\<close>

definition web_spawn ::
  "('k, 'ts) tokens \<Rightarrow> 'k option \<Rightarrow> 'f \<Rightarrow> 'ts \<Rightarrow> ('k, 'f) event_loop \<Rightarrow> ('k, 'f) event_loop option"
where
  "web_spawn T current f ts js = map_option (\<lambda>k. web_spawn_on T k f ts js) current"

definition web_connection_token :: "('k, 'ts) tokens \<Rightarrow> 'k option \<Rightarrow> 'ts \<Rightarrow> 'k \<times> 'ts" where
  "web_connection_token T current ts = (case current of Some k \<Rightarrow> tok_child T k ts | None \<Rightarrow> tok_new T ts)"

definition web_is_available :: "('k, 'ts) tokens \<Rightarrow> 'k WebRuntime \<Rightarrow> 'ts \<Rightarrow> bool" where
  "web_is_available T rt ts \<longleftrightarrow> \<not> tok_is_cancelled T ts (web_stop rt)"

definition web_runtime_spawn ::
  "('k, 'ts) tokens \<Rightarrow> 'k WebRuntime \<Rightarrow> 'f \<Rightarrow> 'ts \<Rightarrow> ('k, 'f) event_loop \<Rightarrow> ('k, 'f) event_loop"
where
  "web_runtime_spawn T rt f ts js = web_spawn_on T (web_stop rt) f ts js"

text \<open>\<open>spawn_local\<close>: the future starts by invoking the factory, so \<open>mk\<close> gives its first state.\<close>

definition web_spawn_local ::
  "('k, 'ts) tokens \<Rightarrow> 'k WebRuntime \<Rightarrow> ('g \<Rightarrow> 'f) \<Rightarrow> 'g \<Rightarrow> 'ts \<Rightarrow> ('k, 'f) event_loop \<Rightarrow> ('k, 'f) event_loop"
where
  "web_spawn_local T rt mk g ts js = web_spawn_on T (web_stop rt) (mk g) ts js"

definition web_drop :: "('k, 'ts) tokens \<Rightarrow> 'k WebRuntime \<Rightarrow> 'ts \<Rightarrow> 'ts" where
  "web_drop T rt ts = tok_cancel T (web_stop rt) ts"

text \<open>\<open>initialize\<close>: \<open>init_resource\<close> keeps a runtime that is already there.\<close>

definition web_initialize :: "('k, 'ts) tokens \<Rightarrow> 'k WebRuntime option \<Rightarrow> 'ts \<Rightarrow> 'k WebRuntime option \<times> 'ts" where
  "web_initialize T rt ts =
     (case rt of
        Some _ \<Rightarrow> (rt, ts)
      | None \<Rightarrow> (case tok_new T ts of (k, ts') \<Rightarrow> (Some \<lparr>web_stop = k\<rparr>, ts')))"

definition web_stop_on_exit :: "('k, 'ts) tokens \<Rightarrow> bool \<Rightarrow> 'k WebRuntime option \<Rightarrow> 'ts \<Rightarrow> 'ts" where
  "web_stop_on_exit T exiting rt ts =
     (case rt of Some r \<Rightarrow> if exiting then tok_cancel T (web_stop r) ts else ts | None \<Rightarrow> ts)"

definition web_poll :: "('k, 'ts) tokens \<Rightarrow> ('f \<Rightarrow> 'f future_poll) \<Rightarrow> nat \<Rightarrow> 'ts \<Rightarrow> ('k, 'f) event_loop \<Rightarrow> ('k, 'f) event_loop option" where
  "web_poll T pl n ts js =
     (if n < length js
      then (case js ! n of
              (k, f) \<Rightarrow>
                (case until_cancelled (tok_is_cancelled T ts k) pl f of
                   FDone \<Rightarrow> Some (take n js @ drop (Suc n) js)
                 | FWaiting f' \<Rightarrow> Some (js[n := (k, f')])
                 | FPanicked \<Rightarrow> None))
      else Some js)"

section \<open>Both runtimes under the same operations\<close>

datatype 'f runtime_op = OpSpawn 'f | OpPoll nat | OpExit

type_synonym ('k, 'f, 'ts) native_state = "NetworkRuntime \<times> ('k, 'f) Inner \<times> 'ts"

fun native_step ::
  "('k, 'ts) tokens \<Rightarrow> ('f \<Rightarrow> 'f future_poll) \<Rightarrow> 'f runtime_op \<Rightarrow> ('k, 'f, 'ts) native_state \<Rightarrow> ('k, 'f, 'ts) native_state"
where
  "native_step T pl (OpSpawn f) (rt, i, ts) = (rt, runtime_spawn T rt f ts i, ts)"
| "native_step T pl (OpPoll n) (rt, i, ts) = (rt, poll_task T pl n ts i, ts)"
| "native_step T pl OpExit (rt, i, ts) =
     (case stop_on_exit T DoneReceived True True (Some rt) i ts of
        (Some rt', i', ts') \<Rightarrow> (rt', i', ts')
      | (None, i', ts') \<Rightarrow> (rt, i', ts'))"

fun web_step ::
  "('k, 'ts) tokens \<Rightarrow> ('f \<Rightarrow> 'f future_poll) \<Rightarrow> 'k WebRuntime \<Rightarrow> 'f runtime_op
     \<Rightarrow> ('k, 'f) event_loop \<times> 'ts \<Rightarrow> (('k, 'f) event_loop \<times> 'ts) option"
where
  "web_step T pl rt (OpSpawn f) (js, ts) = Some (web_runtime_spawn T rt f ts js, ts)"
| "web_step T pl rt (OpPoll n) (js, ts) = map_option (\<lambda>js'. (js', ts)) (web_poll T pl n ts js)"
| "web_step T pl rt OpExit (js, ts) = Some (js, web_stop_on_exit T True (Some rt) ts)"

fun web_run ::
  "('k, 'ts) tokens \<Rightarrow> ('f \<Rightarrow> 'f future_poll) \<Rightarrow> 'k WebRuntime \<Rightarrow> 'f runtime_op list
     \<Rightarrow> ('k, 'f) event_loop \<times> 'ts \<Rightarrow> (('k, 'f) event_loop \<times> 'ts) option"
where
  "web_run T pl rt [] s = Some s"
| "web_run T pl rt (op # ops) s = Option.bind (web_step T pl rt op s) (web_run T pl rt ops)"

text \<open>The native state that corresponds to a browser state: the same tasks, under the same token.\<close>

definition corresponds ::
  "('k, 'ts) tokens \<Rightarrow> ('k, 'f, 'ts) native_state \<Rightarrow> 'k WebRuntime \<Rightarrow> ('k, 'f) event_loop \<times> 'ts \<Rightarrow> bool"
where
  "corresponds T s rt w \<longleftrightarrow>
     (case (s, w) of
        ((nrt, i, ts), (js, ts')) \<Rightarrow>
          tok_is_cancelled T ts' (stop i) = tok_is_cancelled T ts (stop i) \<and> web_stop rt = stop i \<and> js = map (Pair (stop i)) (tasks i) \<and> local_open i
          \<and> (has_inner nrt \<or> tok_is_cancelled T ts (stop i)))"

lemma web_poll_corresponds:
  assumes "\<forall>f. pl f \<noteq> FPanicked"
    and "tok_is_cancelled T ts' (stop i) = tok_is_cancelled T ts (stop i)"
  shows "web_poll T pl n ts' (map (Pair (stop i)) (tasks i)) = Some (map (Pair (stop i)) (tasks (poll_task T pl n ts i)))"
proof (cases "n < length (tasks i)")
  case True
  then show ?thesis
    using assms
    by (cases "until_cancelled (tok_is_cancelled T ts (stop i)) pl (tasks i ! n)")
      (auto simp: web_poll_def poll_task_def poll_nth_def run_task_def take_map drop_map map_update
        until_cancelled_def split: if_splits)
qed (simp add: web_poll_def poll_task_def poll_nth_def)

lemma poll_task_open [simp]: "local_open (poll_task T pl n ts i) = local_open i"
  by (simp add: poll_task_def)

lemma step_corresponds:
  assumes T: "token_laws T" and pl: "\<forall>f. pl f \<noteq> FPanicked" and c: "corresponds T s rt w"
  shows "\<exists>w'. web_step T pl rt op w = Some w' \<and> corresponds T (native_step T pl op s) rt w'"
proof -
  obtain nrt i ts js tw where s: "s = (nrt, i, ts)" "w = (js, tw)"
    and e: "tok_is_cancelled T tw (stop i) = tok_is_cancelled T ts (stop i)" and k: "web_stop rt = stop i" "js = map (Pair (stop i)) (tasks i)"
    and o: "local_open i" "has_inner nrt \<or> tok_is_cancelled T ts (stop i)"
    using c by (cases s; cases w) (auto simp: corresponds_def)
  show ?thesis
  proof (cases op)
    case (OpSpawn f)
    then show ?thesis
      using k o e by (auto simp: s corresponds_def runtime_spawn_def spawn_on_def web_runtime_spawn_def web_spawn_on_def)
  next
    case (OpPoll n)
    then show ?thesis
      using k o e by (simp add: s corresponds_def web_poll_corresponds [OF pl e])
  next
    case OpExit
    then show ?thesis
      using k o e T by (auto simp: s corresponds_def stop_on_exit_def shutdown_def web_stop_on_exit_def token_laws_def Let_def)
  qed
qed



end
