(* ===== verification/Scheduling.thy ===== *)
theory Scheduling
  imports Slinet_Prelude "HOL-Library.Multiset"
begin

text \<open>
  What the plugins register with Bevy: \<^verbatim>\<open>src/src/scheduling.rs\<close>, the plugin builds of \<^verbatim>\<open>client.rs\<close> and
  \<^verbatim>\<open>server.rs\<close> and the registration part of \<^verbatim>\<open>runtime/mod.rs\<close>. An app is the record of the systems,
  set memberships, ordering constraints and resources registered so far. The scheduler itself is not
  code of the crate: it may run a schedule's systems in any order that its documented constraints
  allow, and \<open>legal_order\<close> says which orders these are.
\<close>

section \<open>Labels and systems\<close>

datatype schedule = Startup | PreUpdate | Update | Last

datatype role = ClientRole | ServerRole

text \<open>An endpoint is a role and a configuration type.\<close>

type_synonym endpoint = "role \<times> nat"

datatype SchedPhase = Settings | Setup | Receive | Lifecycle | Packets

datatype SystemSets =
    ClientReceive
  | ServerReceive
  | ClientPacketReceive
  | ClientConnectionEstablish
  | ClientConnectionRemove
  | ClientConnectionRequest
  | ServerConnectionAdd
  | ServerAcceptNewConnections
  | ServerAcceptNewPackets
  | ServerRemoveConnections
  | SetMaxPacketSize
  | MaxPacketSizeWarning

datatype system_set = NetworkSystems endpoint SchedPhase | Legacy SystemSets | RuntimeSetup | UserSet nat

datatype sys =
    SyncLimits endpoint
  | WarningSystem endpoint
  | SetLimits
  | InitializeRuntime
  | StopOnExit
  | SetupSystem endpoint
  | InitialRequest endpoint SocketAddr
  | IncomingSystem endpoint
  | ReceiveDatagramPackets endpoint
  | PublishServerAddress endpoint
  | UserSystem nat

datatype node = Sys sys | Set system_set

datatype plugin_id = GlobalLimitsPlugin | NetworkRuntimePlugin

datatype resource =
    ReceiveLimitsRes
  | NetworkRuntimeSettingsRes
  | EndpointReceiveLimitsRes endpoint
  | ConnectionsRes endpoint

text \<open>\<open>members\<close> holds \<open>x.in_set(s)\<close>, \<open>orders\<close> holds \<open>y.after(x)\<close> as \<open>(x, y)\<close>, each in a schedule.\<close>

record app =
  systems :: "(schedule \<times> sys) list"
  members :: "(schedule \<times> node \<times> system_set) list"
  orders :: "(schedule \<times> node \<times> node) list"
  plugins :: "plugin_id list"
  resources :: "resource list"

definition App_new :: app where
  "App_new = \<lparr>systems = [], members = [], orders = [], plugins = [], resources = []\<rparr>"

definition add_system :: "schedule \<Rightarrow> sys \<Rightarrow> system_set list \<Rightarrow> node list \<Rightarrow> app \<Rightarrow> app" where
  "add_system sc x in_sets after a =
     a\<lparr>systems := systems a @ [(sc, x)],
       members := members a @ map (\<lambda>s. (sc, Sys x, s)) in_sets,
       orders := orders a @ map (\<lambda>y. (sc, y, Sys x)) after\<rparr>"

definition configure_set :: "schedule \<Rightarrow> system_set \<Rightarrow> system_set list \<Rightarrow> node list \<Rightarrow> app \<Rightarrow> app" where
  "configure_set sc x in_sets after a =
     a\<lparr>members := members a @ map (\<lambda>s. (sc, Set x, s)) in_sets,
       orders := orders a @ map (\<lambda>y. (sc, y, Set x)) after\<rparr>"

definition order_before :: "schedule \<Rightarrow> node \<Rightarrow> node \<Rightarrow> app \<Rightarrow> app" where
  "order_before sc x y a = a\<lparr>orders := orders a @ [(sc, x, y)]\<rparr>"

definition init_resource :: "resource \<Rightarrow> app \<Rightarrow> app" where
  "init_resource r a = (if r \<in> set (resources a) then a else a\<lparr>resources := resources a @ [r]\<rparr>)"

definition insert_resource :: "resource \<Rightarrow> app \<Rightarrow> app" where
  "insert_resource r a = a\<lparr>resources := removeAll r (resources a) @ [r]\<rparr>"

section \<open>Registration\<close>

definition global_limits_build :: "app \<Rightarrow> app" where
  "global_limits_build a =
     add_system Update SetLimits [Legacy SetMaxPacketSize] []
      (add_system Startup SetLimits [Legacy SetMaxPacketSize] []
        (init_resource ReceiveLimitsRes a))"

definition register_global_limits :: "app \<Rightarrow> app" where
  "register_global_limits a =
     (if GlobalLimitsPlugin \<in> set (plugins a) then a
      else global_limits_build (a\<lparr>plugins := plugins a @ [GlobalLimitsPlugin]\<rparr>))"

definition runtime_build :: "app \<Rightarrow> app" where
  "runtime_build a =
     add_system Last StopOnExit [] []
      (add_system Startup InitializeRuntime [RuntimeSetup] []
        (init_resource NetworkRuntimeSettingsRes a))"

text \<open>The browser's runtime plugin, which has no settings; \<open>wasm\<close> selects it.\<close>

definition web_runtime_build :: "app \<Rightarrow> app" where
  "web_runtime_build a =
     add_system Last StopOnExit [] [] (add_system Startup InitializeRuntime [RuntimeSetup] [] a)"

definition register_runtime :: "bool \<Rightarrow> app \<Rightarrow> app" where
  "register_runtime wasm a =
     (if NetworkRuntimePlugin \<in> set (plugins a) then a
      else (if wasm then web_runtime_build else runtime_build) (a\<lparr>plugins := plugins a @ [NetworkRuntimePlugin]\<rparr>))"

definition configure_settings :: "bool \<Rightarrow> endpoint \<Rightarrow> app \<Rightarrow> app" where
  "configure_settings wasm e a =
     (let SETTINGS = NetworkSystems e Settings;
          SETUP = NetworkSystems e Setup;
          a = register_global_limits a;
          a = register_runtime wasm a;
          a = init_resource (EndpointReceiveLimitsRes e) a;
          a = configure_set Startup SETTINGS [Legacy SetMaxPacketSize] [] a;
          a = configure_set Startup SETUP [] [Set SETTINGS, Set RuntimeSetup] a;
          a = add_system Startup (SyncLimits e) [SETTINGS] [] a;
          a = add_system Startup (WarningSystem e) [Legacy MaxPacketSizeWarning] [Set SETTINGS] a;
          a = configure_set Update SETTINGS [Legacy SetMaxPacketSize] [] a
      in add_system Update (SyncLimits e) [SETTINGS] [] a)"

record ReceiveSets =
  rs_receive :: SystemSets
  rs_lifecycle :: "SystemSets \<times> SystemSets"
  rs_packets :: SystemSets

definition configure_receive :: "endpoint \<Rightarrow> bool \<Rightarrow> ReceiveSets \<Rightarrow> sys \<Rightarrow> sys \<Rightarrow> app \<Rightarrow> app" where
  "configure_receive e datagram legacy incoming packets a =
     (let RECEIVE = NetworkSystems e Receive;
          LIFECYCLE = NetworkSystems e Lifecycle;
          PACKETS = NetworkSystems e Packets;
          (establish, remove) = rs_lifecycle legacy;
          a = configure_set PreUpdate RECEIVE [Legacy (rs_receive legacy)] [] a;
          a = configure_set PreUpdate LIFECYCLE [RECEIVE, Legacy establish, Legacy remove] [] a;
          a = configure_set PreUpdate PACKETS [RECEIVE, Legacy (rs_packets legacy)] [] a
      in if datagram
         then add_system PreUpdate packets [PACKETS] []
               (add_system PreUpdate incoming [LIFECYCLE] []
                 (configure_set PreUpdate PACKETS [] [Set LIFECYCLE] a))
         else add_system PreUpdate incoming [LIFECYCLE, PACKETS] [] a)"

definition client_configure_receive :: "nat \<Rightarrow> bool \<Rightarrow> app \<Rightarrow> app" where
  "client_configure_receive cfg datagram =
     configure_receive (ClientRole, cfg) datagram
       \<lparr>rs_receive = ClientReceive,
        rs_lifecycle = (ClientConnectionEstablish, ClientConnectionRemove),
        rs_packets = ClientPacketReceive\<rparr>
       (IncomingSystem (ClientRole, cfg)) (ReceiveDatagramPackets (ClientRole, cfg))"

definition server_configure_receive :: "nat \<Rightarrow> bool \<Rightarrow> app \<Rightarrow> app" where
  "server_configure_receive cfg datagram =
     configure_receive (ServerRole, cfg) datagram
       \<lparr>rs_receive = ServerReceive,
        rs_lifecycle = (ServerAcceptNewConnections, ServerRemoveConnections),
        rs_packets = ServerAcceptNewPackets\<rparr>
       (IncomingSystem (ServerRole, cfg)) (ReceiveDatagramPackets (ServerRole, cfg))"

section \<open>Plugins\<close>

text \<open>A plugin is its address; \<open>to_socket_addrs\<close> gives the addresses it was resolved to.\<close>

record ClientPlugin = cp_address :: "SocketAddr option"
record ServerPlugin = svp_address :: SocketAddr

definition first_address :: "io_error + SocketAddr list \<Rightarrow> SocketAddr option" where
  "first_address resolved = (case resolved of Inr (x # _) \<Rightarrow> Some x | _ \<Rightarrow> None)"

definition ClientPlugin_new :: ClientPlugin where
  "ClientPlugin_new = \<lparr>cp_address = None\<rparr>"

definition ClientPlugin_connect :: "io_error + SocketAddr list \<Rightarrow> ClientPlugin option" where
  "ClientPlugin_connect resolved = map_option (\<lambda>x. \<lparr>cp_address = Some x\<rparr>) (first_address resolved)"

definition ConnectionRequestEvent_new :: "io_error + SocketAddr list \<Rightarrow> SocketAddr option" where
  "ConnectionRequestEvent_new resolved = first_address resolved"

definition client_build :: "bool \<Rightarrow> nat \<Rightarrow> bool \<Rightarrow> ClientPlugin \<Rightarrow> app \<Rightarrow> app" where
  "client_build wasm cfg datagram p a =
     (let e = (ClientRole, cfg);
          a = configure_settings wasm e a;
          a = insert_resource (ConnectionsRes e) a;
          a = add_system Startup (SetupSystem e) [NetworkSystems e Setup] [] a;
          a = (case cp_address p of
                 Some address \<Rightarrow> add_system Startup (InitialRequest e address) [] [Set (NetworkSystems e Setup)] a
               | None \<Rightarrow> a)
      in client_configure_receive cfg datagram a)"

definition server_build :: "bool \<Rightarrow> nat \<Rightarrow> bool \<Rightarrow> app \<Rightarrow> app" where
  "server_build wasm cfg datagram a =
     (let e = (ServerRole, cfg);
          a = configure_settings wasm e a;
          a = insert_resource (ConnectionsRes e) a;
          a = add_system Startup (SetupSystem e) [NetworkSystems e Setup] [] a;
          a = server_configure_receive cfg datagram a
      in if wasm
         then order_before PreUpdate (Sys (PublishServerAddress e)) (Set (NetworkSystems e Receive))
               (add_system PreUpdate (PublishServerAddress e) [] [] a)
         else a)"

datatype plugin = Client nat bool ClientPlugin | Server nat bool ServerPlugin

fun plugin_endpoint :: "plugin \<Rightarrow> endpoint" where
  "plugin_endpoint (Client cfg _ _) = (ClientRole, cfg)"
| "plugin_endpoint (Server cfg _ _) = (ServerRole, cfg)"

fun plugin_datagram :: "plugin \<Rightarrow> bool" where
  "plugin_datagram (Client _ d _) = d"
| "plugin_datagram (Server _ d _) = d"

fun plugin_build :: "bool \<Rightarrow> plugin \<Rightarrow> app \<Rightarrow> app" where
  "plugin_build wasm (Client cfg datagram p) a = client_build wasm cfg datagram p a"
| "plugin_build wasm (Server cfg datagram _) a = server_build wasm cfg datagram a"

section \<open>What the scheduler may do\<close>

text \<open>The sets that contain a node, with the nesting followed to any depth that can occur.\<close>

definition direct_sets :: "schedule \<Rightarrow> app \<Rightarrow> node \<Rightarrow> system_set list" where
  "direct_sets sc a x = map (snd \<circ> snd) (filter (\<lambda>(c, y, _). c = sc \<and> y = x) (members a))"

fun sets_above :: "nat \<Rightarrow> schedule \<Rightarrow> app \<Rightarrow> node \<Rightarrow> system_set list" where
  "sets_above 0 sc a x = []"
| "sets_above (Suc n) sc a x = concat (map (\<lambda>s. s # sets_above n sc a (Set s)) (direct_sets sc a x))"

definition covers :: "schedule \<Rightarrow> app \<Rightarrow> node \<Rightarrow> sys \<Rightarrow> bool" where
  "covers sc a x f =
     (case x of
        Sys g \<Rightarrow> g = f
      | Set s \<Rightarrow> s \<in> set (sets_above (length (members a)) sc a (Sys f)))"

definition runs_before :: "schedule \<Rightarrow> app \<Rightarrow> sys \<Rightarrow> sys \<Rightarrow> bool" where
  "runs_before sc a f g = list_ex (\<lambda>(c, x, y). c = sc \<and> covers sc a x f \<and> covers sc a y g) (orders a)"

definition scheduled :: "schedule \<Rightarrow> app \<Rightarrow> sys list" where
  "scheduled sc a = map snd (filter (\<lambda>(c, _). c = sc) (systems a))"

definition legal_order :: "schedule \<Rightarrow> app \<Rightarrow> sys list \<Rightarrow> bool" where
  "legal_order sc a run \<longleftrightarrow> mset run = mset (scheduled sc a) \<and> sorted_wrt (\<lambda>f g. \<not> runs_before sc a g f) run"

definition precedes :: "'a \<Rightarrow> 'a \<Rightarrow> 'a list \<Rightarrow> bool" where
  "precedes x y run \<longleftrightarrow> (\<forall>i < length run. \<forall>j < length run. run ! i = x \<and> run ! j = y \<longrightarrow> i < j)"

section \<open>Lemmas on orders\<close>

lemma set_direct_sets: "s \<in> set (direct_sets sc a x) \<longleftrightarrow> (sc, x, s) \<in> set (members a)"
  by (force simp: direct_sets_def)

text \<open>Following the nesting as many levels as there are memberships is following it to the end.\<close>

definition nesting :: "schedule \<Rightarrow> app \<Rightarrow> (node \<times> node) set" where
  "nesting sc a = {(x, Set s) |x s. (sc, x, s) \<in> set (members a)}"

lemma set_sets_above:
  "s \<in> set (sets_above n sc a x) \<longleftrightarrow> (\<exists>k. 0 < k \<and> k \<le> n \<and> (x, Set s) \<in> nesting sc a ^^ k)"
proof (induction n arbitrary: x)
  case (Suc n)
  have "s \<in> set (sets_above (Suc n) sc a x) \<longleftrightarrow>
      (\<exists>t. (sc, x, t) \<in> set (members a) \<and> (t = s \<or> (\<exists>k. 0 < k \<and> k \<le> n \<and> (Set t, Set s) \<in> nesting sc a ^^ k)))"
    by (auto simp: set_direct_sets Suc.IH)
  also have "\<dots> \<longleftrightarrow> (\<exists>k. k \<le> n \<and> (x, Set s) \<in> nesting sc a O nesting sc a ^^ k)"
  proof (intro iffI; elim exE conjE disjE)
    fix t assume "(sc, x, t) \<in> set (members a)" "t = s"
    then show "\<exists>k. k \<le> n \<and> (x, Set s) \<in> nesting sc a O nesting sc a ^^ k"
      by (intro exI [of _ 0]) (auto simp: nesting_def)
  next
    fix t k assume "(sc, x, t) \<in> set (members a)" "k \<le> n" "(Set t, Set s) \<in> nesting sc a ^^ k"
    then show "\<exists>k. k \<le> n \<and> (x, Set s) \<in> nesting sc a O nesting sc a ^^ k"
      by (intro exI [of _ k]) (auto simp: nesting_def)
  next
    fix k assume k: "k \<le> n" "(x, Set s) \<in> nesting sc a O nesting sc a ^^ k"
    then obtain t where t: "(sc, x, t) \<in> set (members a)" "(Set t, Set s) \<in> nesting sc a ^^ k"
      by (auto simp: nesting_def)
    then have "t = s \<or> (\<exists>k. 0 < k \<and> k \<le> n \<and> (Set t, Set s) \<in> nesting sc a ^^ k)"
      using k(1) by (cases "k = 0") (simp, blast)
    with t(1) show "\<exists>t. (sc, x, t) \<in> set (members a) \<and>
        (t = s \<or> (\<exists>k. 0 < k \<and> k \<le> n \<and> (Set t, Set s) \<in> nesting sc a ^^ k))"
      by blast
  qed
  also have "\<dots> \<longleftrightarrow> (\<exists>k. 0 < k \<and> k \<le> Suc n \<and> (x, Set s) \<in> nesting sc a ^^ k)"
    by (metis Suc_le_mono gr0_implies_Suc relpow_commute relpow.simps(2) zero_less_Suc)
  finally show ?case .
qed simp

lemma covers_iff_trancl: "covers sc a (Set s) f \<longleftrightarrow> (Sys f, Set s) \<in> (nesting sc a)\<^sup>+"
proof -
  have img: "nesting sc a \<subseteq> (\<lambda>(_, x, s). (x, Set s)) ` set (members a)"
    by (force simp: nesting_def)
  then have fin: "finite (nesting sc a)" by (rule finite_subset) simp
  have "card (nesting sc a) \<le> card (set (members a))" using img by (rule surj_card_le [OF finite_set])
  also have "\<dots> \<le> length (members a)" by (rule card_length)
  finally have le: "card (nesting sc a) \<le> length (members a)" .
  show ?thesis
  proof
    assume "covers sc a (Set s) f"
    then obtain k where "0 < k" "(Sys f, Set s) \<in> nesting sc a ^^ k" by (auto simp: covers_def set_sets_above)
    then show "(Sys f, Set s) \<in> (nesting sc a)\<^sup>+" by (metis trancl_power)
  next
    assume "(Sys f, Set s) \<in> (nesting sc a)\<^sup>+"
    then obtain k where "0 < k" "k \<le> card (nesting sc a)" "(Sys f, Set s) \<in> nesting sc a ^^ k"
      unfolding trancl_finite_eq_relpow [OF fin] by auto
    then show "covers sc a (Set s) f" using le by (auto simp: covers_def set_sets_above intro: exI [of _ k])
  qed
qed

lemma covers_Sys [simp]: "covers sc a (Sys g) f \<longleftrightarrow> g = f"
  by (simp add: covers_def)

lemma covers_in_set: "(sc, Sys f, s) \<in> set (members a) \<Longrightarrow> covers sc a (Set s) f"
  unfolding covers_iff_trancl by (rule r_into_trancl) (auto simp: nesting_def)

lemma covers_nested: "covers sc a (Set s) f \<Longrightarrow> (sc, Set s, t) \<in> set (members a) \<Longrightarrow> covers sc a (Set t) f"
  unfolding covers_iff_trancl by (erule trancl_into_trancl) (auto simp: nesting_def)

text \<open>A property of sets that every membership hands down holds of all their systems.\<close>

lemma covers_induct:
  assumes "covers sc a (Set s) f" "P (Set s)"
    and "\<And>x t. (sc, x, t) \<in> set (members a) \<Longrightarrow> P (Set t) \<Longrightarrow> P x"
  shows "P (Sys f)"
proof -
  have "(x, y) \<in> (nesting sc a)\<^sup>+ \<Longrightarrow> P y \<Longrightarrow> P x" for x y
    by (induction rule: trancl_induct) (use assms(3) in \<open>auto simp: nesting_def\<close>)
  then show ?thesis using assms(1,2) unfolding covers_iff_trancl by blast
qed

lemma runs_beforeI:
  "(sc, x, y) \<in> set (orders a) \<Longrightarrow> covers sc a x f \<Longrightarrow> covers sc a y g \<Longrightarrow> runs_before sc a f g"
  by (force simp: runs_before_def list_ex_iff)

lemma legal_precedes:
  assumes "legal_order sc a run" "runs_before sc a f g" "f \<noteq> g"
  shows "precedes f g run"
  unfolding precedes_def
proof (intro allI impI)
  fix i j assume ij: "i < length run" "j < length run" "run ! i = f \<and> run ! j = g"
  have "\<not> j < i"
    using assms(1,2) ij unfolding legal_order_def by (metis sorted_wrt_nth_less)
  then show "i < j" using ij assms(3) by (metis linorder_neqE_nat)
qed

section \<open>What the plugins register\<close>

text \<open>One app extends another if it keeps all it has registered; applications only add.\<close>

definition extends :: "app \<Rightarrow> app \<Rightarrow> bool" where
  "extends a b \<longleftrightarrow> set (systems a) \<subseteq> set (systems b) \<and> set (members a) \<subseteq> set (members b)
     \<and> set (orders a) \<subseteq> set (orders b)"

lemma extends_refl [simp]: "extends a a"
  by (simp add: extends_def)

lemma extends_trans: "extends a b \<Longrightarrow> extends b c \<Longrightarrow> extends a c"
  by (auto simp: extends_def)

lemma add_system_sel [simp]:
  "systems (add_system sc x is af a) = systems a @ [(sc, x)]"
  "members (add_system sc x is af a) = members a @ map (\<lambda>s. (sc, Sys x, s)) is"
  "orders (add_system sc x is af a) = orders a @ map (\<lambda>y. (sc, y, Sys x)) af"
  "plugins (add_system sc x is af a) = plugins a"
  by (simp_all add: add_system_def)

lemma configure_set_sel [simp]:
  "systems (configure_set sc x is af a) = systems a"
  "members (configure_set sc x is af a) = members a @ map (\<lambda>s. (sc, Set x, s)) is"
  "orders (configure_set sc x is af a) = orders a @ map (\<lambda>y. (sc, y, Set x)) af"
  "plugins (configure_set sc x is af a) = plugins a"
  by (simp_all add: configure_set_def)

lemma resource_sel [simp]:
  "systems (init_resource r a) = systems a" "systems (insert_resource r a) = systems a"
  "members (init_resource r a) = members a" "members (insert_resource r a) = members a"
  "orders (init_resource r a) = orders a" "orders (insert_resource r a) = orders a"
  "plugins (init_resource r a) = plugins a" "plugins (insert_resource r a) = plugins a"
  by (simp_all add: init_resource_def insert_resource_def)

lemma order_before_sel [simp]:
  "systems (order_before sc x y a) = systems a" "members (order_before sc x y a) = members a"
  "orders (order_before sc x y a) = orders a @ [(sc, x, y)]" "plugins (order_before sc x y a) = plugins a"
  by (simp_all add: order_before_def)

lemma register_sel [simp]:
  "orders (register_global_limits a) = orders a" "orders (register_runtime wasm a) = orders a"
  "members (register_global_limits a) = members a @
     (if GlobalLimitsPlugin \<in> set (plugins a) then []
      else [(Startup, Sys SetLimits, Legacy SetMaxPacketSize), (Update, Sys SetLimits, Legacy SetMaxPacketSize)])"
  "members (register_runtime wasm a) = members a @
     (if NetworkRuntimePlugin \<in> set (plugins a) then [] else [(Startup, Sys InitializeRuntime, RuntimeSetup)])"
  "systems (register_global_limits a) = systems a @
     (if GlobalLimitsPlugin \<in> set (plugins a) then [] else [(Startup, SetLimits), (Update, SetLimits)])"
  "systems (register_runtime wasm a) = systems a @
     (if NetworkRuntimePlugin \<in> set (plugins a) then [] else [(Startup, InitializeRuntime), (Last, StopOnExit)])"
  "plugins (register_global_limits a) =
     (if GlobalLimitsPlugin \<in> set (plugins a) then plugins a else plugins a @ [GlobalLimitsPlugin])"
  "plugins (register_runtime wasm a) =
     (if NetworkRuntimePlugin \<in> set (plugins a) then plugins a else plugins a @ [NetworkRuntimePlugin])"
  by (simp_all add: register_global_limits_def register_runtime_def global_limits_build_def runtime_build_def
      web_runtime_build_def)

lemmas build_simps =
  configure_settings_def configure_receive_def client_configure_receive_def server_configure_receive_def
  client_build_def server_build_def Let_def

text \<open>The memberships and constraints that a plugin adds, apart from what is registered once per app.\<close>

definition receive_sets_of :: "endpoint \<Rightarrow> SystemSets \<times> SystemSets \<times> SystemSets \<times> SystemSets" where
  "receive_sets_of e =
     (case fst e of
        ClientRole \<Rightarrow> (ClientReceive, ClientConnectionEstablish, ClientConnectionRemove, ClientPacketReceive)
      | ServerRole \<Rightarrow> (ServerReceive, ServerAcceptNewConnections, ServerRemoveConnections, ServerAcceptNewPackets))"

definition endpoint_members :: "endpoint \<Rightarrow> bool \<Rightarrow> (schedule \<times> node \<times> system_set) set" where
  "endpoint_members e datagram =
     (case receive_sets_of e of
        (receive, establish, remove, packets) \<Rightarrow>
          {(Startup, Set (NetworkSystems e Settings), Legacy SetMaxPacketSize),
           (Startup, Sys (SyncLimits e), NetworkSystems e Settings),
           (Startup, Sys (WarningSystem e), Legacy MaxPacketSizeWarning),
           (Update, Set (NetworkSystems e Settings), Legacy SetMaxPacketSize),
           (Update, Sys (SyncLimits e), NetworkSystems e Settings),
           (Startup, Sys (SetupSystem e), NetworkSystems e Setup),
           (PreUpdate, Set (NetworkSystems e Receive), Legacy receive),
           (PreUpdate, Set (NetworkSystems e Lifecycle), NetworkSystems e Receive),
           (PreUpdate, Set (NetworkSystems e Lifecycle), Legacy establish),
           (PreUpdate, Set (NetworkSystems e Lifecycle), Legacy remove),
           (PreUpdate, Set (NetworkSystems e Packets), NetworkSystems e Receive),
           (PreUpdate, Set (NetworkSystems e Packets), Legacy packets),
           (PreUpdate, Sys (IncomingSystem e), NetworkSystems e Lifecycle)} \<union>
          (if datagram then {(PreUpdate, Sys (ReceiveDatagramPackets e), NetworkSystems e Packets)}
           else {(PreUpdate, Sys (IncomingSystem e), NetworkSystems e Packets)}))"

definition endpoint_orders :: "bool \<Rightarrow> plugin \<Rightarrow> (schedule \<times> node \<times> node) set" where
  "endpoint_orders wasm p =
     (let e = plugin_endpoint p in
      {(Startup, Set (NetworkSystems e Settings), Set (NetworkSystems e Setup)),
       (Startup, Set RuntimeSetup, Set (NetworkSystems e Setup)),
       (Startup, Set (NetworkSystems e Settings), Sys (WarningSystem e))} \<union>
      (if plugin_datagram p then {(PreUpdate, Set (NetworkSystems e Lifecycle), Set (NetworkSystems e Packets))} else {}) \<union>
      (case p of
         Client _ _ c \<Rightarrow>
           (case cp_address c of Some x \<Rightarrow> {(Startup, Set (NetworkSystems e Setup), Sys (InitialRequest e x))} | None \<Rightarrow> {})
       | Server _ _ _ \<Rightarrow>
           if wasm then {(PreUpdate, Sys (PublishServerAddress e), Set (NetworkSystems e Receive))} else {}))"

definition shared_members :: "(schedule \<times> node \<times> system_set) set" where
  "shared_members =
     {(Startup, Sys SetLimits, Legacy SetMaxPacketSize), (Update, Sys SetLimits, Legacy SetMaxPacketSize),
      (Startup, Sys InitializeRuntime, RuntimeSetup)}"

lemma plugin_members:
  "set (members a) \<union> endpoint_members (plugin_endpoint p) (plugin_datagram p)
     \<subseteq> set (members (plugin_build wasm p a))"
  "set (members (plugin_build wasm p a))
     \<subseteq> set (members a) \<union> endpoint_members (plugin_endpoint p) (plugin_datagram p) \<union> shared_members"
  by (cases p; auto simp: build_simps endpoint_members_def shared_members_def receive_sets_of_def
      split: option.split)+

lemma plugin_orders: "set (orders (plugin_build wasm p a)) = set (orders a) \<union> endpoint_orders wasm p"
  by (cases p; auto simp: build_simps endpoint_orders_def split: option.split)

section \<open>Every app that the plugins build\<close>

definition build_app :: "bool \<Rightarrow> plugin list \<Rightarrow> app" where
  "build_app wasm ps = fold (plugin_build wasm) ps App_new"

lemma plugin_extends: "extends a (plugin_build wasm p a)"
proof -
  have "set (systems a) \<subseteq> set (systems (plugin_build wasm p a))"
    by (cases p; auto simp: build_simps split: option.split)
  then show ?thesis using plugin_members(1) [of a p wasm] plugin_orders [of wasm p a]
    by (simp add: extends_def)
qed

lemma plugins_extend: "extends a (fold (plugin_build wasm) ps a)"
  by (induction ps arbitrary: a) (auto intro: extends_trans plugin_extends)

lemma build_members:
  "(\<Union>p \<in> set ps. endpoint_members (plugin_endpoint p) (plugin_datagram p)) \<subseteq> set (members (build_app wasm ps))"
  "set (members (build_app wasm ps)) \<subseteq>
     (\<Union>p \<in> set ps. endpoint_members (plugin_endpoint p) (plugin_datagram p)) \<union> shared_members"
proof -
  have "set (members a) \<union> (\<Union>p \<in> set ps. endpoint_members (plugin_endpoint p) (plugin_datagram p))
        \<subseteq> set (members (fold (plugin_build wasm) ps a))
      \<and> set (members (fold (plugin_build wasm) ps a)) \<subseteq> set (members a) \<union>
        (\<Union>p \<in> set ps. endpoint_members (plugin_endpoint p) (plugin_datagram p)) \<union> shared_members" for a
  proof (induction ps arbitrary: a)
    case (Cons p ps)
    show ?case using Cons [of "plugin_build wasm p a"] plugin_members [where a = a and p = p and wasm = wasm]
      by auto
  qed simp
  from this [of App_new] show
    "(\<Union>p \<in> set ps. endpoint_members (plugin_endpoint p) (plugin_datagram p)) \<subseteq> set (members (build_app wasm ps))"
    "set (members (build_app wasm ps)) \<subseteq>
       (\<Union>p \<in> set ps. endpoint_members (plugin_endpoint p) (plugin_datagram p)) \<union> shared_members"
    unfolding build_app_def by (simp_all add: App_new_def)
qed

lemma build_orders: "set (orders (build_app wasm ps)) = (\<Union>p \<in> set ps. endpoint_orders wasm p)"
proof -
  have "set (orders (fold (plugin_build wasm) ps a)) = set (orders a) \<union> (\<Union>p \<in> set ps. endpoint_orders wasm p)" for a
    by (induction ps arbitrary: a) (auto simp: plugin_orders)
  from this [of App_new] show ?thesis by (simp add: build_app_def App_new_def)
qed

text \<open>The runtime is initialized by one system, however many endpoints ask for it.\<close>

lemma runtime_registered:
  assumes "ps \<noteq> []"
  shows "(Startup, Sys InitializeRuntime, RuntimeSetup) \<in> set (members (build_app wasm ps))"
    and "count_list (systems (build_app wasm ps)) (Startup, InitializeRuntime) = 1"
proof -
  let ?ok = "\<lambda>a. (NetworkRuntimePlugin \<in> set (plugins a) \<longrightarrow> (Startup, Sys InitializeRuntime, RuntimeSetup) \<in> set (members a))
    \<and> count_list (systems a) (Startup, InitializeRuntime) = (if NetworkRuntimePlugin \<in> set (plugins a) then 1 else 0)"
  have step: "?ok a \<Longrightarrow> ?ok (plugin_build wasm p a) \<and> NetworkRuntimePlugin \<in> set (plugins (plugin_build wasm p a))" for p a
    by (cases p; auto simp: build_simps split: option.split)
  have "?ok a \<Longrightarrow> ?ok (fold (plugin_build wasm) qs a)
      \<and> (qs \<noteq> [] \<or> NetworkRuntimePlugin \<in> set (plugins a) \<longrightarrow>
          NetworkRuntimePlugin \<in> set (plugins (fold (plugin_build wasm) qs a)))" for qs a
  proof (induction qs arbitrary: a)
    case (Cons q qs)
    then show ?case using step [OF Cons.prems, of q] by simp
  qed simp
  from this [of App_new ps] assms show
    "(Startup, Sys InitializeRuntime, RuntimeSetup) \<in> set (members (build_app wasm ps))"
    "count_list (systems (build_app wasm ps)) (Startup, InitializeRuntime) = 1"
    unfolding build_app_def by (simp_all add: App_new_def)
qed

lemma extends_covers: "extends a b \<Longrightarrow> covers sc a x f \<Longrightarrow> covers sc b x f"
proof (cases x)
  case (Set s)
  assume "extends a b"
  then have "nesting sc a \<subseteq> nesting sc b" by (auto simp: nesting_def extends_def)
  moreover assume "covers sc a x f"
  ultimately show ?thesis unfolding Set covers_iff_trancl by (metis trancl_mono)
qed simp

lemma extends_runs_before: "extends a b \<Longrightarrow> runs_before sc a f g \<Longrightarrow> runs_before sc b f g"
proof -
  assume ext: "extends a b" and "runs_before sc a f g"
  then obtain x y where "(sc, x, y) \<in> set (orders a)" "covers sc a x f" "covers sc a y g"
    by (auto simp: runs_before_def list_ex_iff)
  then show ?thesis
    using ext by (intro runs_beforeI [where x = x and y = y] extends_covers [OF ext]) (auto simp: extends_def)
qed

lemma legal_runs: "legal_order sc a run \<Longrightarrow> set run = set (scheduled sc a)"
  unfolding legal_order_def by (metis set_mset_mset)

lemma scheduled_iff: "f \<in> set (scheduled sc a) \<longleftrightarrow> (sc, f) \<in> set (systems a)"
  by (force simp: scheduled_def)

lemma plugin_built: "p \<in> set ps \<Longrightarrow> \<exists>a. extends (plugin_build wasm p a) (build_app wasm ps)"
proof -
  assume "p \<in> set ps"
  then obtain qs rs where "ps = qs @ p # rs" by (meson split_list)
  then show ?thesis unfolding build_app_def by (auto intro: plugins_extend)
qed

definition plugin_systems :: "plugin \<Rightarrow> (schedule \<times> sys) set" where
  "plugin_systems p =
     (let e = plugin_endpoint p in
      {(Startup, SyncLimits e), (Startup, WarningSystem e), (Update, SyncLimits e), (Startup, SetupSystem e),
       (PreUpdate, IncomingSystem e)} \<union>
      (if plugin_datagram p then {(PreUpdate, ReceiveDatagramPackets e)} else {}) \<union>
      (case p of
         Client _ _ c \<Rightarrow> (case cp_address c of Some x \<Rightarrow> {(Startup, InitialRequest e x)} | None \<Rightarrow> {})
       | Server _ _ _ \<Rightarrow> {}))"

lemma plugin_registers: "plugin_systems p \<subseteq> set (systems (plugin_build wasm p a))"
  by (cases p; auto simp: build_simps plugin_systems_def split: option.split)

lemma build_registers:
  assumes "p \<in> set ps" "extends (build_app wasm ps) a" "legal_order sc a run" "(sc, f) \<in> plugin_systems p"
  shows "f \<in> set run"
proof -
  obtain b where "extends (plugin_build wasm p b) (build_app wasm ps)" using plugin_built [OF assms(1)] by blast
  then have "(sc, f) \<in> set (systems a)"
    using plugin_registers [of p wasm b] assms(2,4) unfolding extends_def by blast
  then show ?thesis unfolding legal_runs [OF assms(3)] scheduled_iff .
qed

lemma build_covers:
  assumes "p \<in> set ps" "e = plugin_endpoint p"
  shows "covers Startup (build_app wasm ps) (Set (NetworkSystems e Settings)) (SyncLimits e)"
    "covers Startup (build_app wasm ps) (Set (NetworkSystems e Setup)) (SetupSystem e)"
    "covers Startup (build_app wasm ps) (Set RuntimeSetup) InitializeRuntime"
    "covers PreUpdate (build_app wasm ps) (Set (NetworkSystems e Lifecycle)) (IncomingSystem e)"
    "covers PreUpdate (build_app wasm ps) (Set (NetworkSystems e Receive)) (IncomingSystem e)"
    "plugin_datagram p \<Longrightarrow> covers PreUpdate (build_app wasm ps) (Set (NetworkSystems e Packets)) (ReceiveDatagramPackets e)"
    "plugin_datagram p \<Longrightarrow> covers PreUpdate (build_app wasm ps) (Set (NetworkSystems e Receive)) (ReceiveDatagramPackets e)"
    "\<not> plugin_datagram p \<Longrightarrow> covers PreUpdate (build_app wasm ps) (Set (NetworkSystems e Packets)) (IncomingSystem e)"
proof -
  let ?b = "build_app wasm ps"
  have m: "x \<in> endpoint_members e (plugin_datagram p) \<Longrightarrow> x \<in> set (members ?b)" for x
    using build_members(1) [of ps wasm] assms by blast
  show "covers Startup ?b (Set RuntimeSetup) InitializeRuntime"
    using assms by (intro covers_in_set runtime_registered) auto
  show "covers Startup ?b (Set (NetworkSystems e Settings)) (SyncLimits e)"
    "covers Startup ?b (Set (NetworkSystems e Setup)) (SetupSystem e)"
    by (rule covers_in_set, rule m, simp add: endpoint_members_def split: prod.split)+
  show l: "covers PreUpdate ?b (Set (NetworkSystems e Lifecycle)) (IncomingSystem e)"
    by (rule covers_in_set, rule m, simp add: endpoint_members_def split: prod.split)
  show "covers PreUpdate ?b (Set (NetworkSystems e Receive)) (IncomingSystem e)"
    by (rule covers_nested [OF l], rule m, simp add: endpoint_members_def split: prod.split)
  show r: "covers PreUpdate ?b (Set (NetworkSystems e Packets)) (ReceiveDatagramPackets e)" if "plugin_datagram p"
    by (rule covers_in_set, rule m, use that in \<open>simp add: endpoint_members_def split: prod.split\<close>)
  show "covers PreUpdate ?b (Set (NetworkSystems e Receive)) (ReceiveDatagramPackets e)" if "plugin_datagram p"
    by (rule covers_nested [OF r [OF that]], rule m, simp add: endpoint_members_def split: prod.split)
  show "covers PreUpdate ?b (Set (NetworkSystems e Packets)) (IncomingSystem e)" if "\<not> plugin_datagram p"
    by (rule covers_in_set, rule m, use that in \<open>simp add: endpoint_members_def split: prod.split\<close>)
qed

lemma build_runs_before:
  assumes "p \<in> set ps" "(sc, x, y) \<in> endpoint_orders wasm p"
    and "covers sc (build_app wasm ps) x f" "covers sc (build_app wasm ps) y g"
    and "extends (build_app wasm ps) a" "legal_order sc a run" "f \<noteq> g"
  shows "precedes f g run"
proof -
  have "runs_before sc (build_app wasm ps) f g"
    using assms(1-4) build_orders [of wasm ps] by (intro runs_beforeI) blast+
  then show ?thesis using assms(5-7) by (blast intro: legal_precedes extends_runs_before)
qed

section \<open>Properties\<close>

text \<open>
  (C22) Start-up order. Take the app that any list of client and server plugins builds, and whatever the
  application registers besides. In every order in which the scheduler may then run \<open>Startup\<close>, each
  endpoint's receive limits are synchronized and the runtime is initialized before the endpoint's
  set-up, the warning about a missing limit comes after the limits, and the connection request of a
  client plugin with an address is triggered after the set-up that installs its observer. All these
  systems do run, and the runtime is initialized by exactly one system of the plugins.
\<close>

theorem startup_order:
  assumes "p \<in> set ps" and "extends (build_app wasm ps) a" and "legal_order Startup a run"
    and "e = plugin_endpoint p"
  shows "precedes (SyncLimits e) (SetupSystem e) run \<and> precedes InitializeRuntime (SetupSystem e) run
     \<and> precedes (SyncLimits e) (WarningSystem e) run
     \<and> {SyncLimits e, WarningSystem e, SetupSystem e, InitializeRuntime} \<subseteq> set run
     \<and> (\<forall>cfg d c x. p = Client cfg d c \<and> cp_address c = Some x \<longrightarrow>
          precedes (SetupSystem e) (InitialRequest e x) run \<and> InitialRequest e x \<in> set run)
     \<and> count_list (systems (build_app wasm ps)) (Startup, InitializeRuntime) = 1"
proof -
  note c = build_covers [OF assms(1,4), of wasm] and before = build_runs_before [OF assms(1) _ _ _ assms(2,3)]
  have o: "(Startup, Set (NetworkSystems e Settings), Set (NetworkSystems e Setup)) \<in> endpoint_orders wasm p"
    "(Startup, Set RuntimeSetup, Set (NetworkSystems e Setup)) \<in> endpoint_orders wasm p"
    "(Startup, Set (NetworkSystems e Settings), Sys (WarningSystem e)) \<in> endpoint_orders wasm p"
    "p = Client cfg d k \<Longrightarrow> cp_address k = Some x \<Longrightarrow>
       (Startup, Set (NetworkSystems e Setup), Sys (InitialRequest e x)) \<in> endpoint_orders wasm p" for cfg d k x
    using assms(4) by (auto simp: endpoint_orders_def Let_def)
  have ne: "ps \<noteq> []" using assms(1) by auto
  have reg: "(Startup, f) \<in> plugin_systems p \<Longrightarrow> f \<in> set run" for f
    by (rule build_registers [OF assms(1-3)])
  have "(Startup, InitializeRuntime) \<in> set (systems (build_app wasm ps))"
    using runtime_registered(2) [OF ne, of wasm] by (metis count_list_0_iff zero_neq_one)
  then have "InitializeRuntime \<in> set run"
    using assms(2) unfolding legal_runs [OF assms(3)] scheduled_iff extends_def by blast
  moreover have "{SyncLimits e, WarningSystem e, SetupSystem e} \<subseteq> set run"
    using reg assms(4) by (simp add: plugin_systems_def Let_def)
  moreover have "p = Client cfg d k \<and> cp_address k = Some x \<Longrightarrow>
      precedes (SetupSystem e) (InitialRequest e x) run \<and> InitialRequest e x \<in> set run" for cfg d k x
    using before [OF o(4) c(2)] reg [of "InitialRequest e x"] assms(4) by (simp add: plugin_systems_def Let_def)
  ultimately show ?thesis
    using before [OF o(1) c(1,2)] before [OF o(2) c(3,2)] before [OF o(3) c(1)] runtime_registered(2) [OF ne]
    by auto
qed


subsection \<open>The constraints can be met and stay local\<close>

text \<open>Every node has a range of ranks: sets contain only ranks of their range, constraints go upwards.\<close>

fun lo :: "(endpoint \<Rightarrow> bool) \<Rightarrow> node \<Rightarrow> nat" and hi :: "(endpoint \<Rightarrow> bool) \<Rightarrow> node \<Rightarrow> nat" where
  "lo D (Sys (WarningSystem _)) = 1"
| "lo D (Sys (SetupSystem _)) = 1"
| "lo D (Sys (InitialRequest _ _)) = 2"
| "lo D (Sys (IncomingSystem _)) = 1"
| "lo D (Sys (ReceiveDatagramPackets _)) = 2"
| "lo D (Sys _) = 0"
| "lo D (Set (NetworkSystems e ph)) = (case ph of Settings \<Rightarrow> 0 | Packets \<Rightarrow> if D e then 2 else 1 | _ \<Rightarrow> 1)"
| "lo D (Set _) = 0"
| "hi D (Sys f) = lo D (Sys f)"
| "hi D (Set (NetworkSystems e ph)) =
     (case ph of Settings \<Rightarrow> 0 | Packets \<Rightarrow> if D e then 2 else 1 | Receive \<Rightarrow> 2 | _ \<Rightarrow> 1)"
| "hi D (Set (Legacy _)) = 5"
| "hi D (Set _) = 0"

definition rank :: "sys \<Rightarrow> nat" where
  "rank f = lo (\<lambda>_. False) (Sys f)"

lemma lo_Sys: "lo D (Sys f) = rank f"
  by (cases f) (auto simp: rank_def)

fun owner :: "node \<Rightarrow> endpoint option" where
  "owner (Sys (SyncLimits e)) = Some e"
| "owner (Sys (WarningSystem e)) = Some e"
| "owner (Sys (SetupSystem e)) = Some e"
| "owner (Sys (InitialRequest e _)) = Some e"
| "owner (Sys (IncomingSystem e)) = Some e"
| "owner (Sys (ReceiveDatagramPackets e)) = Some e"
| "owner (Sys (PublishServerAddress e)) = Some e"
| "owner (Set (NetworkSystems e _)) = Some e"
| "owner _ = None"

lemma endpoint_members_ranked:
  assumes "(sc, x, s) \<in> endpoint_members e (D e)"
  shows "lo D (Set s) \<le> lo D x \<and> hi D x \<le> hi D (Set s) \<and> (owner (Set s) = Some e' \<longrightarrow> owner x = Some e')
     \<and> s \<noteq> RuntimeSetup"
  using assms by (auto simp: endpoint_members_def split: prod.splits if_splits)

lemma endpoint_orders_ranked:
  assumes "(sc, x, y) \<in> endpoint_orders wasm p" "D (plugin_endpoint p) = plugin_datagram p"
  shows "hi D x < lo D y \<and> owner y = Some (plugin_endpoint p)
     \<and> (x = Set RuntimeSetup \<or> owner x = Some (plugin_endpoint p))"
  using assms by (cases p) (auto simp: endpoint_orders_def Let_def split: option.splits if_splits)

lemma build_member_cases:
  assumes "(sc, x, s) \<in> set (members (build_app wasm ps))"
  obtains (endpoint) p where "p \<in> set ps" "(sc, x, s) \<in> endpoint_members (plugin_endpoint p) (plugin_datagram p)"
  | (shared) "(sc, x, s) \<in> shared_members"
  using assms build_members(2) [of wasm ps] by blast

lemma build_before_cases:
  assumes "runs_before sc (build_app wasm ps) f g"
  obtains p x y where "p \<in> set ps" "(sc, x, y) \<in> endpoint_orders wasm p"
    "covers sc (build_app wasm ps) x f" "covers sc (build_app wasm ps) y g"
  using assms build_orders [of wasm ps] by (auto simp: runs_before_def list_ex_iff)

lemma build_ranked:
  assumes "distinct (map plugin_endpoint ps)"
  shows "\<exists>D. (\<forall>sc x f. covers sc (build_app wasm ps) x f \<longrightarrow> lo D x \<le> rank f \<and> rank f \<le> hi D x)
     \<and> (\<forall>(sc, x, y) \<in> set (orders (build_app wasm ps)). hi D x < lo D y)"
proof -
  define D where "D e \<longleftrightarrow> (\<exists>p \<in> set ps. plugin_endpoint p = e \<and> plugin_datagram p)" for e
  have D: "D (plugin_endpoint p) = plugin_datagram p" if "p \<in> set ps" for p
    using assms that unfolding D_def distinct_map by (metis inj_onD)
  have m: "lo D (Set s) \<le> lo D x \<and> hi D x \<le> hi D (Set s)"
    if "(sc, x, s) \<in> set (members (build_app wasm ps))" for sc x s
    using that
  proof (cases rule: build_member_cases)
    case (endpoint p)
    then have "(sc, x, s) \<in> endpoint_members (plugin_endpoint p) (D (plugin_endpoint p))" by (simp add: D)
    then show ?thesis by (blast dest: endpoint_members_ranked)
  qed (auto simp: shared_members_def)
  have "lo D x \<le> rank f \<and> rank f \<le> hi D x" if "covers sc (build_app wasm ps) x f" for sc x f
  proof (cases x)
    case (Set s)
    have "lo D (Set s) \<le> lo D (Sys f) \<and> hi D (Sys f) \<le> hi D (Set s)"
      by (rule covers_induct [where P = "\<lambda>y. lo D (Set s) \<le> lo D y \<and> hi D y \<le> hi D (Set s)",
            OF that [unfolded Set]]) (auto dest: m)
    then show ?thesis by (simp add: Set lo_Sys)
  qed (use that in \<open>simp add: lo_Sys\<close>)
  moreover have "\<forall>(sc, x, y) \<in> set (orders (build_app wasm ps)). hi D x < lo D y"
    unfolding build_orders using endpoint_orders_ranked D by blast
  ultimately show ?thesis by blast
qed

lemma build_legal:
  assumes "distinct (map plugin_endpoint ps)"
  shows "\<exists>run. legal_order sc (build_app wasm ps) run"
proof -
  let ?a = "build_app wasm ps"
  have less: "rank f < rank g" if "runs_before sc ?a f g" for f g
  proof -
    obtain D where D: "\<forall>sc x f. covers sc ?a x f \<longrightarrow> lo D x \<le> rank f \<and> rank f \<le> hi D x"
      "\<forall>(sc, x, y) \<in> set (orders ?a). hi D x < lo D y"
      using build_ranked [OF assms, of wasm] by blast
    from that show ?thesis
    proof (cases rule: build_before_cases)
      case (1 p x y)
      then have "rank f \<le> hi D x" "hi D x < lo D y" "lo D y \<le> rank g"
        using D build_orders [of wasm ps] by blast+
      then show ?thesis by simp
    qed
  qed
  have "sorted_wrt (\<lambda>f g. rank f \<le> rank g) (sort_key rank (scheduled sc ?a))"
    using sorted_sort_key [of rank "scheduled sc ?a"] by (simp add: sorted_wrt_map)
  then have "sorted_wrt (\<lambda>f g. \<not> runs_before sc ?a g f) (sort_key rank (scheduled sc ?a))"
    by (rule sorted_wrt_mono_rel [rotated]) (use less in fastforce)
  then show ?thesis by (auto simp: legal_order_def intro!: exI [of _ "sort_key rank (scheduled sc ?a)"])
qed

lemma build_owner:
  assumes "covers sc (build_app wasm ps) x f" "owner x = Some e"
  shows "owner (Sys f) = Some e"
proof (cases x)
  case (Set s)
  show ?thesis
  proof (rule covers_induct [where P = "\<lambda>y. owner y = Some e", OF assms(1) [unfolded Set]])
    fix y t assume "(sc, y, t) \<in> set (members (build_app wasm ps))" "owner (Set t) = Some e"
    then show "owner y = Some e"
      by (cases rule: build_member_cases)
        (use endpoint_members_ranked [where D = "\<lambda>_. plugin_datagram p" for p] in \<open>blast, auto simp: shared_members_def\<close>)
  qed (use assms(2) Set in simp)
qed (use assms in simp)

lemma build_runtime_only:
  assumes "covers sc (build_app wasm ps) (Set RuntimeSetup) f"
  shows "f = InitializeRuntime"
proof -
  have "Sys f = Sys InitializeRuntime \<or> Sys f = Set RuntimeSetup"
  proof (rule covers_induct [where P = "\<lambda>y. y = Sys InitializeRuntime \<or> y = Set RuntimeSetup", OF assms])
    fix y t assume "(sc, y, t) \<in> set (members (build_app wasm ps))" "Set t = Sys InitializeRuntime \<or> Set t = Set RuntimeSetup"
    then show "y = Sys InitializeRuntime \<or> y = Set RuntimeSetup"
      by (cases rule: build_member_cases)
        (use endpoint_members_ranked [where D = "\<lambda>_. plugin_datagram p" for p] in \<open>blast, auto simp: shared_members_def\<close>)
  qed simp
  then show ?thesis by simp
qed

text \<open>
  The registered order can always be met and stays local. With any plugins of different
  endpoints, stream or datagram, client or server, native or browser, each schedule has an order that
  keeps every constraint; and the only constraints between systems are between two systems of one
  endpoint, or put the runtime's initialization before an endpoint's system, so that one endpoint
  never delays another.
\<close>

theorem schedule_solvable:
  assumes "distinct (map plugin_endpoint ps)"
  shows "(\<exists>run. legal_order sc (build_app wasm ps) run)
     \<and> (runs_before sc (build_app wasm ps) f g \<longrightarrow>
          (\<exists>e. owner (Sys g) = Some e \<and> (owner (Sys f) = Some e \<or> f = InitializeRuntime)))"
proof -
  have "\<exists>e. owner (Sys g) = Some e \<and> (owner (Sys f) = Some e \<or> f = InitializeRuntime)"
    if "runs_before sc (build_app wasm ps) f g"
  proof -
    from that show ?thesis
    proof (cases rule: build_before_cases)
      case (1 p x y)
      from endpoint_orders_ranked [OF 1(2), of "\<lambda>_. plugin_datagram p"] 1(3,4) show ?thesis
        using build_owner build_runtime_only by blast
    qed
  qed
  then show ?thesis using build_legal [OF assms] by blast
qed

subsection \<open>Witnesses\<close>

definition demo_plugins :: "plugin list" where
  "demo_plugins = [Client 1 True \<lparr>cp_address = Some (V4 7 80)\<rparr>, Server 1 False \<lparr>svp_address = V4 0 80\<rparr>]"

theorem startup_order_witness:
  "\<exists>run. legal_order Startup (build_app False demo_plugins) run
     \<and> precedes (SetupSystem (ClientRole, 1)) (InitialRequest (ClientRole, 1) (V4 7 80)) run"
proof -
  obtain run where run: "legal_order Startup (build_app False demo_plugins) run"
    using build_legal [of demo_plugins] by (auto simp: demo_plugins_def)
  with startup_order [where p = "hd demo_plugins", OF _ extends_refl run refl] show ?thesis
    by (auto simp: demo_plugins_def)
qed


theorem schedule_solvable_witness: "\<exists>run. legal_order Startup (build_app True demo_plugins) run"
  using schedule_solvable [of demo_plugins Startup True] by (simp add: demo_plugins_def)

end
