(* ===== verification/Library_Serializers.thy ===== *)
theory Library_Serializers
  imports Serializer_Adapter
begin

text \<open>
  The serializers that come with the crate: \<^verbatim>\<open>src/src/serializers/bitcode.rs\<close>, \<^verbatim>\<open>bitcode_serde.rs\<close>,
  \<^verbatim>\<open>bincode.rs\<close> and \<^verbatim>\<open>bincode_serde.rs\<close>. The packages they call are parameters: \<open>encode\<close>, \<open>decode\<close> for
  native bitcode, \<open>ser\<close>, \<open>de\<close> for bitcode's serde support, \<open>encode_to_vec\<close>, \<open>decode_from_slice\<close> for
  bincode, whose decoder also returns how many bytes it has read.
\<close>

section \<open>The serializers\<close>

definition BitcodeSerializer ::
  "('q \<Rightarrow> byte list) \<Rightarrow> (byte list \<Rightarrow> 'be + 'p) \<Rightarrow> ('p, 'q, 'ee, 'be, unit) ReadOnlySerializer"
where
  "BitcodeSerializer encode decode =
     \<lparr>ro_serialize = (\<lambda>packet _. Some (Inr (encode packet))),
      ro_deserialize = (\<lambda>bytes _. Some (decode bytes))\<rparr>"

definition BitcodeSerdeSerializer ::
  "('q \<Rightarrow> 'be + byte list) \<Rightarrow> (byte list \<Rightarrow> 'be + 'p) \<Rightarrow> ('p, 'q, 'be, 'be, unit) ReadOnlySerializer"
where
  "BitcodeSerdeSerializer ser de =
     \<lparr>ro_serialize = (\<lambda>packet _. Some (ser packet)),
      ro_deserialize = (\<lambda>bytes _. Some (de bytes))\<rparr>"

record 'cfg BincodeConfig =
  config :: 'cfg

definition BincodeSerializer_default :: "'cfg \<Rightarrow> 'cfg BincodeConfig" where
  "BincodeSerializer_default standard = \<lparr>config = standard\<rparr>"

definition BincodeSerializer ::
  "('q \<Rightarrow> 'cfg \<Rightarrow> 'ee + byte list) \<Rightarrow> (byte list \<Rightarrow> 'cfg \<Rightarrow> 'de + 'p \<times> usize)
     \<Rightarrow> ('p, 'q, 'ee, 'de, 'cfg BincodeConfig) ReadOnlySerializer"
where
  "BincodeSerializer encode_to_vec decode_from_slice =
     \<lparr>ro_serialize = (\<lambda>packet self. Some (encode_to_vec packet (config self))),
      ro_deserialize = (\<lambda>bytes self. Some (map_sum id fst (decode_from_slice bytes (config self))))\<rparr>"

definition BincodeSerdeSerializer_default :: "'cfg \<Rightarrow> 'cfg BincodeConfig" where
  "BincodeSerdeSerializer_default standard = \<lparr>config = standard\<rparr>"

definition BincodeSerdeSerializer ::
  "('q \<Rightarrow> 'cfg \<Rightarrow> 'ee + byte list) \<Rightarrow> (byte list \<Rightarrow> 'cfg \<Rightarrow> 'de + 'p \<times> usize)
     \<Rightarrow> ('p, 'q, 'ee, 'de, 'cfg BincodeConfig) ReadOnlySerializer"
where
  "BincodeSerdeSerializer serde_encode_to_vec serde_decode_from_slice =
     \<lparr>ro_serialize = (\<lambda>packet self. Some (serde_encode_to_vec packet (config self))),
      ro_deserialize = (\<lambda>bytes self. Some (map_sum id fst (serde_decode_from_slice bytes (config self))))\<rparr>"

section \<open>What the packages document\<close>

definition serde_laws :: "('q \<Rightarrow> 'be + byte list) \<Rightarrow> (byte list \<Rightarrow> 'be + 'q) \<Rightarrow> bool" where
  "serde_laws ser de \<longleftrightarrow> (\<forall>p bs. ser p = Inr bs \<longrightarrow> de bs = Inr p)"

definition bincode_laws :: "('q \<Rightarrow> 'cfg \<Rightarrow> 'ee + byte list) \<Rightarrow> (byte list \<Rightarrow> 'cfg \<Rightarrow> 'de + 'q \<times> usize) \<Rightarrow> bool" where
  "bincode_laws en de \<longleftrightarrow>
     (\<forall>p c bs rest. en p c = Inr bs \<longrightarrow> de (bs @ rest) c = Inr (p, length bs))"

section \<open>Packets through an adapter\<close>

fun encode_seq ::
  "'q list \<Rightarrow> ('p, 'q, 'ee, 'de, 'z) SerializerAdapter
     \<Rightarrow> ('ee + byte list) option list \<times> ('p, 'q, 'ee, 'de, 'z) SerializerAdapter"
where
  "encode_seq [] a = ([], a)"
| "encode_seq (p # ps) a =
     (case adapter_serialize p a of
        (r, a') \<Rightarrow> (case encode_seq ps a' of (rs, a'') \<Rightarrow> (r # rs, a'')))"

fun decode_seq ::
  "byte list list \<Rightarrow> ('p, 'q, 'ee, 'de, 'z) SerializerAdapter
     \<Rightarrow> ('de + 'p) option list \<times> ('p, 'q, 'ee, 'de, 'z) SerializerAdapter"
where
  "decode_seq [] a = ([], a)"
| "decode_seq (bs # bss) a =
     (case adapter_deserialize bs a of
        (r, a') \<Rightarrow> (case decode_seq bss a' of (rs, a'') \<Rightarrow> (r # rs, a'')))"

lemma encode_seq_ReadOnly: "encode_seq ps (ReadOnly S z) = (map (\<lambda>p. ro_serialize S p z) ps, ReadOnly S z)"
  by (induction ps) (simp_all add: adapter_serialize_def)

lemma decode_seq_ReadOnly: "decode_seq bss (ReadOnly S z) = (map (\<lambda>bs. ro_deserialize S bs z) bss, ReadOnly S z)"
  by (induction bss) (simp_all add: adapter_deserialize_def)

text \<open>
  A pair of codecs is safe over datagrams when every delivery is decoded to the packet it was made
  from, whatever was lost, repeated or reordered before: \<open>ks\<close> lists the deliveries.
\<close>

definition datagram_safe ::
  "('x, 'q, 'ee, 'xe, 'z) ReadOnlySerializer \<Rightarrow> 'z \<Rightarrow> ('q, 'y, 'ye, 'de, 'w) ReadOnlySerializer \<Rightarrow> 'w \<Rightarrow> bool"
where
  "datagram_safe S z S' w \<longleftrightarrow>
     (\<forall>ps bss a ks. encode_seq ps (ReadOnly S z) = (map (Some \<circ> Inr) bss, a) \<and> set ks \<subseteq> {..<length ps} \<longrightarrow>
        decode_seq (map ((!) bss) ks) (ReadOnly S' w) = (map (\<lambda>k. Some (Inr (ps ! k))) ks, ReadOnly S' w))"

lemma datagram_safeI:
  assumes "\<And>p bs. ro_serialize S p z = Some (Inr bs) \<Longrightarrow> ro_deserialize S' bs w = Some (Inr p)"
  shows "datagram_safe S z S' w"
  unfolding datagram_safe_def
proof (intro allI impI, elim conjE)
  fix ps bss a and ks :: "nat list"
  assume e: "encode_seq ps (ReadOnly S z) = (map (Some \<circ> Inr) bss, a)" and ks: "set ks \<subseteq> {..<length ps}"
  then have m: "map (\<lambda>p. ro_serialize S p z) ps = map (Some \<circ> Inr) bss" by (simp add: encode_seq_ReadOnly)
  have "ro_serialize S (ps ! k) z = Some (Inr (bss ! k))" if "k < length ps" for k
    using arg_cong [OF m, of "\<lambda>xs. xs ! k"] arg_cong [OF m, of length] that by simp
  then show "decode_seq (map ((!) bss) ks) (ReadOnly S' w) = (map (\<lambda>k. Some (Inr (ps ! k))) ks, ReadOnly S' w)"
    using assms ks by (auto simp: decode_seq_ReadOnly)
qed

section \<open>Properties\<close>


text \<open>A format that keeps the laws: a byte list after its length.\<close>

definition demo_enc :: "byte list \<Rightarrow> unit \<Rightarrow> unit + byte list" where
  "demo_enc p _ = (if length p < 256 then Inr (of_nat (length p) # p) else Inl ())"

definition demo_dec :: "byte list \<Rightarrow> unit \<Rightarrow> unit + byte list \<times> usize" where
  "demo_dec bs _ =
     (case bs of
        [] \<Rightarrow> Inl ()
      | n # r \<Rightarrow> if unat n \<le> length r then Inr (take (unat n) r, Suc (unat n)) else Inl ())"

lemma demo_bincode_laws: "bincode_laws demo_enc demo_dec"
  by (auto simp: bincode_laws_def demo_enc_def demo_dec_def unat_of_nat split: if_splits)


end
