(* ===== verification/App_Sessions.thy ===== *)
theory App_Sessions
  imports Udp_Settings "HOL-Library.AList"
begin

text \<open>
  Application sessions over one UDP peer: \<^verbatim>\<open>src/examples/udp_application_sessions/session.rs\<close>, the
  protocol the crate documents for applications that need sessions above its connectionless
  transport. The \<open>HashMap\<close> of entries is an association list with distinct channels; an \<open>Instant\<close> is a
  number of nanoseconds.
\<close>

section \<open>Data\<close>

datatype Body = Hello | Welcome | Data "byte list" | Ping | Close

record Packet =
  channel :: byte
  generation :: u64
  pk_id :: "byte list"
  body :: Body

record Entry =
  e_generation :: u64
  e_id :: "byte list"
  last_received :: instant
  active :: bool

type_synonym Sessions = "(byte \<times> Entry) list"

section \<open>Operations\<close>

text \<open>A \<open>Hello\<close>: refreshes the current generation, opens a newer one, refuses everything else.\<close>

definition handle_hello :: "Packet \<Rightarrow> instant \<Rightarrow> Sessions \<Rightarrow> Packet option \<times> Sessions" where
  "handle_hello p at s =
     (let welcome = Some (p\<lparr>body := Welcome\<rparr>);
          opened = AList.update (channel p) \<lparr>e_generation = generation p, e_id = pk_id p, last_received = at, active = True\<rparr> s
      in case map_of s (channel p) of
           Some e \<Rightarrow>
             if generation p < e_generation e then (None, s)
             else if generation p = e_generation e then
               (if e_id e \<noteq> pk_id p \<or> \<not> active e then (None, s)
                else (welcome, AList.update (channel p) (e\<lparr>last_received := max (last_received e) at\<rparr>) s))
             else (welcome, opened)
         | None \<Rightarrow> if 8 \<le> length s then (None, s) else (welcome, opened))"

definition handle :: "Packet \<Rightarrow> instant \<Rightarrow> Sessions \<Rightarrow> Packet option \<times> Sessions" where
  "handle p at s =
     (if pk_id p = [] \<or> 128 < length (pk_id p) then (None, s)
      else if body p = Hello then handle_hello p at s
      else case map_of s (channel p) of
        None \<Rightarrow> (None, s)
      | Some e \<Rightarrow>
          if e_generation e \<noteq> generation p \<or> e_id e \<noteq> pk_id p then (None, s)
          else if \<not> active e then (if body p = Close then Some p else None, s)
          else (case body p of
                  Data _ \<Rightarrow> (Some p, AList.update (channel p) (e\<lparr>last_received := max (last_received e) at\<rparr>) s)
                | Ping \<Rightarrow> (Some p, AList.update (channel p) (e\<lparr>last_received := max (last_received e) at\<rparr>) s)
                | Close \<Rightarrow> (Some p, AList.update (channel p) (e\<lparr>active := False\<rparr>) s)
                | Hello \<Rightarrow> (None, s)
                | Welcome \<Rightarrow> (None, s)))"

definition expire :: "instant \<Rightarrow> nat \<Rightarrow> Sessions \<Rightarrow> Sessions" where
  "expire now timeout s =
     map (\<lambda>(c, e). (c, if timeout \<le> now - last_received e then e\<lparr>active := False\<rparr> else e)) s"

definition has_history :: "Sessions \<Rightarrow> bool" where
  "has_history s \<longleftrightarrow> s \<noteq> []"

definition active_count :: "Sessions \<Rightarrow> nat" where
  "active_count s = length (filter (\<lambda>(c, e). active e) s)"

section \<open>Progress of an entry\<close>

text \<open>
  An entry may only be replaced by one of a newer generation; within a generation the identifier is
  fixed, the receive time moves forward and a session never becomes active again.
\<close>

definition entry_le :: "Entry \<Rightarrow> Entry \<Rightarrow> bool" where
  "entry_le e e' \<longleftrightarrow> e_generation e < e_generation e' \<or>
     e_generation e = e_generation e' \<and> e_id e = e_id e' \<and> last_received e \<le> last_received e'
       \<and> (active e' \<longrightarrow> active e)"

definition sessions_le :: "Sessions \<Rightarrow> Sessions \<Rightarrow> bool" where
  "sessions_le s s' \<longleftrightarrow> (\<forall>c e. map_of s c = Some e \<longrightarrow> (\<exists>e'. map_of s' c = Some e' \<and> entry_le e e'))"

definition sessions_ok :: "Sessions \<Rightarrow> bool" where
  "sessions_ok s \<longleftrightarrow> distinct (map fst s) \<and> length s \<le> 8"

datatype session_op = OpHandle Packet instant | OpExpire instant nat

fun session_step :: "session_op \<Rightarrow> Sessions \<Rightarrow> Sessions" where
  "session_step (OpHandle p at) s = snd (handle p at s)"
| "session_step (OpExpire now timeout) s = expire now timeout s"

lemma entry_le_refl [simp]: "entry_le e e"
  by (simp add: entry_le_def)

lemma entry_le_trans: "entry_le a b \<Longrightarrow> entry_le b c \<Longrightarrow> entry_le a c"
  by (auto simp: entry_le_def)

lemma sessions_le_refl [simp]: "sessions_le s s"
  by (simp add: sessions_le_def)

lemma sessions_le_trans: "sessions_le a b \<Longrightarrow> sessions_le b c \<Longrightarrow> sessions_le a c"
  unfolding sessions_le_def by (blast intro: entry_le_trans)

lemma sessions_le_update:
  "(\<And>e. map_of s c = Some e \<Longrightarrow> entry_le e e') \<Longrightarrow> sessions_le s (AList.update c e' s)"
  by (auto simp: sessions_le_def update_conv')

lemma update_length: "length (AList.update c e s) = (if c \<in> fst ` set s then length s else Suc (length s))"
  by (induction s) auto

lemma sessions_ok_update:
  "sessions_ok s \<Longrightarrow> map_of s c \<noteq> None \<or> length s < 8 \<Longrightarrow> sessions_ok (AList.update c e s)"
  by (auto simp: sessions_ok_def update_length distinct_update map_of_eq_None_iff)

lemma map_of_expire:
  "map_of (expire now timeout s) c =
     map_option (\<lambda>e. if timeout \<le> now - last_received e then e\<lparr>active := False\<rparr> else e) (map_of s c)"
  by (induction s) (auto simp: expire_def)

lemma handle_keeps: "sessions_le s (snd (handle p at s)) \<and> (sessions_ok s \<longrightarrow> sessions_ok (snd (handle p at s)))"
  by (cases "map_of s (channel p)"; cases "body p")
    (auto simp: handle_def handle_hello_def Let_def entry_le_def
      intro!: sessions_le_update sessions_ok_update)

lemma session_step_keeps: "sessions_le s (session_step op s) \<and> (sessions_ok s \<longrightarrow> sessions_ok (session_step op s))"
proof (cases op)
  case (OpExpire now timeout)
  have "map fst (expire now timeout s) = map fst s" "length (expire now timeout s) = length s"
    by (auto simp: expire_def)
  then show ?thesis
    using OpExpire by (auto simp: sessions_le_def map_of_expire entry_le_def sessions_ok_def)
qed (use handle_keeps in simp)

section \<open>Properties\<close>

text \<open>
  (C37) Replay protection of application sessions. Over any sequence of packets and expiries at most
  eight channels are recorded; a channel's generation never goes back, and within a generation its
  identifier is fixed, its receive time never moves backwards and a closed or expired session is
  never revived. So once a channel has reached a generation, a packet of an older one, or of the same
  one with another identifier, is refused and changes nothing, and a closed generation answers only
  a repeated close.
\<close>

theorem sessions_replay_safe:
  assumes "sessions_ok s" and "s' = fold session_step ops s"
    and "map_of s c = Some e" "channel p = c"
  shows "sessions_ok s' \<and> sessions_le s s'
     \<and> (generation p < e_generation e \<longrightarrow> handle p at s' = (None, s'))
     \<and> (generation p = e_generation e \<and> pk_id p \<noteq> e_id e \<longrightarrow> handle p at s' = (None, s'))
     \<and> (generation p = e_generation e \<and> \<not> active e \<longrightarrow>
          snd (handle p at s') = s' \<and> (body p \<noteq> Close \<longrightarrow> fst (handle p at s') = None))"
proof -
  have keep: "sessions_le s (fold session_step ops s) \<and> (sessions_ok s \<longrightarrow> sessions_ok (fold session_step ops s))"
    for s
    by (induction ops arbitrary: s) (auto intro: sessions_le_trans session_step_keeps [THEN conjunct1]
        session_step_keeps [THEN conjunct2, THEN mp])
  then obtain e' where e': "map_of s' c = Some e'" "entry_le e e'"
    using assms(2,3) unfolding sessions_le_def by blast
  have "handle p at s' = (None, s')"
    if "generation p < e_generation e \<or> generation p = e_generation e \<and> pk_id p \<noteq> e_id e"
    using that e' assms(4) by (auto simp: handle_def handle_hello_def Let_def entry_le_def)
  moreover have "snd (handle p at s') = s' \<and> (body p \<noteq> Close \<longrightarrow> fst (handle p at s') = None)"
    if "generation p = e_generation e" "\<not> active e"
    using that e' assms(4) by (auto simp: handle_def handle_hello_def Let_def entry_le_def)
  ultimately show ?thesis using keep assms(1,2) by blast
qed

definition demo_hello :: Packet where
  "demo_hello = \<lparr>channel = 1, generation = 2, pk_id = [7], body = Hello\<rparr>"

theorem sessions_replay_safe_witness:
  "\<exists>s'. s' = fold session_step [OpHandle demo_hello 5, OpHandle (demo_hello\<lparr>body := Close\<rparr>) 6]
         [(1, \<lparr>e_generation = 1, e_id = [9], last_received = 0, active = True\<rparr>)]
     \<and> map_of s' 1 = Some \<lparr>e_generation = 2, e_id = [7], last_received = 5, active = False\<rparr>
     \<and> handle (demo_hello\<lparr>generation := 0\<rparr>) 9 s' = (None, s')"
proof -
  let ?s = "[(1, \<lparr>e_generation = 1, e_id = [9], last_received = 0, active = True\<rparr>)] :: Sessions"
  let ?ops = "[OpHandle demo_hello 5, OpHandle (demo_hello\<lparr>body := Close\<rparr>) 6]"
  have "map_of (fold session_step ?ops ?s) 1 = Some \<lparr>e_generation = 2, e_id = [7], last_received = 5, active = False\<rparr>"
    by (simp add: handle_def handle_hello_def demo_hello_def)
  moreover have "handle (demo_hello\<lparr>generation := 0\<rparr>) 9 (fold session_step ?ops ?s) = (None, fold session_step ?ops ?s)"
    using sessions_replay_safe [where s = ?s and ops = ?ops and c = 1 and p = "demo_hello\<lparr>generation := 0\<rparr>"
        and e = "\<lparr>e_generation = 1, e_id = [9], last_received = 0, active = True\<rparr>" and at = 9, OF _ refl]
    by (simp add: sessions_ok_def demo_hello_def)
  ultimately show ?thesis by blast
qed

end
