(* ===== verification/Session_Protocol.thy ===== *)
theory Session_Protocol
  imports App_Sessions Ecs_Connection
begin

text \<open>
  The application handshake of \<^verbatim>\<open>src/examples/udp_application_sessions.rs\<close>: the server's table of peers,
  the client's requests with their retries, and both ends together over a network that may lose,
  repeat and reorder packets. A connection is its identifier; the connections that a handler
  disconnects are an output. The clock, the random identifiers and the outcome of each \<open>send\<close> are
  arguments.
\<close>

section \<open>The server\<close>

definition RETRY :: nat where "RETRY = 50000000"
definition IDLE :: nat where "IDLE = 500000000"
definition DEADLINE :: nat where "DEADLINE = 5000000000"
definition MAX_PEERS :: usize where "MAX_PEERS = 64"

record SessionPeer =
  sp_connection :: ConnectionId
  sp_sessions :: Sessions
  sp_created :: instant

type_synonym ServerSessions = "(SocketAddr \<times> SessionPeer) list"

definition new_peer ::
  "SocketAddr \<Rightarrow> ConnectionId \<Rightarrow> instant \<Rightarrow> ServerSessions \<Rightarrow> ServerSessions \<times> ConnectionId list"
where
  "new_peer address conn now st =
     (case map_of st address of
        Some peer \<Rightarrow> (AList.update address (peer\<lparr>sp_connection := conn, sp_created := now\<rparr>) st, [])
      | None \<Rightarrow>
          if length st < MAX_PEERS
          then (AList.update address \<lparr>sp_connection = conn, sp_sessions = [], sp_created = now\<rparr> st, [])
          else (st, [conn]))"

definition server_packet ::
  "SocketAddr \<Rightarrow> Packet \<Rightarrow> instant \<Rightarrow> ServerSessions \<Rightarrow> Packet option \<times> ServerSessions"
where
  "server_packet address p received_at st =
     (case map_of st address of
        None \<Rightarrow> (None, st)
      | Some peer \<Rightarrow>
          (case handle p received_at (sp_sessions peer) of
             (reply, s) \<Rightarrow> (reply, AList.update address (peer\<lparr>sp_sessions := s\<rparr>) st)))"

text \<open>\<open>retain\<close> of \<open>expire_peers\<close>, one peer at a time.\<close>

fun expire_peers :: "instant \<Rightarrow> ServerSessions \<Rightarrow> ServerSessions \<times> ConnectionId list" where
  "expire_peers now [] = ([], [])"
| "expire_peers now ((address, peer) # st) =
     (case expire_peers now st of
        (st', closed) \<Rightarrow>
          (let peer' = peer\<lparr>sp_sessions := expire now IDLE (sp_sessions peer)\<rparr> in
           if active_count (sp_sessions peer') = 0 \<and> IDLE \<le> now - sp_created peer'
           then (if has_history (sp_sessions peer') then (address, peer') # st' else st',
                 sp_connection peer' # closed)
           else ((address, peer') # st', closed)))"

section \<open>The client\<close>

datatype Phase = Initial | Replacement | Echo | Closing | Done

record Request =
  old :: Packet
  current_packet :: Packet
  phase :: Phase
  last_sent :: "instant option"

definition matches :: "Packet \<Rightarrow> Request \<Rightarrow> bool" where
  "matches p r =
     (let expected = (if phase r = Initial then old r else current_packet r)
      in channel p = channel expected \<and> generation p = generation expected \<and> pk_id p = pk_id expected)"

definition application_data :: "byte list" where
  "application_data = map (\<lambda>c. of_nat (of_char c)) ''application data''"

definition outgoing :: "Request \<Rightarrow> Packet option" where
  "outgoing r =
     (case phase r of
        Initial \<Rightarrow> Some (old r)
      | Replacement \<Rightarrow> Some ((current_packet r)\<lparr>body := Hello\<rparr>)
      | Echo \<Rightarrow> Some ((current_packet r)\<lparr>body := Data application_data\<rparr>)
      | Closing \<Rightarrow> Some ((current_packet r)\<lparr>body := Close\<rparr>)
      | Done \<Rightarrow> None)"

record ClientSessions =
  cs_connection :: "ConnectionId option"
  requests :: "Request list"
  attempts :: usize

definition ready :: "ConnectionId \<Rightarrow> ClientSessions \<Rightarrow> ClientSessions" where
  "ready conn st = st\<lparr>cs_connection := Some conn\<rparr>"

text \<open>
  The loop of \<open>drive_client\<close>: \<open>ok n\<close> is the outcome of the \<open>n\<close>-th send. The first failure ends the
  system; packets sent before it stay sent.
\<close>

fun drive_requests ::
  "instant \<Rightarrow> (nat \<Rightarrow> bool) \<Rightarrow> nat \<Rightarrow> Request list \<Rightarrow> Packet list \<times> Request list \<times> bool"
where
  "drive_requests now ok n [] = ([], [], True)"
| "drive_requests now ok n (r # rs) =
     (if (case last_sent r of Some l \<Rightarrow> now - l < RETRY | None \<Rightarrow> False)
      then (case drive_requests now ok n rs of (ps, rs', b) \<Rightarrow> (ps, r # rs', b))
      else case outgoing r of
        None \<Rightarrow> (case drive_requests now ok n rs of (ps, rs', b) \<Rightarrow> (ps, r # rs', b))
      | Some p \<Rightarrow>
          if ok n
          then (case drive_requests now ok (Suc n) rs of
                  (ps, rs', b) \<Rightarrow> (p # ps, r\<lparr>last_sent := Some now\<rparr> # rs', b))
          else ([], r # rs, False))"

definition drive_client :: "instant \<Rightarrow> (nat \<Rightarrow> bool) \<Rightarrow> ClientSessions \<Rightarrow> Packet list \<times> ClientSessions" where
  "drive_client now ok st =
     (case cs_connection st of
        None \<Rightarrow> ([], st)
      | Some _ \<Rightarrow>
          (case drive_requests now ok 0 (requests st) of
             (ps, rs, b) \<Rightarrow>
               (ps, st\<lparr>requests := rs, attempts := (if b then usize_add (attempts st) (length ps) else attempts st)\<rparr>)))"

definition request_reply :: "Packet \<Rightarrow> Request \<Rightarrow> Request" where
  "request_reply p r =
     (case (body p, phase r) of
        (Welcome, Initial) \<Rightarrow> r\<lparr>phase := Replacement, last_sent := None\<rparr>
      | (Welcome, Replacement) \<Rightarrow> r\<lparr>phase := Echo, last_sent := None\<rparr>
      | (Data d, Echo) \<Rightarrow> if d = application_data then r\<lparr>phase := Closing, last_sent := None\<rparr> else r
      | (Close, Closing) \<Rightarrow> r\<lparr>phase := Done, last_sent := None\<rparr>
      | _ \<Rightarrow> r)"

text \<open>\<open>client_packet\<close>: the first request that the packet matches.\<close>

fun reply_first :: "Packet \<Rightarrow> Request list \<Rightarrow> Request list" where
  "reply_first p [] = []"
| "reply_first p (r # rs) = (if matches p r then request_reply p r # rs else r # reply_first p rs)"

definition client_packet :: "Packet \<Rightarrow> ClientSessions \<Rightarrow> ClientSessions" where
  "client_packet p st = st\<lparr>requests := reply_first p (requests st)\<rparr>"

text \<open>\<open>client_sessions\<close>: \<open>rnd n\<close> is the \<open>n\<close>-th call of \<open>random_id\<close>, for a given size.\<close>

fun build_requests :: "(nat \<Rightarrow> usize \<Rightarrow> io_error + byte list) \<Rightarrow> nat \<Rightarrow> usize list \<Rightarrow> io_error + Request list" where
  "build_requests rnd n [] = Inr []"
| "build_requests rnd n (sz # sizes) =
     (if 255 < n then Inl (IoError Other ''out of range integral type conversion attempted'')
      else case rnd (2 * n) sz of
        Inl e \<Rightarrow> Inl e
      | Inr i \<Rightarrow>
          (case rnd (2 * n + 1) sz of
             Inl e \<Rightarrow> Inl e
           | Inr j \<Rightarrow>
               (case build_requests rnd (Suc n) sizes of
                  Inl e \<Rightarrow> Inl e
                | Inr rs \<Rightarrow>
                    Inr (\<lparr>old = \<lparr>channel = of_nat n, generation = 1, pk_id = i, body = Hello\<rparr>,
                          current_packet = \<lparr>channel = of_nat n, generation = 2, pk_id = j, body = Hello\<rparr>,
                          phase = Initial, last_sent = None\<rparr> # rs))))"

definition client_sessions :: "(nat \<Rightarrow> usize \<Rightarrow> io_error + byte list) \<Rightarrow> usize list \<Rightarrow> io_error + ClientSessions" where
  "client_sessions rnd sizes =
     (case build_requests rnd 0 sizes of
        Inl e \<Rightarrow> Inl e
      | Inr rs \<Rightarrow> Inr \<lparr>cs_connection = None, requests = rs, attempts = 0\<rparr>)"

definition request_connection :: "SocketAddr \<Rightarrow> bool \<Rightarrow> SocketAddr list \<times> bool" where
  "request_connection address requested = (if requested then [] else [address], True)"

datatype app_exit = ExitSuccess | ExitError

text \<open>The exit to write and the connection to disconnect.\<close>

definition finish_demo :: "nat \<Rightarrow> ClientSessions \<Rightarrow> app_exit option \<times> ConnectionId option" where
  "finish_demo elapsed st =
     (if cs_connection st \<noteq> None \<and> (\<forall>r \<in> set (requests st). phase r = Done)
      then (Some ExitSuccess, cs_connection st)
      else if DEADLINE \<le> elapsed then (Some ExitError, None)
      else (None, None))"

section \<open>Both ends over a lossy network\<close>

text \<open>
  The packets ever sent in each direction: whatever was sent may arrive, never, once or often, in any
  order. The client's address is \<open>a\<close>; the table may hold other peers as well.
\<close>

record proto =
  p_server :: ServerSessions
  p_client :: ClientSessions
  to_server :: "Packet set"
  to_client :: "Packet set"

inductive proto_step :: "SocketAddr \<Rightarrow> proto \<Rightarrow> proto \<Rightarrow> bool" for a where
  peer_connects: "proto_step a s (s\<lparr>p_server := fst (new_peer b conn now (p_server s))\<rparr>)"
| client_ready: "proto_step a s (s\<lparr>p_client := ready conn (p_client s)\<rparr>)"
| client_drives: "drive_client now ok (p_client s) = (ps, cs) \<Longrightarrow>
    proto_step a s (s\<lparr>p_client := cs, to_server := to_server s \<union> set ps\<rparr>)"
| server_receives: "p \<in> to_server s \<Longrightarrow> server_packet a p at (p_server s) = (reply, st) \<Longrightarrow>
    proto_step a s (s\<lparr>p_server := st, to_client := to_client s \<union> set_option reply\<rparr>)"
| other_peer: "b \<noteq> a \<Longrightarrow>
    proto_step a s (s\<lparr>p_server := snd (server_packet b p at (p_server s))\<rparr>)"
| client_receives: "p \<in> to_client s \<Longrightarrow> proto_step a s (s\<lparr>p_client := client_packet p (p_client s)\<rparr>)"
| server_expires: "proto_step a s (s\<lparr>p_server := fst (expire_peers now (p_server s))\<rparr>)"

inductive proto_reach :: "SocketAddr \<Rightarrow> ClientSessions \<Rightarrow> proto \<Rightarrow> bool" for a cs where
  start: "proto_reach a cs \<lparr>p_server = [], p_client = cs, to_server = {}, to_client = {}\<rparr>"
| step: "proto_reach a cs s \<Longrightarrow> proto_step a s s' \<Longrightarrow> proto_reach a cs s'"

definition sessions_at :: "SocketAddr \<Rightarrow> ServerSessions \<Rightarrow> Sessions" where
  "sessions_at a st = (case map_of st a of Some peer \<Rightarrow> sp_sessions peer | None \<Rightarrow> [])"

section \<open>What each operation does to a channel\<close>

lemma handle_reply:
  assumes "handle p at s = (Some q, s')"
  shows "channel q = channel p \<and> generation q = generation p \<and> pk_id q = pk_id p
     \<and> (\<exists>e. map_of s' (channel p) = Some e \<and> e_generation e = generation p \<and> e_id e = pk_id p
          \<and> (body q = Close \<longrightarrow> \<not> active e))"
  using assms
  by (cases "map_of s (channel p)"; cases "body p")
    (auto simp: handle_def handle_hello_def Let_def update_conv' split: if_splits)

lemma handle_entry:
  assumes "handle p at s = (r, s')" and "map_of s' c = Some e'"
  shows "(\<exists>e. map_of s c = Some e \<and> e_generation e' = e_generation e \<and> e_id e' = e_id e)
     \<or> c = channel p \<and> e_generation e' = generation p \<and> e_id e' = pk_id p"
  using assms
  by (cases "map_of s (channel p)"; cases "body p")
    (auto simp: handle_def handle_hello_def Let_def update_conv' split: if_splits)

lemma expire_peers_none: "map_of st a = None \<Longrightarrow> map_of (fst (expire_peers now st)) a = None"
  by (induction now st rule: expire_peers.induct) (auto simp: Let_def split: prod.split if_splits)

lemma expire_peers_distinct: "distinct (map fst st) \<Longrightarrow> distinct (map fst (fst (expire_peers now st)))"
proof (induction now st rule: expire_peers.induct)
  case (2 now b peer st)
  then show ?case
    using expire_peers_none [of st b now]
    by (cases "expire_peers now st") (simp add: Let_def map_of_eq_None_iff)
qed simp

lemma map_of_expire_peers:
  "distinct (map fst st) \<Longrightarrow> sessions_at a (fst (expire_peers now st)) = expire now IDLE (sessions_at a st)"
proof (induction st)
  case Nil
  then show ?case by (simp add: sessions_at_def expire_def)
next
  case (Cons x st)
  obtain b peer where x: "x = (b, peer)" by fastforce
  obtain st' cl where e: "expire_peers now st = (st', cl)" by fastforce
  have "map_of st' b = None" "map_of st b = None"
    using Cons.prems expire_peers_none [of st b now] e by (simp_all add: x map_of_eq_None_iff)
  then show ?case
    using Cons.IH Cons.prems e
    by (auto simp: x sessions_at_def Let_def has_history_def)
qed

lemma sessions_at_update [simp]:
  "sessions_at a (AList.update b peer st) = (if a = b then sp_sessions peer else sessions_at a st)"
  by (simp add: sessions_at_def update_conv')

lemma sessions_at_some: "map_of st a = Some peer \<Longrightarrow> sessions_at a st = sp_sessions peer"
  by (simp add: sessions_at_def)

lemma new_peer_sessions: "sessions_at a (fst (new_peer b conn now st)) = sessions_at a st"
  by (auto simp: new_peer_def sessions_at_def update_conv' split: option.splits)

lemma server_packet_sessions:
  "sessions_at a (snd (server_packet b p at st)) =
     (if a = b \<and> map_of st a \<noteq> None then snd (handle p at (sessions_at a st)) else sessions_at a st)"
  by (auto simp: server_packet_def sessions_at_some split: option.splits prod.splits)

lemma server_packet_reply:
  assumes "server_packet a p at st = (Some q, st')"
  shows "handle p at (sessions_at a st) = (Some q, sessions_at a st')"
  using assms by (auto simp: server_packet_def sessions_at_some split: option.splits prod.splits)

lemma server_table_distinct:
  "distinct (map fst st) \<Longrightarrow> distinct (map fst (fst (new_peer b conn now st)))"
  "distinct (map fst st) \<Longrightarrow> distinct (map fst (snd (server_packet b p at st)))"
  by (auto simp: new_peer_def server_packet_def distinct_update split: option.split prod.split)

section \<open>The invariant\<close>

definition current_entry :: "Request \<Rightarrow> Sessions \<Rightarrow> Entry \<Rightarrow> bool" where
  "current_entry r s e \<longleftrightarrow> map_of s (channel (old r)) = Some e
     \<and> e_generation e = generation (current_packet r) \<and> e_id e = pk_id (current_packet r)"

definition known_entries :: "Request \<Rightarrow> Sessions \<Rightarrow> bool" where
  "known_entries r s \<longleftrightarrow> (\<forall>e. map_of s (channel (old r)) = Some e \<longrightarrow>
     e_generation e = generation (old r) \<and> e_id e = pk_id (old r) \<or> current_entry r s e)"

definition sent_ok :: "Request \<Rightarrow> Packet set \<Rightarrow> bool" where
  "sent_ok r ps \<longleftrightarrow> (\<forall>p \<in> ps. channel p = channel (old r) \<longrightarrow>
     p = old r \<or> generation p = generation (current_packet r) \<and> pk_id p = pk_id (current_packet r))"

definition replies_ok :: "Request \<Rightarrow> Packet set \<Rightarrow> Sessions \<Rightarrow> bool" where
  "replies_ok r ps s \<longleftrightarrow> (\<forall>p \<in> ps. channel p = channel (old r) \<and> generation p = generation (current_packet r) \<longrightarrow>
     (\<exists>e. current_entry r s e \<and> (body p = Close \<longrightarrow> \<not> active e)))"

definition phase_ok :: "Request \<Rightarrow> Sessions \<Rightarrow> bool" where
  "phase_ok r s \<longleftrightarrow> (phase r \<in> {Echo, Closing, Done} \<longrightarrow>
     (\<exists>e. current_entry r s e \<and> (phase r = Done \<longrightarrow> \<not> active e)))"

definition req_wf :: "Request \<Rightarrow> bool" where
  "req_wf r \<longleftrightarrow> channel (old r) = channel (current_packet r) \<and> generation (old r) < generation (current_packet r)"

definition req_inv :: "Packet set \<Rightarrow> Packet set \<Rightarrow> Sessions \<Rightarrow> Request \<Rightarrow> bool" where
  "req_inv snt rcv s r \<longleftrightarrow>
     req_wf r \<and> known_entries r s \<and> sent_ok r snt \<and> replies_ok r rcv s \<and> phase_ok r s"

definition proto_inv :: "SocketAddr \<Rightarrow> proto \<Rightarrow> bool" where
  "proto_inv a s \<longleftrightarrow>
     distinct (map fst (p_server s)) \<and> distinct (map (channel \<circ> old) (requests (p_client s))) \<and>
     (\<forall>r \<in> set (requests (p_client s)). req_inv (to_server s) (to_client s) (sessions_at a (p_server s)) r)"

text \<open>The part of the invariant that speaks of the server's table survives its progress.\<close>

lemma current_entry_mono:
  assumes "sessions_le s s'" "known_entries r s'" "req_wf r" "current_entry r s e"
  shows "\<exists>e'. current_entry r s' e' \<and> (\<not> active e \<longrightarrow> \<not> active e')"
proof -
  obtain e' where e': "map_of s' (channel (old r)) = Some e'" "entry_le e e'"
    using assms(1,4) unfolding sessions_le_def current_entry_def by blast
  have "current_entry r s' e'"
    using assms(2-4) e' unfolding known_entries_def req_wf_def current_entry_def entry_le_def by fastforce
  then show ?thesis
    using assms(4) e' unfolding current_entry_def entry_le_def by auto
qed

lemma tables_mono:
  assumes "sessions_le s s'" "known_entries r s'" "req_wf r"
  shows "replies_ok r ps s \<Longrightarrow> replies_ok r ps s'" "phase_ok r s \<Longrightarrow> phase_ok r s'"
  using current_entry_mono [OF assms] unfolding replies_ok_def phase_ok_def by blast+

lemma known_entries_handle:
  assumes "known_entries r s" "sent_ok r ps" "p \<in> ps" "handle p at s = (x, s')"
  shows "known_entries r s'"
  unfolding known_entries_def
proof (intro allI impI)
  fix e' assume e': "map_of s' (channel (old r)) = Some e'"
  from handle_entry [OF assms(4) e'] show "e_generation e' = generation (old r) \<and> e_id e' = pk_id (old r)
      \<or> current_entry r s' e'"
    using assms(1-3) e' unfolding known_entries_def sent_ok_def current_entry_def by auto
qed

lemma req_inv_table:
  "req_inv snt rcv s r \<Longrightarrow> sessions_le s s' \<Longrightarrow> known_entries r s' \<Longrightarrow> req_inv snt rcv s' r"
  unfolding req_inv_def using tables_mono by blast

lemma req_inv_expire: "req_inv snt rcv s r \<Longrightarrow> req_inv snt rcv (expire now t s) r"
proof (rule req_inv_table)
  assume "req_inv snt rcv s r"
  then show "known_entries r (expire now t s)"
    by (auto simp: req_inv_def known_entries_def current_entry_def map_of_expire split: if_splits)
  show "sessions_le s (expire now t s)"
    using session_step_keeps [where op = "OpExpire now t"] by simp
qed

lemma req_inv_handle:
  assumes inv: "req_inv snt rcv s r" and p: "p \<in> snt" and h: "handle p at s = (reply, s')"
  shows "req_inv snt (rcv \<union> set_option reply) s' r"
proof -
  have known: "known_entries r s'"
    using inv p h known_entries_handle unfolding req_inv_def by blast
  have base: "req_inv snt rcv s' r"
    using handle_keeps [of s p "at"] h by (intro req_inv_table [OF inv _ known]) simp
  have "replies_ok r (set_option reply) s'"
    unfolding replies_ok_def
  proof (intro ballI impI)
    fix q assume "q \<in> set_option reply"
      and q: "channel q = channel (old r) \<and> generation q = generation (current_packet r)"
    then have "handle p at s = (Some q, s')" using h by simp
    note hr = handle_reply [OF this]
    have "pk_id p = pk_id (current_packet r)"
      using inv p q hr unfolding req_inv_def sent_ok_def req_wf_def by auto
    then show "\<exists>e. current_entry r s' e \<and> (body q = Close \<longrightarrow> \<not> active e)"
      using hr q unfolding current_entry_def by auto
  qed
  with base show ?thesis unfolding req_inv_def replies_ok_def by blast
qed

subsection \<open>The client's side\<close>

lemma request_reply_keeps [simp]:
  "old (request_reply p r) = old r" "current_packet (request_reply p r) = current_packet r"
  by (auto simp: request_reply_def split: Body.split Phase.split)

lemma req_inv_reply:
  assumes inv: "req_inv snt rcv s r" and p: "p \<in> rcv" "matches p r"
  shows "req_inv snt rcv s (request_reply p r)"
proof -
  have "phase_ok (request_reply p r) s"
  proof (cases "phase r = Initial")
    case True
    then show ?thesis by (auto simp: phase_ok_def request_reply_def split: Body.split)
  next
    case False
    then obtain e where "current_entry r s e" "body p = Close \<longrightarrow> \<not> active e"
      using inv p unfolding req_inv_def replies_ok_def req_wf_def matches_def by (auto simp: Let_def)
    moreover have "phase_ok r s" using inv by (simp add: req_inv_def)
    ultimately show ?thesis
      by (cases "phase r"; cases "body p") (auto simp: phase_ok_def current_entry_def request_reply_def)
  qed
  with inv show ?thesis
    unfolding req_inv_def req_wf_def known_entries_def sent_ok_def replies_ok_def current_entry_def
      request_reply_keeps
    by blast
qed

lemma reply_first_keys: "map (channel \<circ> old) (reply_first p rs) = map (channel \<circ> old) rs"
  by (induction rs) auto

lemma reply_first_cases:
  "r' \<in> set (reply_first p rs) \<Longrightarrow> r' \<in> set rs \<or> (\<exists>r \<in> set rs. matches p r \<and> r' = request_reply p r)"
  by (induction rs) (auto split: if_splits)

lemma outgoing_of:
  assumes "outgoing r = Some p" "req_wf r"
  shows "channel p = channel (old r)
     \<and> (p = old r \<or> generation p = generation (current_packet r) \<and> pk_id p = pk_id (current_packet r))"
  using assms by (cases "phase r") (auto simp: outgoing_def req_wf_def)

lemma drive_requests_keeps:
  assumes "drive_requests now ok n rs = (ps, rs', b)"
  shows "map (channel \<circ> old) rs' = map (channel \<circ> old) rs
     \<and> (\<forall>r' \<in> set rs'. \<exists>r \<in> set rs. r' = r \<or> r' = r\<lparr>last_sent := Some now\<rparr>)
     \<and> (\<forall>p \<in> set ps. \<exists>r \<in> set rs. outgoing r = Some p)"
  using assms
proof (induction now ok n rs arbitrary: ps rs' b rule: drive_requests.induct)
  case (2 now ok n r rs)
  obtain pa ra ba where a: "drive_requests now ok n rs = (pa, ra, ba)" by (rule prod_cases3)
  obtain pb rb bb where b: "drive_requests now ok (Suc n) rs = (pb, rb, bb)" by (rule prod_cases3)
  show ?case
  proof (cases "case last_sent r of Some l \<Rightarrow> now - l < RETRY | None \<Rightarrow> False")
    case True
    then show ?thesis using 2(1) [OF True a] 2(4) a by auto
  next
    case skip: False
    show ?thesis
    proof (cases "outgoing r")
      case None
      then show ?thesis using 2(2) [OF skip None a] 2(4) a skip by auto
    next
      case (Some p)
      then show ?thesis using 2(3) [OF skip Some _ b] 2(4) b skip by (cases "ok n") auto
    qed
  qed
qed simp

lemma req_inv_last_sent [simp]: "req_inv snt rcv s (r\<lparr>last_sent := l\<rparr>) = req_inv snt rcv s r"
  by (simp add: req_inv_def req_wf_def known_entries_def sent_ok_def replies_ok_def phase_ok_def current_entry_def)

lemma distinct_channels:
  "distinct (map (channel \<circ> old) rs) \<Longrightarrow> r \<in> set rs \<Longrightarrow> q \<in> set rs \<Longrightarrow>
     channel (old r) = channel (old q) \<Longrightarrow> r = q"
  by (auto simp: distinct_map inj_on_def)

lemma drive_client_keeps:
  assumes inv: "proto_inv a s" and d: "drive_client now ok (p_client s) = (ps, cs)"
  shows "proto_inv a (s\<lparr>p_client := cs, to_server := to_server s \<union> set ps\<rparr>)"
proof (cases "cs_connection (p_client s)")
  case None
  then show ?thesis using inv d by (simp add: drive_client_def proto_inv_def)
next
  case (Some conn)
  obtain rs b where dr: "drive_requests now ok 0 (requests (p_client s)) = (ps, rs, b)"
    and rs: "requests cs = rs"
    using d Some by (auto simp: drive_client_def split: prod.splits)
  note k = drive_requests_keeps [OF dr]
  have "req_inv (to_server s \<union> set ps) (to_client s) (sessions_at a (p_server s)) r"
    if r: "r \<in> set (requests (p_client s))" for r
  proof -
    have "p = old r \<or> generation p = generation (current_packet r) \<and> pk_id p = pk_id (current_packet r)"
      if p: "p \<in> set ps" "channel p = channel (old r)" for p
    proof -
      obtain q where q: "q \<in> set (requests (p_client s))" "outgoing q = Some p" using k p by blast
      then have "req_wf q" using inv unfolding proto_inv_def req_inv_def by blast
      note o = outgoing_of [OF q(2) this]
      then have "r = q" using inv r q p distinct_channels unfolding proto_inv_def by metis
      then show ?thesis using o by simp
    qed
    then show ?thesis using inv r unfolding proto_inv_def req_inv_def sent_ok_def by blast
  qed
  moreover have "distinct (map (channel \<circ> old) rs)" using inv k by (simp add: proto_inv_def)
  ultimately show ?thesis
    using inv k rs unfolding proto_inv_def by fastforce
qed

theorem proto_step_keeps: "proto_step a s s' \<Longrightarrow> proto_inv a s \<Longrightarrow> proto_inv a s'"
proof (induction rule: proto_step.induct)
  case (client_drives now ok s ps cs)
  then show ?case by (intro drive_client_keeps)
next
  case (server_receives p s "at" reply st)
  show ?case
  proof (cases "map_of (p_server s) a")
    case None
    then show ?thesis using server_receives by (simp add: server_packet_def proto_inv_def)
  next
    case (Some peer)
    then have "handle p at (sessions_at a (p_server s)) = (reply, sessions_at a st)"
      using server_receives(2) by (auto simp: server_packet_def sessions_at_some split: prod.splits)
    then show ?thesis
      using server_receives req_inv_handle server_table_distinct(2) [of "p_server s" a p "at"]
      unfolding proto_inv_def by fastforce
  qed
next
  case (client_receives p s)
  then show ?case
    using reply_first_cases req_inv_reply unfolding proto_inv_def client_packet_def
    by (fastforce simp: reply_first_keys)
next
  case (server_expires s now)
  then show ?case
    by (auto simp: proto_inv_def map_of_expire_peers expire_peers_distinct req_inv_expire)
qed (auto simp: proto_inv_def new_peer_sessions server_table_distinct server_packet_sessions ready_def)

section \<open>The start\<close>

lemma build_requests_wf:
  assumes "build_requests rnd n sizes = Inr rs"
  shows "map (channel \<circ> old) rs = map of_nat [n..<n + length sizes] \<and> (sizes \<noteq> [] \<longrightarrow> n + length sizes \<le> 256)
     \<and> (\<forall>r \<in> set rs. req_wf r \<and> phase r = Initial \<and> body (old r) = Hello
          \<and> (\<exists>k sz. sz \<in> set sizes \<and> rnd (2 * k) sz = Inr (pk_id (old r))
               \<and> rnd (2 * k + 1) sz = Inr (pk_id (current_packet r))))"
  using assms
proof (induction rnd n sizes arbitrary: rs rule: build_requests.induct)
  case (2 rnd n sz sizes)
  obtain i j rs' where n: "n \<le> 255" and ij: "rnd (2 * n) sz = Inr i" "rnd (2 * n + 1) sz = Inr j"
    and rs': "build_requests rnd (Suc n) sizes = Inr rs'"
    and rs: "rs = \<lparr>old = \<lparr>channel = of_nat n, generation = 1, pk_id = i, body = Hello\<rparr>,
                   current_packet = \<lparr>channel = of_nat n, generation = 2, pk_id = j, body = Hello\<rparr>,
                   phase = Initial, last_sent = None\<rparr> # rs'"
    using "2.prems" by (auto split: if_splits sum.splits)
  have "\<not> 255 < n" using n by simp
  note IH = "2.IH" [OF this ij rs']
  have keys: "map of_nat [n..<n + length (sz # sizes)] =
      (of_nat n :: byte) # map of_nat [Suc n..<Suc n + length sizes]"
    by (subst upt_conv_Cons) auto
  have "\<forall>r \<in> set rs'. \<exists>k z. z \<in> set (sz # sizes) \<and> rnd (2 * k) z = Inr (pk_id (old r))
      \<and> rnd (2 * k + 1) z = Inr (pk_id (current_packet r))"
    using IH by (metis list.set_intros(2))
  moreover have "\<exists>k z. z \<in> set (sz # sizes) \<and> rnd (2 * k) z = Inr i \<and> rnd (2 * k + 1) z = Inr j"
    using ij by (metis list.set_intros(1))
  moreover have "n + length (sz # sizes) \<le> 256" using IH n by (cases "sizes = []") auto
  ultimately show ?case
    unfolding keys rs using IH by (simp add: req_wf_def)
qed simp

lemma distinct_bytes: "n \<le> 256 \<Longrightarrow> distinct (map of_nat [0..<n] :: byte list)"
  by (auto simp: distinct_map inj_on_def of_nat_eq_iff unat_of_nat dest!: arg_cong [where f = unat])

lemma proto_inv_start:
  assumes "client_sessions rnd sizes = Inr cs"
  shows "proto_inv a \<lparr>p_server = [], p_client = cs, to_server = {}, to_client = {}\<rparr>"
proof -
  obtain rs where rs: "build_requests rnd 0 sizes = Inr rs" "requests cs = rs"
    using assms by (auto simp: client_sessions_def split: sum.splits)
  note wf = build_requests_wf [OF rs(1)]
  have "length sizes \<le> 256" using wf by (cases "sizes = []") auto
  then have "distinct (map (channel \<circ> old) rs)" using wf distinct_bytes by simp
  then show ?thesis
    using wf rs(2)
    by (simp add: proto_inv_def req_inv_def sessions_at_def known_entries_def sent_ok_def replies_ok_def phase_ok_def)
qed

lemma proto_reach_inv:
  assumes "client_sessions rnd sizes = Inr cs" "proto_reach a cs s"
  shows "proto_inv a s"
  using assms(2)
proof (induction rule: proto_reach.induct)
  case start
  then show ?case by (rule proto_inv_start [OF assms(1)])
next
  case (step s s')
  then show ?case by (blast intro: proto_step_keeps)
qed

section \<open>Agreement\<close>

text \<open>One exchange without loss, for concrete runs.\<close>

definition exchange :: "SocketAddr \<Rightarrow> instant \<Rightarrow> proto \<Rightarrow> proto" where
  "exchange a now s =
     (case drive_client now (\<lambda>_. True) (p_client s) of
        ([], cs) \<Rightarrow> s
      | (p # ps, cs) \<Rightarrow>
          (case server_packet a p now (p_server s) of
             (None, st) \<Rightarrow> s
           | (Some q, st) \<Rightarrow>
               \<lparr>p_server = st, p_client = client_packet q cs,
                to_server = to_server s \<union> set (p # ps), to_client = insert q (to_client s)\<rparr>))"

lemma exchange_reach:
  assumes "proto_reach a cs s"
  shows "proto_reach a cs (exchange a now s)"
proof (cases "\<exists>p ps c q st. drive_client now (\<lambda>_. True) (p_client s) = (p # ps, c)
    \<and> server_packet a p now (p_server s) = (Some q, st)")
  case True
  then obtain p ps c q st where d: "drive_client now (\<lambda>_. True) (p_client s) = (p # ps, c)"
    and h: "server_packet a p now (p_server s) = (Some q, st)" by blast
  let ?s = "s\<lparr>p_client := c, to_server := to_server s \<union> set (p # ps)\<rparr>"
  let ?t = "?s\<lparr>p_server := st, to_client := to_client ?s \<union> set_option (Some q)\<rparr>"
  have "proto_reach a cs ?s" by (rule proto_reach.step [OF assms proto_step.client_drives [OF d]])
  then have "proto_reach a cs ?t"
    by (rule proto_reach.step) (rule proto_step.server_receives, use h in auto)
  then have "proto_reach a cs (?t\<lparr>p_client := client_packet q (p_client ?t)\<rparr>)"
    by (rule proto_reach.step) (rule proto_step.client_receives, simp)
  then show ?thesis using d h by (cases s) (simp add: exchange_def)
next
  case False
  then show ?thesis using assms by (auto simp: exchange_def split: list.split prod.split option.split)
qed

text \<open>
  (C13) Agreement of the application handshake. The network may lose, repeat and reorder packets, the
  server may expire sessions and other peers may come and go: in every reachable state a request of
  the client that has passed the replacement of its session has, at the server, on its own channel,
  an entry of exactly its current generation and identifier, and a request that is done is closed
  there. So when the client reports success, no session of its requests is still active at the
  server.
\<close>

theorem session_agreement:
  assumes "client_sessions rnd sizes = Inr cs" and "proto_reach a cs s"
    and "r \<in> set (requests (p_client s))"
  shows "(phase r \<in> {Echo, Closing, Done} \<longrightarrow>
       (\<exists>e. map_of (sessions_at a (p_server s)) (channel (current_packet r)) = Some e
          \<and> e_generation e = generation (current_packet r) \<and> e_id e = pk_id (current_packet r)
          \<and> (phase r = Done \<longrightarrow> \<not> active e)))
     \<and> (fst (finish_demo elapsed (p_client s)) = Some ExitSuccess \<longrightarrow>
       (\<exists>e. map_of (sessions_at a (p_server s)) (channel (current_packet r)) = Some e
          \<and> e_id e = pk_id (current_packet r) \<and> \<not> active e))"
proof -
  have "req_inv (to_server s) (to_client s) (sessions_at a (p_server s)) r"
    using proto_reach_inv [OF assms(1,2)] assms(3) unfolding proto_inv_def by blast
  then have "phase r \<in> {Echo, Closing, Done} \<longrightarrow>
       (\<exists>e. map_of (sessions_at a (p_server s)) (channel (current_packet r)) = Some e
          \<and> e_generation e = generation (current_packet r) \<and> e_id e = pk_id (current_packet r)
          \<and> (phase r = Done \<longrightarrow> \<not> active e))"
    unfolding req_inv_def phase_ok_def current_entry_def req_wf_def by auto
  moreover have "fst (finish_demo elapsed (p_client s)) = Some ExitSuccess \<Longrightarrow> phase r = Done"
    using assms(3) by (auto simp: finish_demo_def split: if_splits)
  ultimately show ?thesis by auto
qed

definition demo_rnd :: "nat \<Rightarrow> usize \<Rightarrow> io_error + byte list" where
  "demo_rnd n sz = Inr (replicate sz (of_nat n))"

definition demo_client :: ClientSessions where
  "demo_client = (case client_sessions demo_rnd [1] of Inr cs \<Rightarrow> cs
     | Inl _ \<Rightarrow> \<lparr>cs_connection = None, requests = [], attempts = 0\<rparr>)"

definition demo_connected :: "SocketAddr \<Rightarrow> proto" where
  "demo_connected a =
     \<lparr>p_server = [(a, \<lparr>sp_connection = 3, sp_sessions = [], sp_created = 0\<rparr>)],
      p_client = ready 5 demo_client, to_server = {}, to_client = {}\<rparr>"

lemma demo_client: "client_sessions demo_rnd [1] = Inr demo_client"
  by (simp add: demo_client_def client_sessions_def demo_rnd_def)

lemma demo_connected_reach: "proto_reach a demo_client (demo_connected a)"
proof -
  let ?s = "\<lparr>p_server = [], p_client = demo_client, to_server = {}, to_client = {}\<rparr>"
  have "proto_reach a demo_client (?s\<lparr>p_server := fst (new_peer a 3 0 (p_server ?s))\<rparr>)"
    by (rule proto_reach.step [OF proto_reach.start proto_step.peer_connects])
  then have "proto_reach a demo_client
      ((?s\<lparr>p_server := fst (new_peer a 3 0 (p_server ?s))\<rparr>)\<lparr>p_client := ready 5 demo_client\<rparr>)"
    using proto_reach.step proto_step.client_ready by fastforce
  then show ?thesis by (simp add: demo_connected_def new_peer_def MAX_PEERS_def)
qed

definition demo_done :: "SocketAddr \<Rightarrow> proto" where
  "demo_done a = exchange a 4 (exchange a 3 (exchange a 2 (exchange a 1 (demo_connected a))))"

lemma demo_done_requests: "map phase (requests (p_client (demo_done a))) = [Done]"
  by (simp add: demo_done_def exchange_def demo_connected_def demo_client_def client_sessions_def demo_rnd_def
      drive_client_def ready_def outgoing_def server_packet_def handle_def handle_hello_def client_packet_def
      matches_def request_reply_def Let_def)

theorem session_agreement_witness:
  "\<exists>r e. r \<in> set (requests (p_client (demo_done (V4 7 80)))) \<and> phase r = Done
     \<and> map_of (sessions_at (V4 7 80) (p_server (demo_done (V4 7 80)))) (channel (current_packet r)) = Some e \<and> \<not> active e"
proof -
  obtain r where r: "r \<in> set (requests (p_client (demo_done (V4 7 80))))" "phase r = Done"
    using demo_done_requests [of "V4 7 80"] by (cases "requests (p_client (demo_done (V4 7 80)))") auto
  have "proto_reach (V4 7 80) demo_client (demo_done (V4 7 80))"
    unfolding demo_done_def by (intro exchange_reach demo_connected_reach)
  from session_agreement [OF demo_client this r(1)] r show ?thesis by blast
qed

section \<open>Progress\<close>

text \<open>
  One retry of a request: the packet or its answer may be lost. Between retries the server handles
  packets of the peer's other channels.
\<close>

datatype loss = LoseRequest | LoseReply | Deliver

datatype net_event = Retry loss instant | Traffic Packet instant

fun request_event :: "net_event \<Rightarrow> Request \<times> Sessions \<Rightarrow> Request \<times> Sessions" where
  "request_event (Traffic p at) (r, s) = (r, snd (handle p at s))"
| "request_event (Retry l at) (r, s) =
     (case outgoing r of
        None \<Rightarrow> (r, s)
      | Some p \<Rightarrow>
          if l = LoseRequest then (r, s)
          else (case handle p at s of
                  (Some q, s') \<Rightarrow> (if l = Deliver \<and> matches q r then request_reply q r else r, s')
                | (None, s') \<Rightarrow> (r, s')))"

fun delivered :: "net_event \<Rightarrow> bool" where
  "delivered (Retry l _) = (l = Deliver)"
| "delivered (Traffic _ _) = False"

fun phase_number :: "Phase \<Rightarrow> nat" where
  "phase_number Initial = 0"
| "phase_number Replacement = 1"
| "phase_number Echo = 2"
| "phase_number Closing = 3"
| "phase_number Done = 4"

lemma phase_number_le: "phase_number x \<le> 4"
  by (cases x) auto

lemma phase_number_Done: "phase_number x = 4 \<longleftrightarrow> x = Done"
  by (cases x) auto

definition is_entry :: "Packet \<Rightarrow> Entry \<Rightarrow> bool" where
  "is_entry p e \<longleftrightarrow> e_generation e = generation p \<and> e_id e = pk_id p"

definition phase_entry :: "Request \<Rightarrow> Entry option \<Rightarrow> bool" where
  "phase_entry r x =
     (case phase r of
        Initial \<Rightarrow> (\<forall>e. x = Some e \<longrightarrow> is_entry (old r) e \<and> active e)
      | Replacement \<Rightarrow> (\<exists>e. x = Some e \<and> (is_entry (old r) e \<or> is_entry (current_packet r) e) \<and> active e)
      | Echo \<Rightarrow> (\<exists>e. x = Some e \<and> is_entry (current_packet r) e \<and> active e)
      | Closing \<Rightarrow> (\<exists>e. x = Some e \<and> is_entry (current_packet r) e)
      | Done \<Rightarrow> (\<exists>e. x = Some e \<and> is_entry (current_packet r) e \<and> \<not> active e))"

definition id_ok :: "Packet \<Rightarrow> bool" where
  "id_ok p \<longleftrightarrow> pk_id p \<noteq> [] \<and> length (pk_id p) \<le> 128"

definition coherent :: "byte set \<Rightarrow> Request \<Rightarrow> Sessions \<Rightarrow> bool" where
  "coherent C r s \<longleftrightarrow> req_wf r \<and> body (old r) = Hello \<and> id_ok (old r) \<and> id_ok (current_packet r)
     \<and> channel (old r) \<in> C \<and> distinct (map fst s) \<and> fst ` set s \<subseteq> C
     \<and> phase_entry r (map_of s (channel (old r)))"

lemma admission:
  assumes "coherent C r s" "card C \<le> 8" "map_of s (channel (old r)) = None"
  shows "length s < 8"
proof -
  have "length s = card (fst ` set s)"
    using assms(1) distinct_card [of "map fst s"] by (simp add: coherent_def)
  also have "\<dots> < card C"
    using assms(1,3) by (intro psubset_card_mono) (auto simp: coherent_def map_of_eq_None_iff)
  finally show ?thesis using assms(2) by simp
qed

lemma handle_keys:
  "fst ` set (snd (handle p at s)) \<subseteq> insert (channel p) (fst ` set s)
   \<and> (distinct (map fst s) \<longrightarrow> distinct (map fst (snd (handle p at s))))"
  by (cases "map_of s (channel p)"; cases "body p")
    (auto simp: handle_def handle_hello_def Let_def distinct_update dom_update)

lemma handle_other: "c \<noteq> channel p \<Longrightarrow> map_of (snd (handle p at s)) c = map_of s c"
  by (cases "map_of s (channel p)"; cases "body p")
    (auto simp: handle_def handle_hello_def Let_def update_conv')

lemma answered:
  assumes c: "coherent C r s" "card C \<le> 8" and p: "outgoing r = Some p"
  shows "\<exists>q s'. handle p at s = (Some q, s') \<and> matches q r
     \<and> phase_entry r (map_of s' (channel (old r))) \<and> phase_entry (request_reply q r) (map_of s' (channel (old r)))
     \<and> phase_number (phase (request_reply q r)) = Suc (phase_number (phase r))"
proof (cases "phase r")
  case Initial
  then have p: "p = old r" using p by (simp add: outgoing_def)
  show ?thesis
    using c(1) admission [OF c] Initial unfolding p
    by (cases "map_of s (channel (old r))")
      (auto simp: coherent_def handle_def handle_hello_def phase_entry_def is_entry_def id_ok_def
        matches_def request_reply_def update_conv' Let_def)
next
  case Replacement
  then have p: "p = (current_packet r)\<lparr>body := Hello\<rparr>" using p by (simp add: outgoing_def)
  show ?thesis
    using c(1) Replacement unfolding p
    by (auto simp: coherent_def handle_def handle_hello_def phase_entry_def is_entry_def id_ok_def
        matches_def request_reply_def update_conv' Let_def req_wf_def)
next
  case Echo
  then have p: "p = (current_packet r)\<lparr>body := Data application_data\<rparr>" using p by (simp add: outgoing_def)
  show ?thesis
    using c(1) Echo unfolding p
    by (auto simp: coherent_def handle_def phase_entry_def is_entry_def id_ok_def
        matches_def request_reply_def update_conv' Let_def req_wf_def)
next
  case Closing
  then have p: "p = (current_packet r)\<lparr>body := Close\<rparr>" using p by (simp add: outgoing_def)
  show ?thesis
    using c(1) Closing unfolding p
    by (auto simp: coherent_def handle_def phase_entry_def is_entry_def id_ok_def
        matches_def request_reply_def update_conv' Let_def req_wf_def)
qed (use p in \<open>simp add: outgoing_def\<close>)

lemma coherent_handle:
  assumes "coherent C r s" "channel p \<in> C" "handle p at s = (x, s')"
    and "old r' = old r" "current_packet r' = current_packet r"
    and "phase_entry r' (map_of s' (channel (old r)))"
  shows "coherent C r' s'"
proof -
  have "fst ` set s \<subseteq> C" "distinct (map fst s)" using assms(1) by (simp_all add: coherent_def)
  moreover have "fst ` set s' \<subseteq> insert (channel p) (fst ` set s)" "distinct (map fst s) \<longrightarrow> distinct (map fst s')"
    using assms(3) handle_keys [of p "at" s] by simp_all
  ultimately have "fst ` set s' \<subseteq> C" "distinct (map fst s')"
    using assms(2) by (meson insert_subset order_trans subset_insertI insert_subsetI, simp)
  moreover have "req_wf r'" using assms(1,4,5) by (simp add: coherent_def req_wf_def)
  ultimately show ?thesis using assms(1,4-6) by (simp add: coherent_def)
qed

lemma retry_step:
  assumes c: "coherent C r s" "card C \<le> 8" and e: "request_event (Retry l at) (r, s) = (r', s')"
  shows "coherent C r' s' \<and> old r' = old r \<and>
     phase_number (phase r') = (if l = Deliver then min 4 (Suc (phase_number (phase r))) else phase_number (phase r))"
proof (cases "outgoing r")
  case None
  then have "phase r = Done" by (cases "phase r") (auto simp: outgoing_def)
  then show ?thesis using c e None by simp
next
  case (Some p)
  have ch: "channel p \<in> C" using c(1) outgoing_of [OF Some] by (simp add: coherent_def)
  obtain q u where h: "handle p at s = (Some q, u)" and q: "matches q r"
    "phase_entry r (map_of u (channel (old r)))" "phase_entry (request_reply q r) (map_of u (channel (old r)))"
    "phase_number (phase (request_reply q r)) = Suc (phase_number (phase r))"
    using answered [OF c Some] by blast
  have "min 4 (Suc (phase_number (phase r))) = Suc (phase_number (phase r))"
    using q(4) phase_number_le by (metis min.absorb2)
  then show ?thesis
    using e Some h q c(1) coherent_handle [OF c(1) ch h refl refl q(2)]
      coherent_handle [OF c(1) ch h request_reply_keeps q(3)]
    by (cases l) auto
qed

lemma request_events:
  assumes "coherent C r s" "card C \<le> 8"
    and "\<forall>p at. Traffic p at \<in> set evs \<longrightarrow> channel p \<in> C - {channel (old r)}"
    and "fold request_event evs (r, s) = (r', s')"
  shows "coherent C r' s' \<and> old r' = old r
     \<and> phase_number (phase r') = min 4 (phase_number (phase r) + length (filter delivered evs))"
  using assms
proof (induction evs arbitrary: r s)
  case Nil
  then show ?case using phase_number_le by (simp add: min_absorb2)
next
  case (Cons ev evs)
  obtain ra sa where a: "request_event ev (r, s) = (ra, sa)" by fastforce
  have "coherent C ra sa \<and> old ra = old r
      \<and> phase_number (phase ra) = min 4 (phase_number (phase r) + (if delivered ev then 1 else 0))"
  proof (cases ev)
    case (Retry l t)
    then show ?thesis
      using retry_step [OF Cons.prems(1,2), of l t ra sa] a phase_number_le by (auto simp: min_absorb2)
  next
    case (Traffic p t)
    have "channel p \<in> C - {channel (old r)}" using Cons.prems(3) Traffic by (metis list.set_intros(1))
    then have ch: "channel p \<in> C" "channel (old r) \<noteq> channel p" by auto
    have ra: "ra = r" "sa = snd (handle p t s)" using a Traffic by auto
    have "coherent C r (snd (handle p t s))"
      using Cons.prems(1) handle_other [OF ch(2)]
      by (intro coherent_handle [OF Cons.prems(1) ch(1) prod.collapse [symmetric] refl refl])
        (simp add: coherent_def)
    then show ?thesis using ra Traffic phase_number_le by (simp add: min_absorb2)
  qed
  note ev = this
  have "\<forall>p at. Traffic p at \<in> set evs \<longrightarrow> channel p \<in> C - {channel (old ra)}"
    using Cons.prems(3) ev by (metis list.set_intros(2))
  moreover have "fold request_event evs (ra, sa) = (r', s')" using Cons.prems(4) a by simp
  ultimately have "coherent C r' s' \<and> old r' = old ra
      \<and> phase_number (phase r') = min 4 (phase_number (phase ra) + length (filter delivered evs))"
    using Cons.IH Cons.prems(2) ev by blast
  with ev show ?case by (simp del: One_nat_def) linarith
qed

text \<open>
  (C38) The retries of the application handshake succeed. Take a request that the client built from
  identifiers of one to 128 bytes, and a server that has not seen its channel and uses at most eight.
  However many requests and answers are lost, and whatever packets of the other channels come in
  between, the phase the request has reached is the number of retries that got through both ways, at
  most four of them count, and with the fourth the request is done and its session is closed at the
  server. (Sessions do not expire during these retries: a loss that lasts longer than the idle time
  ends a session instead.)
\<close>

theorem session_progress:
  assumes "client_sessions rnd sizes = Inr cs" and "r \<in> set (requests cs)"
    and "\<forall>n sz i. rnd n sz = Inr i \<longrightarrow> length i = sz" and "\<forall>sz \<in> set sizes. 1 \<le> sz \<and> sz \<le> 128"
    and "distinct (map fst s)" "card (insert (channel (old r)) (fst ` set s \<union> others)) \<le> 8"
    and "channel (old r) \<notin> fst ` set s"
    and "\<forall>p at. Traffic p at \<in> set evs \<longrightarrow> channel p \<in> others - {channel (old r)}"
    and "fold request_event evs (r, s) = (r', s')"
  shows "phase_number (phase r') = min 4 (length (filter delivered evs))
     \<and> (4 \<le> length (filter delivered evs) \<longrightarrow> phase r' = Done
          \<and> (\<exists>e. map_of s' (channel (old r)) = Some e \<and> e_generation e = generation (current_packet r')
               \<and> e_id e = pk_id (current_packet r') \<and> \<not> active e))"
proof -
  let ?C = "insert (channel (old r)) (fst ` set s \<union> others)"
  obtain rs where "build_requests rnd 0 sizes = Inr rs" "r \<in> set rs"
    using assms(1,2) by (auto simp: client_sessions_def split: sum.splits)
  note wf = build_requests_wf [OF this(1)] this(2)
  then obtain k sz where "sz \<in> set sizes" "rnd (2 * k) sz = Inr (pk_id (old r))"
    "rnd (2 * k + 1) sz = Inr (pk_id (current_packet r))" by blast
  then have ids: "id_ok (old r)" "id_ok (current_packet r)"
    using assms(3,4) unfolding id_ok_def by fastforce+
  have c: "coherent ?C r s"
    using wf ids assms(5,7) by (auto simp: coherent_def phase_entry_def map_of_eq_None_iff [symmetric])
  have "\<forall>p at. Traffic p at \<in> set evs \<longrightarrow> channel p \<in> ?C - {channel (old r)}"
    using assms(8) by blast
  note final = request_events [OF c assms(6) this assms(9)]
  have "phase r = Initial" using wf by blast
  with final have n: "phase_number (phase r') = min 4 (length (filter delivered evs))" by simp
  have "phase r' = Done \<Longrightarrow> \<exists>e. map_of s' (channel (old r)) = Some e
      \<and> e_generation e = generation (current_packet r') \<and> e_id e = pk_id (current_packet r') \<and> \<not> active e"
    using final unfolding coherent_def phase_entry_def is_entry_def by auto
  with n show ?thesis by (simp add: phase_number_Done [symmetric])
qed

theorem session_progress_witness:
  "phase (fst (fold request_event
      [Retry Deliver 1, Retry LoseReply 2, Retry Deliver 3, Traffic (demo_hello) 3, Retry LoseRequest 4,
       Retry Deliver 5, Retry LoseReply 6, Retry Deliver 7]
      (hd (requests demo_client), []))) = Done"
proof -
  let ?evs = "[Retry Deliver 1, Retry LoseReply 2, Retry Deliver 3, Traffic (demo_hello) 3, Retry LoseRequest 4,
       Retry Deliver 5, Retry LoseReply 6, Retry Deliver 7]"
  have r: "hd (requests demo_client) \<in> set (requests demo_client)" "channel (old (hd (requests demo_client))) = 0"
    by (simp_all add: demo_client_def client_sessions_def demo_rnd_def)
  obtain r' s' where e: "fold request_event ?evs (hd (requests demo_client), []) = (r', s')" by fastforce
  have "4 \<le> length (filter delivered ?evs) \<longrightarrow> phase r' = Done"
    using session_progress [where s = "[]" and others = "{1}" and evs = ?evs, OF demo_client r(1) _ _ _ _ _ _ e] r(2)
    by (simp add: demo_rnd_def demo_hello_def)
  then show ?thesis unfolding e by simp
qed

end
