(* ===== verification/Lobby_Battle.thy ===== *)
theory Lobby_Battle
  imports Ecs_Connection Framing
begin

text \<open>
  The example \<^verbatim>\<open>src/examples/lobby_and_battle_servers.rs\<close>: a client that goes from a TCP lobby to a UDP
  battle and back, with keepalives on both sides. A handler is a function from the resources it
  changes to their new values and the actions it takes; an action is taken even if the \<open>send\<close> behind
  it fails, since no handler does anything after its last send. Bevy's \<open>Timer\<close> is not code of the
  repository: its operations are a parameter.
\<close>

section \<open>Packets\<close>

datatype LobbyClientPacket = LcHello | LcBattle | LcKeepAlive

datatype LobbyServerPacket = LsHello | LsBattleServer SocketAddr | LsKeepAlive

datatype BattleClientPacket = BcPlay | BcResultReceived | BcKeepAlive

datatype BattleServerPacket = BsBroadcastPlayerJoin | BsBattleStart | BsYouWon | BsResultConfirmed | BsKeepAlive

definition LOBBY_SERVER :: SocketAddr where "LOBBY_SERVER = V4 2130706433 3000"
definition BATTLE_SERVER :: SocketAddr where "BATTLE_SERVER = LOBBY_SERVER"

datatype action =
    LobbySend ConnectionId LobbyClientPacket
  | BattleSend ConnectionId BattleClientPacket
  | LobbyReply ConnectionId LobbyServerPacket
  | BattleReply ConnectionId BattleServerPacket
  | Disconnect ConnectionId
  | RequestLobby SocketAddr
  | RequestBattle SocketAddr

section \<open>Timers\<close>

record 'tm timer_ops =
  tm_once :: "nat \<Rightarrow> 'tm"
  tm_reset :: "'tm \<Rightarrow> 'tm"
  tm_tick :: "nat \<Rightarrow> 'tm \<Rightarrow> 'tm"
  tm_just_finished :: "'tm \<Rightarrow> bool"

text \<open>
  What Bevy documents of a timer that runs once: it has a duration and an elapsed time, which ticks
  increase up to the duration and a reset sets back to zero; it has just finished after the tick that
  reached the duration.
\<close>

definition timer_laws :: "'tm timer_ops \<Rightarrow> ('tm \<Rightarrow> nat) \<Rightarrow> ('tm \<Rightarrow> nat) \<Rightarrow> bool" where
  "timer_laws M dur el \<longleftrightarrow>
     (\<forall>d. dur (tm_once M d) = d \<and> el (tm_once M d) = 0) \<and>
     (\<forall>t. dur (tm_reset M t) = dur t \<and> el (tm_reset M t) = 0) \<and>
     (\<forall>d t. dur (tm_tick M d t) = dur t \<and> el (tm_tick M d t) = min (dur t) (el t + d)
        \<and> tm_just_finished M (tm_tick M d t) = (el t < dur t \<and> dur t \<le> el t + d))"

record pair_timer =
  pt_duration :: nat
  pt_elapsed :: nat
  pt_just :: bool

definition pair_timer_ops :: "pair_timer timer_ops" where
  "pair_timer_ops =
     \<lparr>tm_once = (\<lambda>d. \<lparr>pt_duration = d, pt_elapsed = 0, pt_just = False\<rparr>),
      tm_reset = (\<lambda>t. t\<lparr>pt_elapsed := 0, pt_just := False\<rparr>),
      tm_tick = (\<lambda>d t. t\<lparr>pt_elapsed := min (pt_duration t) (pt_elapsed t + d),
                         pt_just := pt_elapsed t < pt_duration t \<and> pt_duration t \<le> pt_elapsed t + d\<rparr>),
      tm_just_finished = pt_just\<rparr>"

lemma pair_timer_laws: "timer_laws pair_timer_ops pt_duration pt_elapsed"
  by (simp add: timer_laws_def pair_timer_ops_def)

definition second :: nat where "second = 1000000000"

type_synonym 'tm ServerKeepAliveTimers = "ConnectionId \<rightharpoonup> 'tm"

definition track :: "'tm timer_ops \<Rightarrow> ConnectionId \<Rightarrow> 'tm ServerKeepAliveTimers \<Rightarrow> 'tm ServerKeepAliveTimers" where
  "track M c ts = ts(c \<mapsto> tm_once M second)"

definition refresh :: "'tm timer_ops \<Rightarrow> ConnectionId \<Rightarrow> 'tm ServerKeepAliveTimers \<Rightarrow> 'tm ServerKeepAliveTimers" where
  "refresh M c ts = (case ts c of Some t \<Rightarrow> ts(c \<mapsto> tm_reset M t) | None \<Rightarrow> ts)"

definition just_expired ::
  "'tm timer_ops \<Rightarrow> ConnectionId \<Rightarrow> nat \<Rightarrow> 'tm ServerKeepAliveTimers \<Rightarrow> bool \<times> 'tm ServerKeepAliveTimers"
where
  "just_expired M c elapsed ts =
     (case ts c of
        Some t \<Rightarrow> (tm_just_finished M (tm_tick M elapsed t), ts(c \<mapsto> tm_tick M elapsed t))
      | None \<Rightarrow> (False, ts))"

definition ClientKeepAliveTimeout_default :: "'tm timer_ops \<Rightarrow> 'tm" where
  "ClientKeepAliveTimeout_default M = tm_once M (5 * second)"

definition client_refresh :: "'tm timer_ops \<Rightarrow> 'tm \<Rightarrow> 'tm" where
  "client_refresh M t = tm_reset M t"

definition client_just_expired :: "'tm timer_ops \<Rightarrow> nat \<Rightarrow> 'tm \<Rightarrow> bool \<times> 'tm" where
  "client_just_expired M elapsed t = (tm_just_finished M (tm_tick M elapsed t), tm_tick M elapsed t)"

text \<open>\<open>check_timeouts\<close> over the registered connections.\<close>

fun check_timeouts ::
  "'tm timer_ops \<Rightarrow> nat \<Rightarrow> ConnectionId list \<Rightarrow> 'tm ServerKeepAliveTimers \<Rightarrow> action list \<times> 'tm ServerKeepAliveTimers"
where
  "check_timeouts M elapsed [] ts = ([], ts)"
| "check_timeouts M elapsed (c # cs) ts =
     (case just_expired M c elapsed ts of
        (x, ts') \<Rightarrow>
          (case check_timeouts M elapsed cs ts' of
             (acts, ts'') \<Rightarrow> (if x then Disconnect c # acts else acts, ts'')))"

section \<open>The client between its servers\<close>

text \<open>The current connections with the address of their peer.\<close>

record ActiveServers =
  lobby :: "(ConnectionId \<times> SocketAddr) option"
  battle :: "(ConnectionId \<times> SocketAddr) option"
  result_received :: bool

definition send_keepalive :: "ActiveServers \<Rightarrow> action list" where
  "send_keepalive s =
     (case (lobby s, battle s) of
        (Some (c, _), None) \<Rightarrow> [LobbySend c LcKeepAlive]
      | (None, Some (c, _)) \<Rightarrow> [BattleSend c (if result_received s then BcResultReceived else BcPlay)]
      | _ \<Rightarrow> [])"

definition reconnect :: "ActiveServers \<Rightarrow> action list" where
  "reconnect s =
     (case lobby s of Some (c, a) \<Rightarrow> [Disconnect c, RequestLobby a] | None \<Rightarrow> []) @
     (case battle s of Some (c, a) \<Rightarrow> [Disconnect c, RequestBattle a] | None \<Rightarrow> [])"

section \<open>Handlers\<close>

definition lobby_server_packet_handler :: "ConnectionId \<Rightarrow> LobbyClientPacket \<Rightarrow> action list" where
  "lobby_server_packet_handler c p =
     (case p of
        LcHello \<Rightarrow> [LobbyReply c LsHello]
      | LcBattle \<Rightarrow> [LobbyReply c (LsBattleServer BATTLE_SERVER)]
      | LcKeepAlive \<Rightarrow> [])"

definition lobby_server_accept_new_connections ::
  "'tm timer_ops \<Rightarrow> ConnectionId \<Rightarrow> 'tm ServerKeepAliveTimers \<Rightarrow> 'tm ServerKeepAliveTimers"
where
  "lobby_server_accept_new_connections M c ts = track M c ts"

definition battle_server_accept_new_connections ::
  "'tm timer_ops \<Rightarrow> ConnectionId list \<Rightarrow> ConnectionId \<Rightarrow> 'tm ServerKeepAliveTimers \<Rightarrow> action list \<times> 'tm ServerKeepAliveTimers"
where
  "battle_server_accept_new_connections M conns c ts =
     (map (\<lambda>x. BattleReply x BsBroadcastPlayerJoin) conns @ [BattleReply c BsBattleStart], track M c ts)"

definition battle_server_packet_handler :: "ConnectionId \<Rightarrow> BattleClientPacket \<Rightarrow> action list" where
  "battle_server_packet_handler c p =
     (case p of
        BcPlay \<Rightarrow> [BattleReply c BsYouWon]
      | BcResultReceived \<Rightarrow> [BattleReply c BsResultConfirmed]
      | BcKeepAlive \<Rightarrow> [])"

definition lobby_client_packet_handler :: "ConnectionId \<Rightarrow> LobbyServerPacket \<Rightarrow> action list" where
  "lobby_client_packet_handler c p =
     (case p of
        LsHello \<Rightarrow> [LobbySend c LcBattle]
      | LsBattleServer a \<Rightarrow> [Disconnect c, RequestBattle a]
      | LsKeepAlive \<Rightarrow> [])"

definition battle_client_packet_handler :: "ConnectionId \<Rightarrow> BattleServerPacket \<Rightarrow> bool \<Rightarrow> action list \<times> bool" where
  "battle_client_packet_handler c p got =
     (case p of
        BsBroadcastPlayerJoin \<Rightarrow> ([], got)
      | BsBattleStart \<Rightarrow> ([BattleSend c BcPlay], got)
      | BsYouWon \<Rightarrow> ([BattleSend c BcResultReceived], True)
      | BsResultConfirmed \<Rightarrow> ([Disconnect c, RequestLobby LOBBY_SERVER], got)
      | BsKeepAlive \<Rightarrow> ([], got))"

definition lobby_client_connect_handler :: "'tm timer_ops \<Rightarrow> ConnectionId \<Rightarrow> 'tm \<Rightarrow> action list \<times> 'tm" where
  "lobby_client_connect_handler M c t = ([LobbySend c LcHello], client_refresh M t)"

definition battle_client_connect_handler :: "'tm timer_ops \<Rightarrow> ConnectionId \<Rightarrow> 'tm \<Rightarrow> bool \<Rightarrow> action list \<times> 'tm \<times> bool" where
  "battle_client_connect_handler M c t got = ([BattleSend c BcKeepAlive], client_refresh M t, False)"

definition lobby_client_keepalive_handler :: "'tm timer_ops \<Rightarrow> LobbyServerPacket \<Rightarrow> 'tm \<Rightarrow> 'tm" where
  "lobby_client_keepalive_handler M p t = (if p = LsKeepAlive then client_refresh M t else t)"

definition battle_client_keepalive_handler :: "'tm timer_ops \<Rightarrow> BattleServerPacket \<Rightarrow> 'tm \<Rightarrow> 'tm" where
  "battle_client_keepalive_handler M p t = (if p = BsKeepAlive then client_refresh M t else t)"

definition client_check_timeout :: "'tm timer_ops \<Rightarrow> nat \<Rightarrow> ActiveServers \<Rightarrow> 'tm \<Rightarrow> action list \<times> 'tm" where
  "client_check_timeout M elapsed s t =
     (case client_just_expired M elapsed t of (x, t') \<Rightarrow> (if x then reconnect s else [], t'))"

definition lobby_client_reconnect_if_error :: "('d, 'l) ReceiveError \<Rightarrow> SocketAddr \<Rightarrow> action list" where
  "lobby_client_reconnect_if_error err a = (if err = IntentionalDisconnection then [] else [RequestLobby a])"

definition battle_client_reconnect_if_error :: "('d, 'l) ReceiveError \<Rightarrow> SocketAddr \<Rightarrow> action list" where
  "battle_client_reconnect_if_error err a = (if err = IntentionalDisconnection then [] else [RequestBattle a])"

definition server_send_keepalive :: "ConnectionId list \<Rightarrow> ConnectionId list \<Rightarrow> action list" where
  "server_send_keepalive lobby_conns battle_conns =
     map (\<lambda>c. LobbyReply c LsKeepAlive) lobby_conns @ map (\<lambda>c. BattleReply c BsKeepAlive) battle_conns"

definition lobby_server_keepalive_handler ::
  "'tm timer_ops \<Rightarrow> ConnectionId \<Rightarrow> LobbyClientPacket \<Rightarrow> 'tm ServerKeepAliveTimers \<Rightarrow> 'tm ServerKeepAliveTimers"
where
  "lobby_server_keepalive_handler M c p ts = (if p = LcKeepAlive then refresh M c ts else ts)"

definition battle_server_keepalive_handler ::
  "'tm timer_ops \<Rightarrow> ConnectionId \<Rightarrow> BattleClientPacket \<Rightarrow> 'tm ServerKeepAliveTimers \<Rightarrow> 'tm ServerKeepAliveTimers"
where
  "battle_server_keepalive_handler M c p ts = refresh M c ts"

section \<open>The battle over a lossy network\<close>

text \<open>
  One exchange with the battle server: the client's packet, the server's answer and what the client
  does with it, or nothing if one of them is lost.
\<close>

definition battle_exchange :: "bool \<Rightarrow> action \<Rightarrow> bool \<Rightarrow> action list \<times> bool" where
  "battle_exchange delivered a got =
     (case (delivered, a) of
        (True, BattleSend c p) \<Rightarrow>
          (case battle_server_packet_handler c p of
             BattleReply d r # _ \<Rightarrow> battle_client_packet_handler d r got
           | _ \<Rightarrow> ([], got))
      | _ \<Rightarrow> ([], got))"

text \<open>
  One period of the keepalive timer: the packet that \<open>send_keepalive\<close> chooses, and the exchange for
  the packet that the answer leads to. A disconnected client has no battle connection any more.
\<close>

definition battle_round :: "bool \<times> bool \<Rightarrow> ActiveServers \<times> action list \<Rightarrow> ActiveServers \<times> action list" where
  "battle_round net st =
     (case (net, st) of
        ((d1, d2), (s, log)) \<Rightarrow>
          (case send_keepalive s of
             [] \<Rightarrow> (s, log)
           | a # _ \<Rightarrow>
               (case battle_exchange d1 a (result_received s) of
                  (acts, got) \<Rightarrow>
                    (case (if acts = [] then ([], got) else battle_exchange d2 (hd acts) got) of
                       (acts', got') \<Rightarrow>
                         let all = acts @ acts';
                             gone = list_ex (\<lambda>x. case x of Disconnect _ \<Rightarrow> True | _ \<Rightarrow> False) all
                         in (s\<lparr>result_received := got', battle := (if gone then None else battle s)\<rparr>, log @ all)))))"

definition in_battle :: "ActiveServers \<Rightarrow> bool" where
  "in_battle s \<longleftrightarrow> lobby s = None \<and> battle s \<noteq> None"

lemma battle_round_in:
  assumes "lobby s = None" "battle s = Some (c, a)"
  shows "battle_round (d1, d2) (s, log) =
     (if \<not> d1 then (s, log)
      else if result_received s
      then (s\<lparr>battle := None\<rparr>, log @ [Disconnect c, RequestLobby LOBBY_SERVER])
      else if d2
      then (s\<lparr>result_received := True, battle := None\<rparr>,
            log @ [BattleSend c BcResultReceived, Disconnect c, RequestLobby LOBBY_SERVER])
      else (s\<lparr>result_received := True\<rparr>, log @ [BattleSend c BcResultReceived]))"
  using assms
  by (cases d1; cases d2)
    (auto simp: battle_round_def send_keepalive_def battle_exchange_def battle_server_packet_handler_def
      battle_client_packet_handler_def)

lemma battle_round_out: "lobby s = None \<Longrightarrow> battle s = None \<Longrightarrow> battle_round d (s, log) = (s, log)"
  by (cases d) (simp add: battle_round_def send_keepalive_def)

lemma battle_rounds_out: "lobby s = None \<Longrightarrow> battle s = None \<Longrightarrow> fold battle_round ds (s, log) = (s, log)"
  by (induction ds) (simp_all add: battle_round_out)

lemma battle_rounds_in:
  assumes "lobby s = None" "battle s = Some (c, a)" "RequestLobby LOBBY_SERVER \<notin> set log"
    and "fold battle_round ds (s, log) = (s', log')"
  shows "(battle s' = None \<longrightarrow> result_received s' \<and> Disconnect c \<in> set log' \<and> count_list log' (RequestLobby LOBBY_SERVER) = 1)
     \<and> (battle s' \<noteq> None \<longrightarrow> battle s' = battle s \<and> RequestLobby LOBBY_SERVER \<notin> set log')
     \<and> ((if result_received s then 1 else 2) \<le> length (filter fst ds) \<longrightarrow> battle s' = None)"
  using assms
proof (induction ds arbitrary: s log)
  case (Cons d ds)
  obtain d1 d2 where d: "d = (d1, d2)" by fastforce
  note r = battle_round_in [OF Cons.prems(1,2), of d1 d2 log]
  show ?case
  proof (cases "d1 \<and> (result_received s \<or> d2)")
    case True
    obtain s1 log1 where e: "battle_round d (s, log) = (s1, log1)" by fastforce
    then have s1: "lobby s1 = None" "battle s1 = None" "result_received s1" "Disconnect c \<in> set log1"
        "count_list log1 (RequestLobby LOBBY_SERVER) = 1"
      using True r Cons.prems(1,3) d by (auto split: if_splits)
    then show ?thesis using battle_rounds_out [OF s1(1,2), of ds log1] Cons.prems(4) e by simp
  next
    case False
    obtain s1 log1 where e: "battle_round d (s, log) = (s1, log1)" by fastforce
    then have s1: "lobby s1 = None" "battle s1 = Some (c, a)" "RequestLobby LOBBY_SERVER \<notin> set log1"
        "result_received s1 = (result_received s \<or> d1)"
      using False r Cons.prems d by (auto split: if_splits)
    have "fold battle_round ds (s1, log1) = (s', log')" using Cons.prems(4) e by simp
    from Cons.IH [OF s1(1-3) this] show ?thesis
      using s1 Cons.prems(2) False by (auto simp: d split: if_splits)
  qed
qed auto

section \<open>Keepalive\<close>

datatype ka_event = Frame nat | Heard BattleClientPacket

definition silence :: "ka_event list \<Rightarrow> nat" where
  "silence evs = fold (\<lambda>ev s. case ev of Frame d \<Rightarrow> s + d | Heard _ \<Rightarrow> 0) evs 0"

lemma silence_snoc: "silence (evs @ [ev]) = (case ev of Frame d \<Rightarrow> silence evs + d | Heard _ \<Rightarrow> 0)"
  by (cases ev) (simp_all add: silence_def)

definition ka_step ::
  "'tm timer_ops \<Rightarrow> ConnectionId list \<Rightarrow> ConnectionId \<Rightarrow> ka_event \<Rightarrow> 'tm ServerKeepAliveTimers \<Rightarrow> 'tm ServerKeepAliveTimers"
where
  "ka_step M conns c ev ts =
     (case ev of Frame d \<Rightarrow> snd (check_timeouts M d conns ts) | Heard p \<Rightarrow> battle_server_keepalive_handler M c p ts)"

lemma ka_step_simps [simp]:
  "ka_step M conns c (Frame d) ts = snd (check_timeouts M d conns ts)"
  "ka_step M conns c (Heard p) ts = refresh M c ts"
  by (simp_all add: ka_step_def battle_server_keepalive_handler_def)

lemma check_timeouts_none:
  "ts c = None \<Longrightarrow> check_timeouts M d conns ts = (acts, ts') \<Longrightarrow> Disconnect c \<notin> set acts \<and> ts' c = None"
proof (induction conns arbitrary: ts acts)
  case (Cons x conns)
  obtain b ts1 where j: "just_expired M x d ts = (b, ts1)" by fastforce
  obtain acts1 ts2 where k: "check_timeouts M d conns ts1 = (acts1, ts2)" by fastforce
  have "check_timeouts M d conns ts1 = (acts1, ts')" using Cons.prems j k by simp
  note IH = Cons.IH [OF _ this]
  have "ts1 c = None" using Cons.prems(1) j by (cases "x = c") (auto simp: just_expired_def split: option.splits)
  from IH [OF this] show ?case
    using Cons.prems j k by (auto simp: just_expired_def split: option.splits if_splits)
qed auto

lemma check_timeouts_other:
  "c \<notin> set conns \<Longrightarrow> check_timeouts M d conns ts = (acts, ts') \<Longrightarrow> Disconnect c \<notin> set acts \<and> ts' c = ts c"
proof (induction conns arbitrary: ts acts)
  case (Cons x conns)
  obtain b ts1 where j: "just_expired M x d ts = (b, ts1)" by fastforce
  obtain acts1 ts2 where k: "check_timeouts M d conns ts1 = (acts1, ts2)" by fastforce
  have "check_timeouts M d conns ts1 = (acts1, ts')" using Cons.prems j k by simp
  note IH = Cons.IH [OF _ this]
  show ?case
    using IH Cons.prems j k by (auto simp: just_expired_def split: option.splits if_splits)
qed auto

lemma check_timeouts_some:
  assumes "distinct conns" "c \<in> set conns" "ts c = Some t" "check_timeouts M d conns ts = (acts, ts')"
  shows "(Disconnect c \<in> set acts \<longleftrightarrow> tm_just_finished M (tm_tick M d t)) \<and> ts' c = Some (tm_tick M d t)"
  using assms
proof (induction conns arbitrary: ts acts ts')
  case (Cons x conns)
  obtain b ts1 where j: "just_expired M x d ts = (b, ts1)" by fastforce
  obtain acts1 ts2 where k: "check_timeouts M d conns ts1 = (acts1, ts2)" by fastforce
  have a: "acts = (if b then Disconnect x # acts1 else acts1)" "ts' = ts2" using Cons.prems(4) j k by auto
  show ?case
  proof (cases "x = c")
    case True
    then have "b = tm_just_finished M (tm_tick M d t)" "ts1 c = Some (tm_tick M d t)"
      using j Cons.prems(3) by (auto simp: just_expired_def)
    then show ?thesis using a k True Cons.prems(1) check_timeouts_other [of c conns M d ts1 acts1 ts2] by auto
  next
    case False
    then have t1: "ts1 c = Some t" using j Cons.prems(3) by (auto simp: just_expired_def split: option.splits)
    show ?thesis using Cons.IH [OF _ _ t1 k] Cons.prems(1,2) a False by auto
  qed
qed simp

lemma keepalive_timer:
  assumes "timer_laws M dur el" "distinct conns" "c \<in> set conns"
    and "ts = fold (ka_step M conns c) evs (track M c ts0)"
  shows "\<exists>t. ts c = Some t \<and> dur t = second \<and> el t = min second (silence evs)"
  using assms(4)
proof (induction evs arbitrary: ts rule: rev_induct)
  case Nil
  then show ?case using assms(1) by (simp add: track_def timer_laws_def silence_def)
next
  case (snoc ev evs)
  then obtain t where t: "fold (ka_step M conns c) evs (track M c ts0) c = Some t" "dur t = second"
    "el t = min second (silence evs)" by blast
  show ?case
  proof (cases ev)
    case (Frame d)
    obtain acts ts' where k: "check_timeouts M d conns (fold (ka_step M conns c) evs (track M c ts0)) = (acts, ts')"
      by fastforce
    have "ts = ka_step M conns c ev (fold (ka_step M conns c) evs (track M c ts0))" using snoc.prems by simp
    then have "ts = ts'" by (simp add: Frame k)
    then have "ts c = Some (tm_tick M d t)" using check_timeouts_some [OF assms(2,3) t(1) k] by simp
    moreover have "dur (tm_tick M d t) = second" "el (tm_tick M d t) = min second (el t + d)"
      using assms(1) t(2) by (simp_all add: timer_laws_def)
    ultimately show ?thesis using t(3) by (simp add: Frame silence_snoc)
  next
    case (Heard p)
    have "ts = refresh M c (fold (ka_step M conns c) evs (track M c ts0))" using snoc.prems by (simp add: Heard)
    then show ?thesis using t assms(1) by (simp add: Heard silence_snoc refresh_def timer_laws_def)
  qed
qed

section \<open>Properties\<close>

text \<open>
  The battle's result survives a lossy network. A client in a battle repeats its packet with each
  keepalive period; each exchange may be lost in either direction. After two periods whose exchange
  got through, at the latest, the client has the result, its receipt is confirmed, it has left the
  battle and has asked for the lobby, exactly once; it never leaves without having received the
  result, and while it has not left it keeps its connection and does not ask for the lobby.
\<close>

theorem battle_exchange_completes:
  assumes "lobby s = None" and "battle s = Some (c, a)" and "fold battle_round ds (s, []) = (s', log)"
  shows "(2 \<le> length (filter fst ds) \<longrightarrow> battle s' = None)
     \<and> (battle s' = None \<longrightarrow> result_received s' \<and> Disconnect c \<in> set log
          \<and> count_list log (RequestLobby LOBBY_SERVER) = 1)
     \<and> (battle s' \<noteq> None \<longrightarrow> battle s' = battle s \<and> RequestLobby LOBBY_SERVER \<notin> set log)"
  using battle_rounds_in [OF assms(1,2) _ assms(3)] by (auto split: if_splits)

theorem battle_exchange_completes_witness:
  "battle (fst (fold battle_round [(False, True), (True, False), (False, False), (True, True)]
      (\<lparr>lobby = None, battle = Some (4, BATTLE_SERVER), result_received = False\<rparr>, []))) = None"
proof -
  let ?s = "\<lparr>lobby = None, battle = Some (4, BATTLE_SERVER), result_received = False\<rparr>"
  let ?ds = "[(False, True), (True, False), (False, False), (True, True)]"
  obtain s' log where e: "fold battle_round ?ds (?s, []) = (s', log)" by fastforce
  then have "2 \<le> length (filter fst ?ds) \<longrightarrow> battle s' = None"
    using battle_exchange_completes [of ?s 4 BATTLE_SERVER ?ds s' log] by simp
  then show ?thesis unfolding e by simp
qed

text \<open>
  Keepalive timeouts are exact. For a connection that the battle server tracks, over any sequence
  of frames and packets from its client: the frame that disconnects it is the one in which the time
  since its last packet (or its acceptance) reaches one second, so that a client that is heard of in
  time is never disconnected and a silent one is disconnected once. A connection that is not tracked
  is never disconnected by the timeout.
\<close>

theorem keepalive_exact:
  assumes "timer_laws M dur el" and "distinct conns" and "c \<in> set conns"
    and "ts = fold (ka_step M conns c) evs (snd (battle_server_accept_new_connections M conns c ts0))"
    and "check_timeouts M d conns ts = (acts, ts')"
  shows "(Disconnect c \<in> set acts \<longleftrightarrow> silence evs < second \<and> second \<le> silence evs + d)
     \<and> (ts x = None \<longrightarrow> Disconnect x \<notin> set acts)"
proof -
  have "ts = fold (ka_step M conns c) evs (track M c ts0)"
    using assms(4) by (simp add: battle_server_accept_new_connections_def)
  then obtain t where t: "ts c = Some t" "dur t = second" "el t = min second (silence evs)"
    using keepalive_timer [OF assms(1-3)] by blast
  have "Disconnect c \<in> set acts \<longleftrightarrow> el t < dur t \<and> dur t \<le> el t + d"
    using check_timeouts_some [OF assms(2,3) t(1) assms(5)] assms(1) by (simp add: timer_laws_def)
  then show ?thesis using t check_timeouts_none [OF _ assms(5)] by auto
qed

theorem keepalive_exact_witness:
  "Disconnect 4 \<in> set (fst (check_timeouts pair_timer_ops second [3, 4]
      (fold (ka_step pair_timer_ops [3, 4] 4) [Frame second, Heard BcPlay]
        (snd (battle_server_accept_new_connections pair_timer_ops [3, 4] 4 Map.empty)))))"
proof -
  let ?ts = "fold (ka_step pair_timer_ops [3, 4] 4) [Frame second, Heard BcPlay]
        (snd (battle_server_accept_new_connections pair_timer_ops [3, 4] 4 Map.empty))"
  have d: "distinct [3, 4 :: nat]" "4 \<in> set [3, 4 :: nat]" by simp_all
  have "Disconnect 4 \<in> set (fst (check_timeouts pair_timer_ops second [3, 4] ?ts)) \<longleftrightarrow>
      silence [Frame second, Heard BcPlay] < second \<and> second \<le> silence [Frame second, Heard BcPlay] + second"
    using keepalive_exact [OF pair_timer_laws d refl prod.collapse [symmetric]] by blast
  then show ?thesis by (simp add: silence_def second_def)
qed

end
