(* ===== verification/Example_Apps.thy ===== *)
theory Example_Apps
  imports Library_Serializers Length_Prefix Net_Settings Udp_Stream
begin

text \<open>
  The configuration traits of \<^verbatim>\<open>src/src/lib.rs\<close> and the applications under \<^verbatim>\<open>src/examples\<close> that use them in
  the simplest way: \<^verbatim>\<open>hello_world_tcp.rs\<close>, \<^verbatim>\<open>hello_world_udp.rs\<close>, \<^verbatim>\<open>hello_world_tcp_encrypted.rs\<close> and
  \<^verbatim>\<open>multiple_connections.rs\<close>. An observer is a function of the connection's \<open>send\<close>, of the packet and of
  the connection, and returns the result of that \<open>send\<close>. Printing and the assembly of the \<open>App\<close> are
  not modelled. The bitcode package is a parameter.
\<close>

section \<open>Configurations\<close>

text \<open>\<open>ServerConfig\<close> and \<open>ClientConfig\<close>; of a protocol, \<open>DATAGRAM\<close> matters here.\<close>

record ('cp, 'sp, 'ee, 'de, 'z) ServerConfig =
  server_datagram :: bool
  server_serializer :: "('cp, 'sp, 'ee, 'de, 'z) SerializerAdapter"
  server_length :: "endianness \<times> number"

record ('cp, 'sp, 'ee, 'de, 'z) ClientConfig =
  client_datagram :: bool
  client_serializer :: "('sp, 'cp, 'ee, 'de, 'z) SerializerAdapter"
  client_length :: "endianness \<times> number"

type_synonym ('cp, 'sp, 'ee, 'de, 'z) example_config =
  "('cp, 'sp, 'ee, 'de, 'z) ServerConfig \<times> ('cp, 'sp, 'ee, 'de, 'z) ClientConfig"

text \<open>Three of the examples use \<open>BitcodeSerializer\<close> on both ends.\<close>

definition bitcode_config ::
  "bool \<Rightarrow> endianness \<times> number \<Rightarrow> ('cp \<Rightarrow> byte list) \<Rightarrow> (byte list \<Rightarrow> 'be + 'cp) \<Rightarrow> ('sp \<Rightarrow> byte list)
     \<Rightarrow> (byte list \<Rightarrow> 'be + 'sp) \<Rightarrow> ('cp, 'sp, 'ee, 'be, unit) example_config"
where
  "bitcode_config datagram len enc_c dec_c enc_s dec_s =
     (\<lparr>server_datagram = datagram, server_serializer = ReadOnly (BitcodeSerializer enc_s dec_c) (), server_length = len\<rparr>,
      \<lparr>client_datagram = datagram, client_serializer = ReadOnly (BitcodeSerializer enc_c dec_s) (), client_length = len\<rparr>)"

text \<open>\<open>MutableSerializer for CustomCryptSerializer\<close> hands on to its engine, which does not panic.\<close>

definition custom_crypt ::
  "('q \<Rightarrow> byte list) \<Rightarrow> (byte list \<Rightarrow> 'be + 'p)
     \<Rightarrow> ('p, 'q, CustomSerializationError, CustomSerializationError, CustomCryptEngine) MutableSerializer"
where
  "custom_crypt encode decode =
     \<lparr>mut_serialize = (\<lambda>p z. map_prod Some id (ser_serialize (crypt_serializer encode decode) p z)),
      mut_deserialize = (\<lambda>bs z. map_prod Some id (ser_deserialize (crypt_serializer encode decode) bs z))\<rparr>"

definition encrypted_config ::
  "(CustomCryptClientPacket \<Rightarrow> byte list) \<Rightarrow> (byte list \<Rightarrow> 'be + CustomCryptClientPacket)
     \<Rightarrow> (CustomCryptServerPacket \<Rightarrow> byte list) \<Rightarrow> (byte list \<Rightarrow> 'be + CustomCryptServerPacket)
     \<Rightarrow> (CustomCryptClientPacket, CustomCryptServerPacket, CustomSerializationError, CustomSerializationError, CustomCryptEngine)
          example_config"
where
  "encrypted_config enc_c dec_c enc_s dec_s =
     (\<lparr>server_datagram = False, server_serializer = Mutable (custom_crypt enc_s dec_c) \<lparr>guarded = default_engine, poisoned = False\<rparr>,
       server_length = (LittleEndian, U32)\<rparr>,
      \<lparr>client_datagram = False, client_serializer = Mutable (custom_crypt enc_c dec_s) \<lparr>guarded = default_engine, poisoned = False\<rparr>,
       client_length = (LittleEndian, U32)\<rparr>)"

section \<open>Options of the UDP example\<close>

definition hello_udp_options :: UdpOptions where
  "hello_udp_options =
     default_udp_options\<lparr>max_peers := 64, receive_queue_overflow := DropOldest, send_rate := Some (16 * 1024),
       max_datagram_size := 1200\<rparr>"

definition hello_udp_limit :: MaxPacketSize where
  "hello_udp_limit = MaxPacketSize 1200"

definition hello_udp_queues :: NetworkQueueSettings where
  "hello_udp_queues = default_queue_settings\<lparr>datagram_receive_overflow := DropOldest\<rparr>"

section \<open>Packets and observers\<close>

type_synonym ('p, 'r, 'k) sender = "'p \<Rightarrow> 'k \<Rightarrow> 'r \<times> 'k"

text \<open>What an application registers: the observers of both ends.\<close>

record ('c, 's, 'r, 'k) app =
  app_established :: "('c, 'r, 'k) sender \<Rightarrow> 'k \<Rightarrow> 'r option \<times> 'k"
  app_new_connection :: "('s, 'r, 'k) sender \<Rightarrow> 'k \<Rightarrow> 'r option \<times> 'k"
  app_client_packet :: "('c, 'r, 'k) sender \<Rightarrow> 's \<Rightarrow> 'k \<Rightarrow> 'r option \<times> 'k"
  app_server_packet :: "('s, 'r, 'k) sender \<Rightarrow> 'c \<Rightarrow> 'k \<Rightarrow> 'r option \<times> 'k"

text \<open>\<^verbatim>\<open>hello_world_tcp.rs\<close>; \<^verbatim>\<open>hello_world_udp.rs\<close> has the same packets.\<close>

datatype HelloClientPacket = HelloClientString string

datatype HelloServerPacket = HelloServerString string

definition server_new_connection_system :: "(HelloServerPacket, 'r, 'k) sender \<Rightarrow> 'k \<Rightarrow> 'r option \<times> 'k" where
  "server_new_connection_system send k = map_prod Some id (send (HelloServerString ''Hello, World!'') k)"

definition client_packet_receive_system ::
  "(HelloClientPacket, 'r, 'k) sender \<Rightarrow> HelloServerPacket \<Rightarrow> 'k \<Rightarrow> 'r option \<times> 'k"
where
  "client_packet_receive_system send p k =
     (case p of HelloServerString s \<Rightarrow> map_prod Some id (send (HelloClientString ''Hello, Server!'') k))"

definition server_packet_receive_system ::
  "(HelloServerPacket, 'r, 'k) sender \<Rightarrow> HelloClientPacket \<Rightarrow> 'k \<Rightarrow> 'r option \<times> 'k"
where
  "server_packet_receive_system send p k =
     (case p of HelloClientString s \<Rightarrow> map_prod Some id (send (HelloServerString ''Hello, Client!'') k))"

definition tcp_app :: "(HelloClientPacket, HelloServerPacket, 'r, 'k) app" where
  "tcp_app =
     \<lparr>app_established = (\<lambda>send k. (None, k)), app_new_connection = server_new_connection_system,
      app_client_packet = client_packet_receive_system, app_server_packet = server_packet_receive_system\<rparr>"

text \<open>\<^verbatim>\<open>hello_world_udp.rs\<close>: the client speaks first, and a new connection's rate is set.\<close>

definition udp_established :: "(HelloClientPacket, 'r, 'k) sender \<Rightarrow> 'k \<Rightarrow> 'r option \<times> 'k" where
  "udp_established send k = map_prod Some id (send (HelloClientString ''Hello, Server!'') k)"

definition udp_server_new_connection_system ::
  "((UdpConnectionHandle \<Rightarrow> UdpConnectionHandle) \<Rightarrow> 'k \<Rightarrow> 'k) \<Rightarrow> (HelloServerPacket, 'r, 'k) sender \<Rightarrow> 'k \<Rightarrow> 'r option \<times> 'k"
where
  "udp_server_new_connection_system on_transport send k =
     map_prod Some id (send (HelloServerString ''Hello, World!'') (on_transport (set_send_rate (Some (16 * 1024))) k))"

definition udp_client_packet_receive_system ::
  "(HelloClientPacket, 'r, 'k) sender \<Rightarrow> HelloServerPacket \<Rightarrow> 'k \<Rightarrow> 'r option \<times> 'k"
where
  "udp_client_packet_receive_system send p k =
     (case p of HelloServerString s \<Rightarrow> map_prod Some id (send (HelloClientString ''Hello, Server!'') k))"

definition udp_server_packet_receive_system ::
  "(HelloServerPacket, 'r, 'k) sender \<Rightarrow> HelloClientPacket \<Rightarrow> 'k \<Rightarrow> 'r option \<times> 'k"
where
  "udp_server_packet_receive_system send p k =
     (case p of HelloClientString s \<Rightarrow> map_prod Some id (send (HelloServerString ''Hello, Client!'') k))"

definition udp_app ::
  "((UdpConnectionHandle \<Rightarrow> UdpConnectionHandle) \<Rightarrow> 'k \<Rightarrow> 'k) \<Rightarrow> (HelloClientPacket, HelloServerPacket, 'r, 'k) app"
where
  "udp_app on_transport =
     \<lparr>app_established = udp_established, app_new_connection = udp_server_new_connection_system on_transport,
      app_client_packet = udp_client_packet_receive_system, app_server_packet = udp_server_packet_receive_system\<rparr>"

text \<open>\<^verbatim>\<open>hello_world_tcp_encrypted.rs\<close>; its second client answers with another text.\<close>

definition enc_server_new_connection_system :: "(CustomCryptServerPacket, 'r, 'k) sender \<Rightarrow> 'k \<Rightarrow> 'r option \<times> 'k" where
  "enc_server_new_connection_system send k = map_prod Some id (send (ServerString ''Hello, World!'') k)"

definition enc_client_packet_receive_system ::
  "(CustomCryptClientPacket, 'r, 'k) sender \<Rightarrow> CustomCryptServerPacket \<Rightarrow> 'k \<Rightarrow> 'r option \<times> 'k"
where
  "enc_client_packet_receive_system send p k =
     (case p of ServerString s \<Rightarrow> map_prod Some id (send (ClientString ''Hello, Server!'') k))"

definition client2_packet_receive_system ::
  "(CustomCryptClientPacket, 'r, 'k) sender \<Rightarrow> CustomCryptServerPacket \<Rightarrow> 'k \<Rightarrow> 'r option \<times> 'k"
where
  "client2_packet_receive_system send p k =
     (case p of ServerString s \<Rightarrow> map_prod Some id (send (ClientString ''Hello, Server!, I'm Client2'') k))"

definition enc_server_packet_receive_system ::
  "(CustomCryptServerPacket, 'r, 'k) sender \<Rightarrow> CustomCryptClientPacket \<Rightarrow> 'k \<Rightarrow> 'r option \<times> 'k"
where
  "enc_server_packet_receive_system send p k =
     (case p of ClientString s \<Rightarrow> map_prod Some id (send (ServerString ''Hello, Client!'') k))"

definition encrypted_app :: "bool \<Rightarrow> (CustomCryptClientPacket, CustomCryptServerPacket, 'r, 'k) app" where
  "encrypted_app second =
     \<lparr>app_established = (\<lambda>send k. (None, k)), app_new_connection = enc_server_new_connection_system,
      app_client_packet = (if second then client2_packet_receive_system else enc_client_packet_receive_system),
      app_server_packet = enc_server_packet_receive_system\<rparr>"

text \<open>\<^verbatim>\<open>multiple_connections.rs\<close>\<close>

type_synonym SequenceNumber = usize

datatype McServerPacket = ServerHello | Message SequenceNumber

datatype McClientPacket = ClientHello | Reply SequenceNumber

definition FIRST :: SequenceNumber where
  "FIRST = 0"

definition seq_next :: "SequenceNumber \<Rightarrow> SequenceNumber" where
  "seq_next n = usize_add n 1"

fun server_packet_reply :: "McServerPacket \<Rightarrow> McClientPacket" where
  "server_packet_reply ServerHello = ClientHello"
| "server_packet_reply (Message sequence) = Reply sequence"

fun client_packet_reply :: "McClientPacket \<Rightarrow> McServerPacket" where
  "client_packet_reply ClientHello = Message FIRST"
| "client_packet_reply (Reply sequence) = Message (seq_next sequence)"

definition mc_established :: "(McClientPacket, 'r, 'k) sender \<Rightarrow> 'k \<Rightarrow> 'r option \<times> 'k" where
  "mc_established send k = map_prod Some id (send ClientHello k)"

definition mc_server_new_connection_system :: "(McServerPacket, 'r, 'k) sender \<Rightarrow> 'k \<Rightarrow> 'r option \<times> 'k" where
  "mc_server_new_connection_system send k = map_prod Some id (send ServerHello k)"

definition mc_client_packet_receive_system ::
  "(McClientPacket, 'r, 'k) sender \<Rightarrow> McServerPacket \<Rightarrow> 'k \<Rightarrow> 'r option \<times> 'k"
where
  "mc_client_packet_receive_system send p k = map_prod Some id (send (server_packet_reply p) k)"

definition mc_server_packet_receive_system ::
  "(McServerPacket, 'r, 'k) sender \<Rightarrow> McClientPacket \<Rightarrow> 'k \<Rightarrow> 'r option \<times> 'k"
where
  "mc_server_packet_receive_system send p k = map_prod Some id (send (client_packet_reply p) k)"

definition mc_app :: "(McClientPacket, McServerPacket, 'r, 'k) app" where
  "mc_app =
     \<lparr>app_established = mc_established, app_new_connection = mc_server_new_connection_system,
      app_client_packet = mc_client_packet_receive_system, app_server_packet = mc_server_packet_receive_system\<rparr>"

text \<open>The configurations of the three; \<open>'be\<close> is bitcode's error and \<open>'ee\<close> is \<open>Infallible\<close>.\<close>

definition hello_tcp_config ::
  "(HelloClientPacket \<Rightarrow> byte list) \<Rightarrow> (byte list \<Rightarrow> 'be + HelloClientPacket) \<Rightarrow> (HelloServerPacket \<Rightarrow> byte list)
     \<Rightarrow> (byte list \<Rightarrow> 'be + HelloServerPacket) \<Rightarrow> (HelloClientPacket, HelloServerPacket, 'ee, 'be, unit) example_config"
where
  "hello_tcp_config = bitcode_config False (LittleEndian, U32)"

definition hello_udp_config ::
  "(HelloClientPacket \<Rightarrow> byte list) \<Rightarrow> (byte list \<Rightarrow> 'be + HelloClientPacket) \<Rightarrow> (HelloServerPacket \<Rightarrow> byte list)
     \<Rightarrow> (byte list \<Rightarrow> 'be + HelloServerPacket) \<Rightarrow> (HelloClientPacket, HelloServerPacket, 'ee, 'be, unit) example_config"
where
  "hello_udp_config = bitcode_config True (BigEndian, U8)"

definition mc_config ::
  "(McClientPacket \<Rightarrow> byte list) \<Rightarrow> (byte list \<Rightarrow> 'be + McClientPacket) \<Rightarrow> (McServerPacket \<Rightarrow> byte list)
     \<Rightarrow> (byte list \<Rightarrow> 'be + McServerPacket) \<Rightarrow> (McClientPacket, McServerPacket, 'ee, 'be, unit) example_config"
where
  "mc_config = bitcode_config True (LittleEndian, U32)"

section \<open>A connection of an application\<close>

text \<open>Packets under way on one connection, and everything each end has sent.\<close>

record ('c, 's) wire =
  to_server :: "'c list"
  to_client :: "'s list"
  client_sent :: "'c list"
  server_sent :: "'s list"

definition wire_client_send :: "bool \<Rightarrow> ('c, bool, ('c, 's) wire) sender" where
  "wire_client_send ok p w =
     (ok, if ok then w\<lparr>to_server := to_server w @ [p], client_sent := client_sent w @ [p]\<rparr> else w)"

definition wire_server_send :: "bool \<Rightarrow> ('s, bool, ('c, 's) wire) sender" where
  "wire_server_send ok p w =
     (ok, if ok then w\<lparr>to_client := to_client w @ [p], server_sent := server_sent w @ [p]\<rparr> else w)"

definition wire_connect :: "('c, 's, bool, ('c, 's) wire) app \<Rightarrow> ('c, 's) wire" where
  "wire_connect A =
     snd (app_new_connection A (wire_server_send True)
       (snd (app_established A (wire_client_send True) \<lparr>to_server = [], to_client = [], client_sent = [], server_sent = []\<rparr>)))"

text \<open>
  The network delivers any packet, loses one or repeats one; the answer to a delivery is sent if the
  queue takes it (\<open>ok\<close>).
\<close>

datatype wire_event = DeliverServer nat bool | DeliverClient nat bool | LoseServer nat | LoseClient nat
  | RepeatServer nat | RepeatClient nat

definition drop_nth :: "nat \<Rightarrow> 'a list \<Rightarrow> 'a list" where
  "drop_nth n xs = take n xs @ drop (Suc n) xs"

fun wire_step :: "('c, 's, bool, ('c, 's) wire) app \<Rightarrow> wire_event \<Rightarrow> ('c, 's) wire \<Rightarrow> ('c, 's) wire" where
  "wire_step A (DeliverServer n ok) w =
     (if n < length (to_server w)
      then snd (app_server_packet A (wire_server_send ok) (to_server w ! n) (w\<lparr>to_server := drop_nth n (to_server w)\<rparr>))
      else w)"
| "wire_step A (DeliverClient n ok) w =
     (if n < length (to_client w)
      then snd (app_client_packet A (wire_client_send ok) (to_client w ! n) (w\<lparr>to_client := drop_nth n (to_client w)\<rparr>))
      else w)"
| "wire_step A (LoseServer n) w = w\<lparr>to_server := drop_nth n (to_server w)\<rparr>"
| "wire_step A (LoseClient n) w = w\<lparr>to_client := drop_nth n (to_client w)\<rparr>"
| "wire_step A (RepeatServer n) w =
     (if n < length (to_server w) then w\<lparr>to_server := to_server w @ [to_server w ! n]\<rparr> else w)"
| "wire_step A (RepeatClient n) w =
     (if n < length (to_client w) then w\<lparr>to_client := to_client w @ [to_client w ! n]\<rparr> else w)"

fun repeats :: "wire_event \<Rightarrow> bool" where
  "repeats (RepeatServer n) = True"
| "repeats (RepeatClient n) = True"
| "repeats _ = False"

lemma drop_nth_props:
  "n < length xs \<Longrightarrow> length (drop_nth n xs) = length xs - 1" "length (drop_nth n xs) \<le> length xs"
  "set (drop_nth n xs) \<subseteq> set xs"
  by (auto simp: drop_nth_def dest: in_set_takeD in_set_dropD)

section \<open>Applications that answer every packet\<close>

abbreviation in_flight :: "('c, 's) wire \<Rightarrow> nat" where
  "in_flight w \<equiv> length (to_server w) + length (to_client w)"

locale answering_app =
  fixes A :: "('c, 's, bool, ('c, 's) wire) app"
    and client_answer :: "'s \<Rightarrow> 'c" and server_answer :: "'c \<Rightarrow> 's"
  assumes client_packet: "app_client_packet A send s k = map_prod Some id (send (client_answer s) k)"
    and server_packet: "app_server_packet A send' c k = map_prod Some id (send' (server_answer c) k)"
begin

lemma in_flight_step: "\<not> repeats ev \<Longrightarrow> in_flight (wire_step A ev w) \<le> in_flight w"
  by (cases ev)
    (auto simp: client_packet server_packet wire_client_send_def wire_server_send_def drop_nth_props less_imp_le_nat)

lemma in_flight_run:
  "\<forall>ev \<in> set evs. \<not> repeats ev \<Longrightarrow> in_flight (fold (wire_step A) evs w) \<le> in_flight w"
proof (induction evs arbitrary: w)
  case (Cons ev evs)
  have "in_flight (fold (wire_step A) evs (wire_step A ev w)) \<le> in_flight (wire_step A ev w)"
    using Cons.IH [of "wire_step A ev w"] Cons.prems by simp
  also have "\<dots> \<le> in_flight w" using in_flight_step [of ev w] Cons.prems by simp
  finally show ?case by simp
qed simp

text \<open>What is under way was sent, and what is sent answers something under way.\<close>

lemma sent_step:
  assumes "set (to_server w) \<subseteq> set (client_sent w)" "set (to_client w) \<subseteq> set (server_sent w)" and w': "w' = wire_step A ev w"
  shows "set (to_server w') \<subseteq> set (client_sent w') \<and> set (to_client w') \<subseteq> set (server_sent w')
    \<and> (server_sent w' = server_sent w \<or> (\<exists>c \<in> set (client_sent w). server_sent w' = server_sent w @ [server_answer c]))
    \<and> (client_sent w' = client_sent w \<or> (\<exists>s \<in> set (server_sent w). client_sent w' = client_sent w @ [client_answer s]))"
proof -
  have sub: "set (drop_nth n (to_server w)) \<subseteq> set (client_sent w)" "set (drop_nth n (to_client w)) \<subseteq> set (server_sent w)" for n
    by (rule subset_trans [OF drop_nth_props(3) assms(1)], rule subset_trans [OF drop_nth_props(3) assms(2)])
  have nth: "n < length (to_server w) \<Longrightarrow> to_server w ! n \<in> set (client_sent w)"
    "n < length (to_client w) \<Longrightarrow> to_client w ! n \<in> set (server_sent w)" for n
    by (rule subsetD [OF assms(1) nth_mem], assumption, rule subsetD [OF assms(2) nth_mem], assumption)
  show ?thesis
    unfolding w' using assms(1,2) sub nth
    by (cases ev) (simp_all add: client_packet server_packet wire_client_send_def wire_server_send_def subset_insertI2, blast+)
qed

end

interpretation tcp: answering_app tcp_app "\<lambda>_. HelloClientString ''Hello, Server!''" "\<lambda>_. HelloServerString ''Hello, Client!''"
  by unfold_locales
    (simp_all add: tcp_app_def client_packet_receive_system_def server_packet_receive_system_def
      split: HelloServerPacket.split HelloClientPacket.split)

interpretation udp: answering_app "udp_app f" "\<lambda>_. HelloClientString ''Hello, Server!''" "\<lambda>_. HelloServerString ''Hello, Client!''"
  by unfold_locales
    (simp_all add: udp_app_def udp_client_packet_receive_system_def udp_server_packet_receive_system_def
      split: HelloServerPacket.split HelloClientPacket.split)

interpretation enc: answering_app "encrypted_app second"
    "\<lambda>_. ClientString (if second then ''Hello, Server!, I'm Client2'' else ''Hello, Server!'')" "\<lambda>_. ServerString ''Hello, Client!''"
  by unfold_locales
    (simp_all add: encrypted_app_def client2_packet_receive_system_def enc_client_packet_receive_system_def
      enc_server_packet_receive_system_def split: CustomCryptServerPacket.split CustomCryptClientPacket.split)

interpretation mc: answering_app mc_app server_packet_reply client_packet_reply
  by unfold_locales (simp_all add: mc_app_def mc_client_packet_receive_system_def mc_server_packet_receive_system_def)

section \<open>Sequence numbers\<close>

lemma server_packet_reply_Reply [simp]: "Reply n = server_packet_reply s \<longleftrightarrow> s = Message n"
  by (cases s) auto

definition mc_inv :: "(McClientPacket, McServerPacket) wire \<Rightarrow> bool" where
  "mc_inv w \<longleftrightarrow>
     set (to_server w) \<subseteq> set (client_sent w) \<and> set (to_client w) \<subseteq> set (server_sent w)
     \<and> (\<forall>n. Reply n \<in> set (client_sent w) \<longrightarrow> Message n \<in> set (server_sent w))
     \<and> (\<forall>n. Message n \<in> set (server_sent w) \<longrightarrow> n < length (server_sent w))
     \<and> (\<forall>xs n ys. server_sent w = xs @ Message (Suc n) # ys \<longrightarrow> Message n \<in> set xs)"

lemma mc_inv_step:
  assumes inv: "mc_inv w" and len: "length (server_sent w) \<le> usize_max"
  shows "mc_inv (wire_step mc_app ev w)" "length (server_sent (wire_step mc_app ev w)) \<le> Suc (length (server_sent w))"
proof -
  let ?w = "wire_step mc_app ev w"
  have sub: "set (to_server w) \<subseteq> set (client_sent w)" "set (to_client w) \<subseteq> set (server_sent w)"
    using inv by (simp_all add: mc_inv_def)
  note step = mc.sent_step [OF sub refl, of ev]
  show "length (server_sent ?w) \<le> Suc (length (server_sent w))" using step by auto
  have num: "n < length (server_sent w)" if "Message n \<in> set (server_sent w)" for n
    using inv that by (simp add: mc_inv_def)
  have server: "(\<forall>n. Message n \<in> set (server_sent ?w) \<longrightarrow> n < length (server_sent ?w))
      \<and> (\<forall>xs n ys. server_sent ?w = xs @ Message (Suc n) # ys \<longrightarrow> Message n \<in> set xs)"
  proof (cases "server_sent ?w = server_sent w")
    case True
    then show ?thesis using inv by (simp add: mc_inv_def)
  next
    case False
    then obtain c where c: "c \<in> set (client_sent w)" "server_sent ?w = server_sent w @ [client_packet_reply c]" using step by blast
    have new: "n \<le> length (server_sent w) \<and> (\<forall>m. n = Suc m \<longrightarrow> Message m \<in> set (server_sent w))"
      if "client_packet_reply c = Message n" for n
    proof (cases c)
      case (Reply m)
      then have m: "Message m \<in> set (server_sent w)" using c(1) inv by (auto simp: mc_inv_def)
      then have "n = Suc m" using that num [OF m] len Reply by (simp add: seq_next_def usize_add_exact)
      then show ?thesis using m num [OF m] by auto
    qed (use that in \<open>simp add: FIRST_def\<close>)
    have "Message n \<in> set xs" if e: "server_sent w @ [client_packet_reply c] = xs @ Message (Suc n) # ys" for xs n ys
    proof (cases ys rule: rev_cases)
      case Nil
      then show ?thesis using e new [of "Suc n"] by simp
    next
      case (snoc zs z)
      then have "server_sent w = xs @ Message (Suc n) # zs" using e by simp
      then show ?thesis using inv by (simp add: mc_inv_def)
    qed
    moreover have "n < Suc (length (server_sent w))" if "Message n \<in> set (server_sent w @ [client_packet_reply c])" for n
      using that num [of n] new [of n] by auto
    ultimately show ?thesis unfolding c(2) by auto
  qed
  have "Message n \<in> set (server_sent ?w)" if "Reply n \<in> set (client_sent ?w)" for n
  proof -
    have "Message n \<in> set (server_sent w)"
      using step that inv by (auto simp: mc_inv_def)
    then show ?thesis using step by auto
  qed
  then show "mc_inv ?w" using server step unfolding mc_inv_def by blast
qed

lemma mc_inv_run:
  assumes "mc_inv w" "length (server_sent w) + length evs \<le> usize_max"
  shows "mc_inv (fold (wire_step mc_app) evs w)"
  using assms
proof (induction evs arbitrary: w)
  case (Cons ev evs)
  have "length (server_sent w) \<le> usize_max" using Cons.prems(2) by simp
  note s = mc_inv_step [OF Cons.prems(1) this, of ev]
  then show ?case using Cons.IH [OF s(1)] Cons.prems(2) by simp
qed simp

section \<open>Configurations that fit\<close>

text \<open>What one end encodes from its initial state, of whatever length, the other end decodes.\<close>

definition adapters_fit ::
  "('x, 'q, 'ee, 'xe, 'z) SerializerAdapter \<Rightarrow> ('q, 'y, 'ye, 'de, 'w) SerializerAdapter \<Rightarrow> bool"
where
  "adapters_fit a b \<longleftrightarrow>
     (\<forall>ps. \<exists>bss. fst (encode_seq ps a) = map (Some \<circ> Inr) bss \<and> fst (decode_seq bss b) = map (Some \<circ> Inr) ps)"

definition config_fits :: "('cp, 'sp, 'ee, 'de, 'z) example_config \<Rightarrow> bool" where
  "config_fits cfg \<longleftrightarrow>
     server_datagram (fst cfg) = client_datagram (snd cfg) \<and> server_length (fst cfg) = client_length (snd cfg)
     \<and> adapters_fit (client_serializer (snd cfg)) (server_serializer (fst cfg))
     \<and> adapters_fit (server_serializer (fst cfg)) (client_serializer (snd cfg))
     \<and> \<not> fst (warn_if_stateful_over_datagrams (server_datagram (fst cfg)) (server_serializer (fst cfg)) False)
     \<and> \<not> fst (warn_if_stateful_over_datagrams (client_datagram (snd cfg)) (client_serializer (snd cfg)) False)"

lemma bitcode_fit:
  assumes "bitcode_laws encode decode"
  shows "adapters_fit (ReadOnly (BitcodeSerializer encode decode') ()) (ReadOnly (BitcodeSerializer encode' decode) ())"
  unfolding adapters_fit_def
proof
  fix ps
  show "\<exists>bss. fst (encode_seq ps (ReadOnly (BitcodeSerializer encode decode') ())) = map (Some \<circ> Inr) bss
      \<and> fst (decode_seq bss (ReadOnly (BitcodeSerializer encode' decode) ())) = map (Some \<circ> Inr) ps"
    using assms
    by (intro exI [of _ "map encode ps"])
      (simp add: encode_seq_ReadOnly decode_seq_ReadOnly BitcodeSerializer_def bitcode_laws_def)
qed

lemma custom_crypt_fit:
  assumes laws: "bitcode_laws encode decode"
  shows "adapters_fit (Mutable (custom_crypt encode decode') \<lparr>guarded = default_engine, poisoned = False\<rparr>)
     (Mutable (custom_crypt encode' decode) \<lparr>guarded = default_engine, poisoned = False\<rparr>)"
proof -
  have "\<exists>bss. fst (encode_seq ps (Mutable (custom_crypt encode decode') \<lparr>guarded = z, poisoned = False\<rparr>)) = map (Some \<circ> Inr) bss
      \<and> fst (decode_seq bss (Mutable (custom_crypt encode' decode) \<lparr>guarded = w, poisoned = False\<rparr>)) = map (Some \<circ> Inr) ps"
    if "engines_in_step z w" for ps z w
    using that
  proof (induction ps arbitrary: z w)
    case (Cons p ps)
    obtain bs z' where e: "ser_serialize (crypt_serializer encode decode') p z = (Inr bs, z')"
      by (cases "xor_encrypt (encode p) z") (simp add: crypt_serializer_def engine_encrypt_def)
    obtain w' where d: "ser_deserialize (crypt_serializer encode' decode) bs w = (Inr p, w')" "engines_in_step z' w'"
      using crypt_sync [OF laws, of decode' encode'] Cons.prems e unfolding codec_sync_def by blast
    obtain bss where "fst (encode_seq ps (Mutable (custom_crypt encode decode') \<lparr>guarded = z', poisoned = False\<rparr>)) = map (Some \<circ> Inr) bss"
      "fst (decode_seq bss (Mutable (custom_crypt encode' decode) \<lparr>guarded = w', poisoned = False\<rparr>)) = map (Some \<circ> Inr) ps"
      using Cons.IH [OF d(2)] by blast
    then show ?case
      using e d(1)
      by (intro exI [of _ "bs # bss"])
        (auto simp: adapter_serialize_def adapter_deserialize_def with_lock_def custom_crypt_def split: prod.split)
  qed simp
  then show ?thesis by (simp add: adapters_fit_def engines_in_step_def default_engine_def)
qed

section \<open>Properties\<close>


text \<open>Formats that keep bitcode's law.\<close>

definition demo_bytes :: "string \<Rightarrow> byte list" where
  "demo_bytes s = map (\<lambda>c. of_nat (of_char c)) s"

definition demo_string :: "byte list \<Rightarrow> string" where
  "demo_string bs = map (\<lambda>b. char_of (unat b)) bs"

lemma demo_string_bytes [simp]: "demo_string (demo_bytes s) = s"
  by (induction s) (simp_all add: demo_string_def demo_bytes_def unat_of_nat)


text \<open>
  Sequence numbers of \<^verbatim>\<open>multiple_connections.rs\<close> over a network that loses, repeats and reorders packets:
  a server sends number \<open>n + 1\<close> on a connection only after it has sent \<open>n\<close>, and a client replies only
  to numbers the server has sent to it. The increment stays within \<open>usize\<close> as long as fewer than
  \<open>2 ^ 64 - 1\<close> events have happened.
\<close>

theorem sequence_numbers_causal:
  assumes "Suc (length evs) \<le> usize_max" and "w = fold (wire_step mc_app) evs (wire_connect mc_app)"
  shows "(\<forall>xs n ys. server_sent w = xs @ Message (Suc n) # ys \<longrightarrow> Message n \<in> set xs)
     \<and> (\<forall>n. Reply n \<in> set (client_sent w) \<longrightarrow> Message n \<in> set (server_sent w))"
proof -
  have w0: "wire_connect mc_app = \<lparr>to_server = [ClientHello], to_client = [ServerHello], client_sent = [ClientHello], server_sent = [ServerHello]\<rparr>"
    by (simp add: wire_connect_def mc_app_def mc_established_def mc_server_new_connection_system_def wire_client_send_def wire_server_send_def)
  have "mc_inv (wire_connect mc_app)" by (auto simp: mc_inv_def w0 Cons_eq_append_conv)
  from mc_inv_run [OF this, of evs] show ?thesis using assms by (simp add: w0 mc_inv_def)
qed

theorem sequence_numbers_causal_witness:
  "Message 0 \<in> set [ServerHello, Message 0]
   \<and> Message 0 \<in> set (server_sent (fold (wire_step mc_app)
        [DeliverServer 0 True, DeliverClient 1 True, RepeatServer 0, DeliverServer 1 True, LoseClient 0] (wire_connect mc_app)))"
proof -
  let ?evs = "[DeliverServer 0 True, DeliverClient 1 True, RepeatServer 0, DeliverServer 1 True, LoseClient 0]"
  let ?w = "fold (wire_step mc_app) ?evs (wire_connect mc_app)"
  note run = wire_connect_def mc_app_def mc_established_def mc_server_new_connection_system_def wire_client_send_def
    wire_server_send_def mc_client_packet_receive_system_def mc_server_packet_receive_system_def drop_nth_def FIRST_def
    seq_next_def usize_add_def
  have sent: "server_sent ?w = [ServerHello, Message 0] @ Message (Suc 0) # []" by (simp add: run)
  have reply: "Reply 0 \<in> set (client_sent ?w)" by (simp add: run)
  have len: "Suc (length ?evs) \<le> usize_max" by (simp add: usize_max_def)
  note causal = sequence_numbers_causal [OF len refl]
  show ?thesis using conjunct1 [OF causal] conjunct2 [OF causal] sent reply by blast
qed

text \<open>
  The examples do not flood a connection: as long as the network repeats nothing, there are never
  more packets under way than the greetings at its start, one over TCP and two over UDP, where both
  ends greet, whatever is lost and in whatever order packets arrive.
\<close>

theorem examples_in_flight:
  assumes "\<forall>ev \<in> set evs. \<not> repeats ev"
  shows "in_flight (fold (wire_step tcp_app) evs (wire_connect tcp_app)) \<le> 1
     \<and> in_flight (fold (wire_step (encrypted_app second)) evs (wire_connect (encrypted_app second))) \<le> 1
     \<and> in_flight (fold (wire_step (udp_app (\<lambda>_. id))) evs (wire_connect (udp_app (\<lambda>_. id)))) \<le> 2
     \<and> in_flight (fold (wire_step mc_app) evs (wire_connect mc_app)) \<le> 2"
proof (intro conjI)
  note greetings = wire_connect_def wire_client_send_def wire_server_send_def
  show "in_flight (fold (wire_step tcp_app) evs (wire_connect tcp_app)) \<le> 1"
    using tcp.in_flight_run [OF assms, of "wire_connect tcp_app"]
    by (simp add: greetings tcp_app_def server_new_connection_system_def)
  show "in_flight (fold (wire_step (encrypted_app second)) evs (wire_connect (encrypted_app second))) \<le> 1"
    using enc.in_flight_run [OF assms, of second "wire_connect (encrypted_app second)"]
    by (simp add: greetings encrypted_app_def enc_server_new_connection_system_def)
  show "in_flight (fold (wire_step (udp_app (\<lambda>_. id))) evs (wire_connect (udp_app (\<lambda>_. id)))) \<le> 2"
    using udp.in_flight_run [OF assms, of "\<lambda>_. id" "wire_connect (udp_app (\<lambda>_. id))"]
    by (simp add: greetings udp_app_def udp_established_def udp_server_new_connection_system_def)
  show "in_flight (fold (wire_step mc_app) evs (wire_connect mc_app)) \<le> 2"
    using mc.in_flight_run [OF assms, of "wire_connect mc_app"]
    by (simp add: greetings mc_app_def mc_established_def mc_server_new_connection_system_def)
qed

theorem examples_in_flight_witness:
  "in_flight (fold (wire_step mc_app) [DeliverServer 0 True, DeliverClient 1 True, LoseClient 0] (wire_connect mc_app)) \<le> 2"
proof -
  have "\<forall>ev \<in> set [DeliverServer 0 True, DeliverClient 1 True, LoseClient 0]. \<not> repeats ev" by simp
  from examples_in_flight [OF this] show ?thesis by blast
qed

text \<open>
  The limits of \<^verbatim>\<open>hello_world_udp.rs\<close> fit together: its options are valid, and every payload that a write half
  configured with them lets out is within the receive limits of the other end.
\<close>

lemma hello_udp_limits_fit:
  assumes "64 \<le> max_permits"
  shows "\<exists>v. validated_new max_permits hello_udp_options = Inr v
     \<and> (length bs \<le> validated_max_payload_size v \<longrightarrow>
          length bs \<le> MAX_DATAGRAM_SIZE \<and> length bs \<le> max_packet_size (sync_limits None (Some hello_udp_limit) l))"
  using assms
  by (simp add: validated_new_def max_payload_size_def hello_udp_options_def default_udp_options_def MAX_DATAGRAM_SIZE_def
      validated_max_payload_size_def max_packet_size_def sync_limits_def set_max_packet_size_def hello_udp_limit_def)

end
