(* ===== verification/Packet_Halves.thy ===== *)
theory Packet_Halves
  imports Protocol_Traits
begin

text \<open>
  The two halves of a stream as the connection tasks see them: the traits \<open>PacketReader\<close> and
  \<open>PacketWriter\<close> of \<^verbatim>\<open>src/src/protocols/packet.rs\<close> with their defaults, the byte-stream traits and wrappers
  of \<^verbatim>\<open>src/src/protocols/framing.rs\<close>, and the implementations for TCP (\<^verbatim>\<open>tcp.rs\<close>) and UDP
  (\<^verbatim>\<open>udp/stream.rs\<close>). A method is one poll; a trait with its methods is a record, an implementation a
  value of it. The serializer and the length codec, arguments of the methods, are chosen with the
  implementation, since a connection passes the same ones to every call.
\<close>

section \<open>Byte streams and their wrappers\<close>

record 'r ReadStream =
  read_exact :: "usize \<Rightarrow> 'r \<Rightarrow> (io_error + byte list) \<times> 'r"

record 'w WriteStream =
  write_all :: "byte list \<Rightarrow> 'w \<Rightarrow> (io_error + unit) \<times> 'w"

datatype 'r FramedReader = FramedReader (reader_inner: 'r)

datatype 'w FramedWriter = FramedWriter (writer_inner: 'w)

definition framed_reader_new :: "'r \<Rightarrow> 'r FramedReader" where
  "framed_reader_new inner = FramedReader inner"

definition framed_reader_get_ref :: "'r FramedReader \<Rightarrow> 'r" where
  "framed_reader_get_ref r = reader_inner r"

text \<open>A call through the mutable borrow.\<close>

definition framed_reader_get_mut :: "('r \<Rightarrow> 'a \<times> 'r) \<Rightarrow> 'r FramedReader \<Rightarrow> 'a \<times> 'r FramedReader" where
  "framed_reader_get_mut f r = (case f (reader_inner r) of (x, inner) \<Rightarrow> (x, FramedReader inner))"

definition framed_reader_into_inner :: "'r FramedReader \<Rightarrow> 'r" where
  "framed_reader_into_inner r = reader_inner r"

definition framed_writer_new :: "'w \<Rightarrow> 'w FramedWriter" where
  "framed_writer_new inner = FramedWriter inner"

definition framed_writer_get_ref :: "'w FramedWriter \<Rightarrow> 'w" where
  "framed_writer_get_ref w = writer_inner w"

definition framed_writer_get_mut :: "('w \<Rightarrow> 'a \<times> 'w) \<Rightarrow> 'w FramedWriter \<Rightarrow> 'a \<times> 'w FramedWriter" where
  "framed_writer_get_mut f w = (case f (writer_inner w) of (x, inner) \<Rightarrow> (x, FramedWriter inner))"

definition framed_writer_into_inner :: "'w FramedWriter \<Rightarrow> 'w" where
  "framed_writer_into_inner w = writer_inner w"

text \<open>
  The TCP halves. tokio splits the socket and offers \<open>read_exact\<close> and \<open>write_all\<close>; the former returns
  the number of bytes beside them, which is dropped.
\<close>

definition tcp_read_half :: "(usize \<Rightarrow> 'r \<Rightarrow> (io_error + byte list \<times> usize) \<times> 'r) \<Rightarrow> 'r ReadStream" where
  "tcp_read_half async_read_exact = \<lparr>read_exact = (\<lambda>n r. map_prod (map_sum id fst) id (async_read_exact n r))\<rparr>"

definition tcp_write_half :: "(byte list \<Rightarrow> 'w \<Rightarrow> (io_error + unit) \<times> 'w) \<Rightarrow> 'w WriteStream" where
  "tcp_write_half async_write_all = \<lparr>write_all = async_write_all\<rparr>"

definition tcp_socket_ref :: "'s TcpNetworkStream \<Rightarrow> 's" where
  "tcp_socket_ref st = tcp_stream st"

definition tcp_into_split ::
  "('s \<Rightarrow> 'r \<times> 'w) \<Rightarrow> 's TcpNetworkStream \<Rightarrow> io_error + 'r FramedReader \<times> 'w FramedWriter"
where
  "tcp_into_split socket_into_split st =
     (case socket_into_split (tcp_stream st) of
        (read, write) \<Rightarrow> Inr (framed_reader_new read, framed_writer_new write))"

section \<open>Packet readers\<close>

text \<open>
  \<open>None\<close> is a poll that never returns; \<open>now\<close> is what the clock shows at the point where a reader looks
  at it. The state of the serializer is threaded through.
\<close>

type_synonym ('x, 'd, 'l, 'r, 'z) receive_poll =
  "ReceiveLimits \<Rightarrow> instant \<Rightarrow> 'r \<Rightarrow> 'z \<Rightarrow> ((('d, 'l) ReceiveError + 'x) poll \<times> 'r \<times> 'z) option"

record ('p, 'd, 'l, 'r, 'z) PacketReader =
  pr_close :: "'r \<Rightarrow> 'r"
  pr_receive :: "('p, 'd, 'l, 'r, 'z) receive_poll"
  pr_receive_with_timestamp :: "('p \<times> instant, 'd, 'l, 'r, 'z) receive_poll"

definition default_close :: "'r \<Rightarrow> 'r" where
  "default_close r = r"

definition default_receive_with_timestamp ::
  "('p, 'd, 'l, 'r, 'z) receive_poll \<Rightarrow> ('p \<times> instant, 'd, 'l, 'r, 'z) receive_poll"
where
  "default_receive_with_timestamp receive limits now r z =
     (case receive limits now r z of
        None \<Rightarrow> None
      | Some (Pending, r', z') \<Rightarrow> Some (Pending, r', z')
      | Some (Ready (Inl err), r', z') \<Rightarrow> Some (Ready (Inl err), r', z')
      | Some (Ready (Inr packet), r', z') \<Rightarrow> Some (Ready (Inr (packet, now)), r', z'))"

text \<open>A custom transport that implements \<open>receive\<close> only.\<close>

definition custom_reader :: "('p, 'd, 'l, 'r, 'z) receive_poll \<Rightarrow> ('p, 'd, 'l, 'r, 'z) PacketReader" where
  "custom_reader receive =
     \<lparr>pr_close = default_close, pr_receive = receive,
      pr_receive_with_timestamp = default_receive_with_timestamp receive\<rparr>"

definition framed_packet_reader ::
  "'i ReadStream \<Rightarrow> ('p, 'q, 'ee, 'd, 'z) Serializer \<Rightarrow> 'l PacketLengthSerializer
     \<Rightarrow> ('p, 'd, 'l, 'i FramedReader, 'z) PacketReader"
where
  "framed_packet_reader RS S C =
     \<lparr>pr_close = default_close,
      pr_receive = (\<lambda>limits now r z.
        map_option (\<lambda>(res, i, z'). (Ready res, FramedReader i, z'))
          (framed_receive (read_exact RS) S C limits now (reader_inner r) z)),
      pr_receive_with_timestamp = (\<lambda>limits now r z.
        map_option (\<lambda>(res, i, z'). (Ready res, FramedReader i, z'))
          (receive_with_timestamp (read_exact RS) S C limits now (reader_inner r) z))\<rparr>"

text \<open>
  The UDP read half over its \<open>Incoming\<close>, with the counters and the closed flag of the peer's state.
  \<open>from_socket\<close> tells which kind of \<open>Incoming\<close> it is. The length codec is ignored.
\<close>

record 'src UdpReadHalf =
  rh_incoming :: 'src
  rh_handle :: UdpConnectionHandle
  rh_closed :: bool

definition udp_read_close :: "'src UdpReadHalf \<Rightarrow> 'src UdpReadHalf" where
  "udp_read_close r = r\<lparr>rh_closed := True\<rparr>"

definition udp_receive_with_timestamp ::
  "('src \<Rightarrow> (io_error + datagram) poll \<times> 'src) \<Rightarrow> bool \<Rightarrow> ('p, 'q, 'ee, 'd, 'z) Serializer
     \<Rightarrow> ('p \<times> instant, 'd, 'l, 'src UdpReadHalf, 'z) receive_poll"
where
  "udp_receive_with_timestamp nxt from_socket S limits now r z =
     map_option (\<lambda>(res, failed, src, h, z'). (res, \<lparr>rh_incoming = src, rh_handle = h, rh_closed = rh_closed r \<or> failed\<rparr>, z'))
       (udp_receive nxt (rh_closed r) from_socket S limits (rh_incoming r) (rh_handle r) z)"

definition udp_receive_packet ::
  "('src \<Rightarrow> (io_error + datagram) poll \<times> 'src) \<Rightarrow> bool \<Rightarrow> ('p, 'q, 'ee, 'd, 'z) Serializer
     \<Rightarrow> ('p, 'd, 'l, 'src UdpReadHalf, 'z) receive_poll"
where
  "udp_receive_packet nxt from_socket S limits now r z =
     map_option (\<lambda>(res, s). (map_poll (map_sum id fst) res, s))
       (udp_receive_with_timestamp nxt from_socket S limits now r z)"

definition udp_packet_reader ::
  "('src \<Rightarrow> (io_error + datagram) poll \<times> 'src) \<Rightarrow> bool \<Rightarrow> ('p, 'q, 'ee, 'd, 'z) Serializer
     \<Rightarrow> ('p, 'd, 'l, 'src UdpReadHalf, 'z) PacketReader"
where
  "udp_packet_reader nxt from_socket S =
     \<lparr>pr_close = udp_read_close, pr_receive = udp_receive_packet nxt from_socket S,
      pr_receive_with_timestamp = udp_receive_with_timestamp nxt from_socket S\<rparr>"

section \<open>Packet writers\<close>

text \<open>\<open>e\<close> is what the poll meets from outside.\<close>

record ('q, 'e, 'w, 'z) PacketWriter =
  pw_send :: "'e \<Rightarrow> 'q \<Rightarrow> 'w \<Rightarrow> 'z \<Rightarrow> (io_error + unit) poll \<times> 'w \<times> 'z"

definition framed_packet_writer ::
  "'i WriteStream \<Rightarrow> ('p, 'q, 'ee, 'd, 'z) Serializer \<Rightarrow> 'l PacketLengthSerializer \<Rightarrow> ('ee \<Rightarrow> string) \<Rightarrow> ('l \<Rightarrow> string)
     \<Rightarrow> ('q, unit, 'i FramedWriter, 'z) PacketWriter"
where
  "framed_packet_writer WS S C show_ee show_l =
     \<lparr>pw_send = (\<lambda>_ packet w z.
        case framed_send (write_all WS) S C show_ee show_l packet (writer_inner w) z of
          (res, i, z') \<Rightarrow> (Ready res, FramedWriter i, z'))\<rparr>"

definition udp_packet_writer ::
  "('p, 'q, 'ee, 'd, 'z) Serializer \<Rightarrow> ('ee \<Rightarrow> string) \<Rightarrow> ('q, send_env, UdpWriteHalf \<times> UdpConnectionHandle, 'z) PacketWriter"
where
  "udp_packet_writer S show_ee =
     \<lparr>pw_send = (\<lambda>e packet w z.
        case udp_send S show_ee e packet (fst w) (snd w) z of (res, wh, h, z') \<Rightarrow> (res, (wh, h), z'))\<rparr>"

text \<open>The counters that the UDP write half shows; the platform's \<open>usize\<close> has the width of the counter.\<close>

definition usize_try_from :: "u64 \<Rightarrow> usize option" where
  "usize_try_from n = (if unat n \<le> usize_max then Some (unat n) else None)"

definition dropped_oversized :: "UdpConnectionHandle \<Rightarrow> usize" where
  "dropped_oversized h = (case usize_try_from (drop_stat UOversizedPayload (counters h)) of Some n \<Rightarrow> n | None \<Rightarrow> usize_max)"

definition dropped_send_errors :: "UdpConnectionHandle \<Rightarrow> usize" where
  "dropped_send_errors h = (case usize_try_from (drop_stat USocketSendError (counters h)) of Some n \<Rightarrow> n | None \<Rightarrow> usize_max)"

section \<open>The contract of readers\<close>

text \<open>The packets of a run of polls, up to the first that does not give one.\<close>

fun receive_run :: "('x, 'd, 'l, 'r, 'z) receive_poll \<Rightarrow> ReceiveLimits \<Rightarrow> instant list \<Rightarrow> 'r \<Rightarrow> 'z \<Rightarrow> 'x list" where
  "receive_run rcv l [] r z = []"
| "receive_run rcv l (t # ts) r z =
     (case rcv l t r z of Some (Ready (Inr x), r', z') \<Rightarrow> x # receive_run rcv l ts r' z' | _ \<Rightarrow> [])"

definition decoded_within :: "('p, 'q, 'ee, 'd, 'z) Serializer \<Rightarrow> ReceiveLimits \<Rightarrow> 'p \<Rightarrow> bool" where
  "decoded_within S l p \<longleftrightarrow>
     (\<exists>payload z. length payload \<le> max_packet_size l \<and> fst (ser_deserialize S payload z) = Inr p)"

text \<open>Both ways to read give the same packets and leave the reader in the same state.\<close>

locale packet_reader =
  fixes R :: "('p, 'd, 'l, 'r, 'z) PacketReader"
  assumes agree: "pr_receive R l now r z =
      map_option (\<lambda>(res, s). (map_poll (map_sum id fst) res, s)) (pr_receive_with_timestamp R l now r z)"
begin

lemma receive_run_agree: "map fst (receive_run (pr_receive_with_timestamp R) l ts r z) = receive_run (pr_receive R) l ts r z"
  by (induction ts arbitrary: r z) (auto simp: agree split: option.split poll.split sum.split)

end

text \<open>A reader that enforces the limits before it decodes, given that its stream does what it is asked to.\<close>

locale limited_reader = packet_reader R for R :: "('p, 'd, 'l, 'r, 'z) PacketReader" +
  fixes S :: "('p, 'q, 'ee, 'd, 'z) Serializer" and stream_ok :: bool
  assumes limit: "stream_ok \<Longrightarrow> pr_receive_with_timestamp R l now r z = Some (Ready (Inr (p, t)), r', z') \<Longrightarrow> decoded_within S l p"
begin

lemma run_within_limit: "stream_ok \<Longrightarrow> p \<in> set (receive_run (pr_receive R) l ts r z) \<Longrightarrow> decoded_within S l p"
  unfolding receive_run_agree [symmetric]
proof (induction ts arbitrary: r z)
  case (Cons t ts)
  then show ?case by (auto dest: limit [OF _ sym] split: option.splits poll.splits sum.splits)
qed simp

end

interpretation custom: packet_reader "custom_reader receive" for receive
  by unfold_locales
    (simp add: custom_reader_def default_receive_with_timestamp_def split: option.split poll.split sum.split)

definition read_fills :: "'r ReadStream \<Rightarrow> bool" where
  "read_fills RS \<longleftrightarrow> (\<forall>n r bs r'. read_exact RS n r = (Inr bs, r') \<longrightarrow> length bs = n)"

lemma receive_within_limit:
  assumes "read_fills RS" "receive_with_timestamp (read_exact RS) S C l now r z = Some (Inr (p, t), r', z')"
  shows "decoded_within S l p"
proof -
  obtain len r1 payload where l: "len \<le> max_packet_size l" and p: "read_exact RS len r1 = (Inr payload, r')"
    and d: "ser_deserialize S payload z = (Inr p, z')"
    using assms(2) by (fastforce simp: receive_with_timestamp_def not_less split: option.splits sum.splits if_splits prod.splits)
  have "length payload = len" using assms(1) p by (auto simp: read_fills_def)
  then show ?thesis using l d by (auto simp: decoded_within_def intro!: exI [of _ payload] exI [of _ z])
qed

interpretation framed: limited_reader "framed_packet_reader RS S C" S "read_fills RS" for RS S C
proof (unfold_locales, goal_cases)
  case (1 l now r z)
  show ?case by (auto simp: framed_packet_reader_def framed_receive_def option.map_comp comp_def intro!: option.map_cong)
next
  case (2 l now r z p t r' z')
  then show ?case by (auto simp: framed_packet_reader_def intro: receive_within_limit)
qed

lemma udp_receive_within:
  assumes "udp_receive nxt c fs S l src h z = Some y"
  shows "case y of (Ready (Inr (p, t)), _) \<Rightarrow> decoded_within S l p | _ \<Rightarrow> True"
  using assms
proof (rule udp_receive.raw_induct [rotated], goal_cases)
  case (1 rec nxt c fs S l src h z y)
  note rec = 1(1) and eq = 1(2)
  consider (skip) src' h' z' where "rec nxt c fs S l src' h' z' = Some y"
    | (packet) payload at src' h' p z' where "y = (Ready (Inr (p, at)), False, src', h', z')" "length payload \<le> max_packet_size l"
        "ser_deserialize S payload z = (Inr p, z')"
    | (other) "\<And>p t s. y \<noteq> (Ready (Inr (p, t)), s)"
    using eq by (auto simp: Let_def not_less split: if_splits prod.splits poll.splits sum.splits)
  then show ?case
  proof cases
    case skip
    then show ?thesis by (rule rec)
  next
    case packet
    then show ?thesis by (auto simp: decoded_within_def intro!: exI [of _ payload] exI [of _ z])
  next
    case other
    then show ?thesis by (auto split: prod.split poll.split sum.split)
  qed
qed

interpretation udp: limited_reader "udp_packet_reader nxt from_socket S" S True for nxt from_socket S
proof (unfold_locales, goal_cases)
  case (1 l now r z)
  show ?case by (simp add: udp_packet_reader_def udp_receive_packet_def)
next
  case (2 l now r z p t r' z')
  then show ?case
    by (auto simp: udp_packet_reader_def udp_receive_with_timestamp_def dest!: udp_receive_within)
qed

lemma udp_closed:
  "udp_receive_with_timestamp nxt fs S l now (udp_read_close r) z = Some (Ready (Inl (Io peer_closed_error)), udp_read_close r, z)"
  by (simp add: udp_receive_with_timestamp_def udp_read_close_def udp_receive.simps)

lemma custom_run_stamps:
  "receive_run (pr_receive_with_timestamp (custom_reader receive)) l ts r z = zip (receive_run receive l ts r z) ts"
  by (induction ts arbitrary: r z)
    (simp_all add: custom_reader_def default_receive_with_timestamp_def split: option.split poll.split sum.split)

section \<open>The contract of writers\<close>

text \<open>A packet that cannot be encoded is reported, and nothing of it reaches the wire.\<close>

fun send_run :: "('q, 'e, 'w, 'z) PacketWriter \<Rightarrow> ('e \<times> 'q) list \<Rightarrow> 'w \<Rightarrow> 'z \<Rightarrow> (io_error + unit) poll list \<times> 'w \<times> 'z" where
  "send_run W [] w z = ([], w, z)"
| "send_run W ((e, q) # qs) w z =
     (case pw_send W e q w z of
        (res, w', z') \<Rightarrow> (case send_run W qs w' z' of (rs, w'', z'') \<Rightarrow> (res # rs, w'', z'')))"

locale packet_writer =
  fixes W :: "('q, 'e, 'w, 'z) PacketWriter" and S :: "('p, 'q, 'ee, 'd, 'z) Serializer"
  assumes encode_error: "ser_serialize S q z = (Inl err, z') \<Longrightarrow> \<exists>e'. pw_send W e q w z = (Ready (Inl e'), w, z')"
begin

lemma unencodable_run:
  assumes "\<And>q z. q \<in> snd ` set qs \<Longrightarrow> \<exists>err z'. ser_serialize S q z = (Inl err, z')" and "send_run W qs w z = (rs, w', z')"
  shows "w' = w \<and> length rs = length qs \<and> list_all (\<lambda>r. \<exists>e. r = Ready (Inl e)) rs"
  using assms
proof (induction qs arbitrary: z rs)
  case (Cons x qs)
  obtain e q where x: "x = (e, q)" by fastforce
  obtain err z1 where "ser_serialize S q z = (Inl err, z1)" using Cons.prems(1) x by force
  then obtain e' where p: "pw_send W e q w z = (Ready (Inl e'), w, z1)" using encode_error by blast
  obtain rs1 where r: "send_run W qs w z1 = (rs1, w', z')" "rs = Ready (Inl e') # rs1"
    using Cons.prems(2) x p by (auto split: prod.splits)
  have "w' = w \<and> length rs1 = length qs \<and> list_all (\<lambda>r. \<exists>e. r = Ready (Inl e)) rs1"
    using Cons.prems(1) by (intro Cons.IH [OF _ r(1)]) auto
  then show ?case by (simp add: r(2))
qed simp

end

interpretation framed_writer: packet_writer "framed_packet_writer WS S C show_ee show_l" S for WS S C show_ee show_l
  by unfold_locales (simp add: framed_packet_writer_def framed_send_def)

interpretation udp_writer: packet_writer "udp_packet_writer S show_ee" S for S show_ee
  by unfold_locales (simp add: udp_packet_writer_def udp_send_def)

section \<open>Properties\<close>

text \<open>Neither write half lets an unencodable packet pass in silence.\<close>

lemma writers_report_encoding:
  assumes "\<And>q z. q \<in> snd ` set qs \<Longrightarrow> \<exists>err z'. ser_serialize S q z = (Inl err, z')"
    and "\<And>q z. q \<in> snd ` set us \<Longrightarrow> \<exists>err z'. ser_serialize S q z = (Inl err, z')"
    and "send_run (framed_packet_writer WS S C show_ee show_l) qs w z = (rs, w', z')"
    and "send_run (udp_packet_writer S show_ee) us v y = (vs, v', y')"
  shows "w' = w \<and> v' = v \<and> list_all (\<lambda>r. \<exists>e. r = Ready (Inl e)) (rs @ vs)"
  using framed_writer.unencodable_run [OF assms(1,3)] udp_writer.unencodable_run [OF assms(2,4)] by simp

text \<open>The counters shown by the write half are the handle's, since both are 64 bits wide.\<close>

lemma dropped_exact:
  "dropped_oversized h = unat (drop_stat UOversizedPayload (counters h))"
  "dropped_send_errors h = unat (drop_stat USocketSendError (counters h))"
proof -
  have "unat n \<le> usize_max" for n :: u64
    using unsigned_less [of n, where 'a = nat] by (simp add: usize_max_def)
  then show "dropped_oversized h = unat (drop_stat UOversizedPayload (counters h))"
    "dropped_send_errors h = unat (drop_stat USocketSendError (counters h))"
    by (simp_all add: dropped_oversized_def dropped_send_errors_def usize_try_from_def)
qed



end
