(* ===== verification/Example_Mains.thy ===== *)
theory Example_Mains
  imports Scheduling Server_Endpoint Lobby_Battle Session_Protocol Example_Apps
begin

text \<open>
  The \<open>main\<close> functions under \<^verbatim>\<open>src/examples\<close>: the apps they assemble from the plugins and from systems of
  their own, and the configurations of the two larger examples. An app is what \<open>Scheduling\<close> knows of
  it; observers are the subject of the examples' own theories, and Bevy's plugins are not part of
  the repository. A constructor that panics gives \<open>None\<close>. Text addresses are given resolved.
\<close>

section \<open>Configurations\<close>

definition lobby_config ::
  "(LobbyClientPacket \<Rightarrow> byte list) \<Rightarrow> (byte list \<Rightarrow> 'be + LobbyClientPacket) \<Rightarrow> (LobbyServerPacket \<Rightarrow> byte list)
     \<Rightarrow> (byte list \<Rightarrow> 'be + LobbyServerPacket) \<Rightarrow> (LobbyClientPacket, LobbyServerPacket, 'ee, 'be, unit) example_config"
where
  "lobby_config = bitcode_config False (LittleEndian, U16)"

definition battle_config ::
  "(BattleClientPacket \<Rightarrow> byte list) \<Rightarrow> (byte list \<Rightarrow> 'be + BattleClientPacket) \<Rightarrow> (BattleServerPacket \<Rightarrow> byte list)
     \<Rightarrow> (byte list \<Rightarrow> 'be + BattleServerPacket) \<Rightarrow> (BattleClientPacket, BattleServerPacket, 'ee, 'be, unit) example_config"
where
  "battle_config = bitcode_config True (LittleEndian, U16)"

definition session_options :: UdpOptions where
  "session_options = default_udp_options\<lparr>max_peers := MAX_PEERS\<rparr>"

definition session_config ::
  "(Packet \<Rightarrow> byte list) \<Rightarrow> (byte list \<Rightarrow> 'be + Packet) \<Rightarrow> (Packet, Packet, 'ee, 'be, unit) example_config"
where
  "session_config enc dec = bitcode_config True (LittleEndian, U32) enc dec enc dec"

definition session_limit :: MaxPacketSize where
  "session_limit = MaxPacketSize 1200"

text \<open>\<open>random_id\<close>: \<open>fill\<close> is the operating system's generator.\<close>

definition random_id :: "(usize \<Rightarrow> string + byte list) \<Rightarrow> usize \<Rightarrow> io_error + byte list" where
  "random_id fill n = (case fill n of Inl err \<Rightarrow> Inl (IoError Other err) | Inr bs \<Rightarrow> Inr bs)"

section \<open>Apps\<close>

definition server_plugin :: "nat \<Rightarrow> bool \<Rightarrow> io_error + SocketAddr list \<Rightarrow> plugin option" where
  "server_plugin cfg datagram resolved = map_option (\<lambda>a. Server cfg datagram \<lparr>svp_address = a\<rparr>) (server_bind resolved)"

definition client_plugin :: "nat \<Rightarrow> bool \<Rightarrow> io_error + SocketAddr list \<Rightarrow> plugin option" where
  "client_plugin cfg datagram resolved = map_option (Client cfg datagram) (ClientPlugin_connect resolved)"

text \<open>\<open>add_systems\<close> in \<open>Update\<close>, each system on its own or as a chain.\<close>

definition add_systems :: "nat list \<Rightarrow> Scheduling.app \<Rightarrow> Scheduling.app" where
  "add_systems ns a = fold (\<lambda>n. add_system Update (UserSystem n) [] []) ns a"

definition add_chain :: "nat list \<Rightarrow> Scheduling.app \<Rightarrow> Scheduling.app" where
  "add_chain ns a =
     fold (\<lambda>(m, n). order_before Update (Sys (UserSystem m)) (Sys (UserSystem n))) (zip ns (tl ns)) (add_systems ns a)"

definition localhost_3000 :: "io_error + SocketAddr list" where
  "localhost_3000 = Inr [V4 2130706433 3000]"

text \<open>The apps of the threads that a \<open>main\<close> spawns; the introductory examples have a plugin each.\<close>

definition thread_app :: "plugin option \<Rightarrow> Scheduling.app option" where
  "thread_app p = map_option (\<lambda>x. plugin_build False x App_new) p"

definition hello_tcp_main :: "Scheduling.app option list" where
  "hello_tcp_main = map thread_app [server_plugin 0 False localhost_3000, client_plugin 0 False localhost_3000]"

definition hello_udp_main :: "Scheduling.app option list" where
  "hello_udp_main = map thread_app [server_plugin 0 True localhost_3000, client_plugin 0 True localhost_3000]"

definition encrypted_main :: "Scheduling.app option list" where
  "encrypted_main =
     map thread_app [server_plugin 0 False localhost_3000, client_plugin 0 False localhost_3000, client_plugin 0 False localhost_3000]"

definition multiple_connections_main :: "Scheduling.app option list" where
  "multiple_connections_main =
     thread_app (server_plugin 0 True localhost_3000) # map (\<lambda>_. thread_app (client_plugin 0 True localhost_3000)) [0..<10]"

text \<open>
  \<^verbatim>\<open>lobby_and_battle_servers.rs\<close>: four plugins, configurations 0 (lobby, TCP) and 1 (battle, UDP), and five
  systems that are registered between the servers and the clients.
\<close>

definition lobby_systems :: "nat list" where
  "lobby_systems = [0, 1, 2, 3, 4]"

definition lobby_main :: "Scheduling.app option" where
  "lobby_main =
     (case (server_plugin 0 False (Inr [LOBBY_SERVER]), server_plugin 1 True (Inr [BATTLE_SERVER]),
            client_plugin 0 False (Inr [LOBBY_SERVER]), Some (Client 1 True ClientPlugin_new)) of
        (Some s0, Some s1, Some c0, Some c1) \<Rightarrow>
          Some (plugin_build False c1 (plugin_build False c0 (add_systems lobby_systems
            (plugin_build False s1 (plugin_build False s0 App_new)))))
      | _ \<Rightarrow> None)"

text \<open>
  \<^verbatim>\<open>udp_application_sessions.rs\<close>: \<open>server_app\<close> with \<open>expire_peers\<close> (0), then the client plugin and the chain of
  \<open>request_connection\<close> (1), \<open>drive_client\<close> (2) and \<open>finish_demo\<close> (3). \<open>main\<close> fails if the generator does, and
  its result is the exit of the app.
\<close>

definition server_app :: "Scheduling.app option" where
  "server_app = map_option (\<lambda>s. add_systems [0] (plugin_build False s App_new)) (server_plugin 0 True (Inr [V4 2130706433 0]))"

definition sessions_app :: "Scheduling.app option" where
  "sessions_app = map_option (\<lambda>a. add_chain [1, 2, 3] (plugin_build False (Client 0 True ClientPlugin_new) a)) server_app"

definition sessions_main ::
  "(nat \<Rightarrow> usize \<Rightarrow> string + byte list) \<Rightarrow> (Scheduling.app \<Rightarrow> ClientSessions \<Rightarrow> app_exit \<times> string) \<Rightarrow> (io_error + unit) option"
where
  "sessions_main fill run =
     (case sessions_app of
        None \<Rightarrow> None
      | Some a \<Rightarrow>
          (case client_sessions (\<lambda>k. random_id (fill k)) [48, 64] of
             Inl e \<Rightarrow> Some (Inl e)
           | Inr cs \<Rightarrow>
               (case run a cs of
                  (ExitSuccess, _) \<Rightarrow> Some (Inr ())
                | (ExitError, code) \<Rightarrow> Some (Inl (IoError Other (''session demo exited with '' @ code))))))"

section \<open>Systems of an application beside those of the plugins\<close>

text \<open>What a plugin adds depends only on which shared plugins are there already.\<close>

lemma plugin_build_delta:
  "systems (plugin_build wasm p a) = systems a @ systems (plugin_build wasm p (App_new\<lparr>plugins := plugins a\<rparr>))"
  "members (plugin_build wasm p a) = members a @ members (plugin_build wasm p (App_new\<lparr>plugins := plugins a\<rparr>))"
  "orders (plugin_build wasm p a) = orders a @ orders (plugin_build wasm p (App_new\<lparr>plugins := plugins a\<rparr>))"
  "plugins (plugin_build wasm p a) = plugins (plugin_build wasm p (App_new\<lparr>plugins := plugins a\<rparr>))"
  by (cases p; simp add: build_simps App_new_def split: option.split)+

text \<open>An app of the plugins \<open>ps\<close>, in this order, with systems \<open>ns\<close> and constraints \<open>ord\<close> of its own.\<close>

definition assembled :: "plugin list \<Rightarrow> nat list \<Rightarrow> (nat \<times> nat) list \<Rightarrow> Scheduling.app \<Rightarrow> bool" where
  "assembled ps ns ord a \<longleftrightarrow>
     mset (systems a) = mset (systems (build_app False ps)) + mset (map (\<lambda>n. (Update, UserSystem n)) ns)
     \<and> members a = members (build_app False ps)
     \<and> set (orders a) = set (orders (build_app False ps)) \<union> (\<lambda>(m, n). (Update, Sys (UserSystem m), Sys (UserSystem n))) ` set ord
     \<and> plugins a = plugins (build_app False ps)"

lemma assembled_new: "assembled [] [] [] App_new"
  by (simp add: assembled_def build_app_def)

lemma assembled_plugin: "assembled ps ns ord a \<Longrightarrow> assembled (ps @ [p]) ns ord (plugin_build False p a)"
proof -
  assume a: "assembled ps ns ord a"
  note d = plugin_build_delta [of False p a] plugin_build_delta [of False p "build_app False ps"]
  have b: "build_app False (ps @ [p]) = plugin_build False p (build_app False ps)" by (simp add: build_app_def)
  show ?thesis
    using a unfolding assembled_def b d by auto
qed

lemma add_systems_sel [simp]:
  "systems (add_systems ns a) = systems a @ map (\<lambda>n. (Update, UserSystem n)) ns"
  "members (add_systems ns a) = members a" "orders (add_systems ns a) = orders a" "plugins (add_systems ns a) = plugins a"
  by (induction ns arbitrary: a) (simp_all add: add_systems_def add_system_def)

lemma fold_orders_sel:
  "systems (fold (\<lambda>(m, n). order_before Update (Sys (UserSystem m)) (Sys (UserSystem n))) ps a) = systems a"
  "members (fold (\<lambda>(m, n). order_before Update (Sys (UserSystem m)) (Sys (UserSystem n))) ps a) = members a"
  "plugins (fold (\<lambda>(m, n). order_before Update (Sys (UserSystem m)) (Sys (UserSystem n))) ps a) = plugins a"
  "orders (fold (\<lambda>(m, n). order_before Update (Sys (UserSystem m)) (Sys (UserSystem n))) ps a)
     = orders a @ map (\<lambda>(m, n). (Update, Sys (UserSystem m), Sys (UserSystem n))) ps"
  by (induction ps arbitrary: a) auto

lemma assembled_systems: "assembled ps ns ord a \<Longrightarrow> assembled ps (ns @ ns') ord (add_systems ns' a)"
  by (simp add: assembled_def)

lemma assembled_chain: "assembled ps ns ord a \<Longrightarrow> assembled ps (ns @ ns') (ord @ zip ns' (tl ns')) (add_chain ns' a)"
  by (simp add: assembled_def add_chain_def fold_orders_sel image_Un Un_assoc)

text \<open>The plugins know nothing of the application's systems.\<close>

lemma build_user_free:
  "covers sc (build_app wasm ps) (Set s) f \<Longrightarrow> f \<noteq> UserSystem n"
  "(sc, x, y) \<in> set (orders (build_app wasm ps)) \<Longrightarrow> x \<noteq> Sys (UserSystem n) \<and> y \<noteq> Sys (UserSystem n)"
proof -
  assume "covers sc (build_app wasm ps) (Set s) f"
  then have "Sys f \<noteq> Sys (UserSystem n)"
  proof (rule covers_induct [where P = "\<lambda>x. x \<noteq> Sys (UserSystem n)"])
    fix x t assume "(sc, x, t) \<in> set (members (build_app wasm ps))"
    then show "x \<noteq> Sys (UserSystem n)"
      by (cases rule: build_member_cases)
        (auto simp: endpoint_members_def shared_members_def split: prod.splits if_splits)
  qed simp
  then show "f \<noteq> UserSystem n" by simp
next
  assume "(sc, x, y) \<in> set (orders (build_app wasm ps))"
  then obtain p where "(sc, x, y) \<in> endpoint_orders wasm p" unfolding build_orders by blast
  then show "x \<noteq> Sys (UserSystem n) \<and> y \<noteq> Sys (UserSystem n)"
    by (cases p) (auto simp: endpoint_orders_def Let_def split: option.splits if_splits)
qed

lemma covers_members: "members a = members b \<Longrightarrow> covers sc a x f = covers sc b x f"
  by (cases x) (simp_all add: covers_iff_trancl nesting_def)

lemma assembled_before:
  assumes "assembled ps ns ord a"
  shows "runs_before sc a f g \<longleftrightarrow> runs_before sc (build_app False ps) f g
     \<or> sc = Update \<and> (\<exists>m n. (m, n) \<in> set ord \<and> f = UserSystem m \<and> g = UserSystem n)"
proof -
  have "members a = members (build_app False ps)" using assms by (simp add: assembled_def)
  note c = covers_members [OF this]
  have before: "runs_before sc b f g \<longleftrightarrow> (\<exists>x y. (sc, x, y) \<in> set (orders b) \<and> covers sc b x f \<and> covers sc b y g)" for b
    by (auto simp: runs_before_def list_ex_iff)
  have o: "(sc, x, y) \<in> set (orders a) \<longleftrightarrow> (sc, x, y) \<in> set (orders (build_app False ps))
      \<or> sc = Update \<and> (\<exists>m n. (m, n) \<in> set ord \<and> x = Sys (UserSystem m) \<and> y = Sys (UserSystem n))" for x y
    using assms by (auto simp: assembled_def)
  show ?thesis unfolding before o c by (auto, metis covers_Sys)
qed

lemma build_systems_user_free: "(sc, UserSystem n) \<notin> set (systems (build_app wasm ps))"
proof -
  have "(sc, UserSystem n) \<in> set (systems (plugin_build wasm p a)) \<longleftrightarrow> (sc, UserSystem n) \<in> set (systems a)" for p a
    by (cases p; auto simp: build_simps split: option.split)
  then have "(sc, UserSystem n) \<in> set (systems (fold (plugin_build wasm) ps a)) \<longleftrightarrow> (sc, UserSystem n) \<in> set (systems a)" for a
    by (induction ps arbitrary: a) simp_all
  then show ?thesis by (simp add: build_app_def App_new_def)
qed

lemma build_before_user_free: "runs_before sc (build_app wasm ps) f g \<Longrightarrow> f \<noteq> UserSystem m \<and> g \<noteq> UserSystem n"
proof -
  assume "runs_before sc (build_app wasm ps) f g"
  then obtain x y where o: "(sc, x, y) \<in> set (orders (build_app wasm ps))"
    and c: "covers sc (build_app wasm ps) x f" "covers sc (build_app wasm ps) y g"
    by (auto simp: runs_before_def list_ex_iff)
  have free: "h \<noteq> UserSystem k" if "covers sc (build_app wasm ps) v h" "v \<noteq> Sys (UserSystem k)" for v h k
    using that build_user_free(1) by (cases v) auto
  show ?thesis using free [OF c(1)] free [OF c(2)] build_user_free(2) [OF o] by blast
qed

text \<open>An order for the plugins' systems, followed by the application's own, is an order for all.\<close>

lemma assembled_legal:
  assumes a: "assembled ps ns ord a" and ps: "distinct (map plugin_endpoint ps)"
    and ord: "\<And>i j. i < j \<Longrightarrow> j < length ns \<Longrightarrow> (ns ! j, ns ! i) \<notin> set ord"
  shows "\<exists>run. legal_order sc a run"
proof -
  obtain run where run: "legal_order sc (build_app False ps) run" using build_legal [OF ps] by blast
  let ?us = "if sc = Update then map UserSystem ns else []"
  have f: "filter (\<lambda>(c, _). c = sc) (map (\<lambda>n. (Update, UserSystem n)) ns) = (if sc = Update then map (\<lambda>n. (Update, UserSystem n)) ns else [])"
    by (induction ns) auto
  have "mset (scheduled sc a) = mset (scheduled sc (build_app False ps)) + mset ?us"
    using a arg_cong [OF f, of "\<lambda>xs. mset (map snd xs)"]
    unfolding assembled_def scheduled_def mset_map mset_filter by (simp add: comp_def flip: mset_filter mset_map)
  then have "mset (run @ ?us) = mset (scheduled sc a)" using run by (simp add: legal_order_def)
  moreover have "sorted_wrt (\<lambda>f g. \<not> runs_before sc a g f) (run @ ?us)"
    unfolding sorted_wrt_append
  proof (intro conjI ballI)
    have user: "f \<noteq> UserSystem n" if "f \<in> set run" for f n
      using that build_systems_user_free legal_runs [OF run] scheduled_iff by blast
    have "sorted_wrt (\<lambda>f g. \<not> runs_before sc (build_app False ps) g f) run" using run by (simp add: legal_order_def)
    then show "sorted_wrt (\<lambda>f g. \<not> runs_before sc a g f) run"
      by (rule sorted_wrt_mono_rel [rotated]) (use user in \<open>auto simp: assembled_before [OF a]\<close>)
    show "sorted_wrt (\<lambda>f g. \<not> runs_before sc a g f) ?us"
      using ord by (auto simp: sorted_wrt_iff_nth_less assembled_before [OF a] dest: build_before_user_free)
    fix f g assume "f \<in> set run" "g \<in> set ?us"
    then show "\<not> runs_before sc a g f"
      using user by (auto simp: assembled_before [OF a] dest: build_before_user_free split: if_splits)
  qed
  ultimately show ?thesis unfolding legal_order_def by blast
qed

section \<open>What the examples assemble\<close>

lemma plugins_of_examples [simp]:
  "server_plugin cfg d (Inr [x]) = Some (Server cfg d \<lparr>svp_address = x\<rparr>)"
  "client_plugin cfg d (Inr [x]) = Some (Client cfg d \<lparr>cp_address = Some x\<rparr>)"
  by (simp_all add: server_plugin_def client_plugin_def server_bind_def ClientPlugin_connect_def first_address_def)

lemma thread_assembled: "thread_app (Some p) = Some a \<Longrightarrow> assembled [p] [] [] a"
  using assembled_plugin [OF assembled_new, of p] by (auto simp: thread_app_def)

lemma lobby_assembled:
  "\<exists>a. lobby_main = Some a \<and> assembled
     [Server 0 False \<lparr>svp_address = LOBBY_SERVER\<rparr>, Server 1 True \<lparr>svp_address = BATTLE_SERVER\<rparr>,
      Client 0 False \<lparr>cp_address = Some LOBBY_SERVER\<rparr>, Client 1 True ClientPlugin_new] lobby_systems [] a"
proof -
  note a = assembled_plugin [OF assembled_plugin [OF assembled_systems [OF assembled_plugin [OF assembled_plugin
    [OF assembled_new]], where ns' = lobby_systems]]]
  show ?thesis
    using a [of "Server 0 False \<lparr>svp_address = LOBBY_SERVER\<rparr>" "Server 1 True \<lparr>svp_address = BATTLE_SERVER\<rparr>"
        "Client 0 False \<lparr>cp_address = Some LOBBY_SERVER\<rparr>" "Client 1 True ClientPlugin_new"]
    by (simp add: lobby_main_def)
qed

lemma sessions_assembled:
  "\<exists>a. sessions_app = Some a \<and> assembled
     [Server 0 True \<lparr>svp_address = V4 2130706433 0\<rparr>, Client 0 True ClientPlugin_new] [0, 1, 2, 3] [(1, 2), (2, 3)] a"
  using assembled_chain [OF assembled_plugin [OF assembled_systems [OF assembled_plugin [OF assembled_new], where ns' = "[0]"]],
      where ns' = "[1, 2, 3]", of "Server 0 True \<lparr>svp_address = V4 2130706433 0\<rparr>" "Client 0 True ClientPlugin_new"]
  by (simp add: sessions_app_def server_app_def)

text \<open>
  None of the examples' constructors panics; every schedule of every app they assemble has an order
  that keeps all constraints; and in each such order of \<open>Update\<close> the session demo requests its connection,
  then drives the client, then looks whether it is finished.
\<close>

theorem examples_schedulable:
  "\<forall>x \<in> set (hello_tcp_main @ hello_udp_main @ encrypted_main @ multiple_connections_main @ [lobby_main, server_app, sessions_app]).
     \<exists>a. x = Some a \<and> (\<forall>sc. \<exists>run. legal_order sc a run)"
  "sessions_app = Some a \<Longrightarrow> legal_order Update a run \<Longrightarrow>
     precedes (UserSystem 1) (UserSystem 2) run \<and> precedes (UserSystem 2) (UserSystem 3) run"
proof -
  have thread: "\<exists>a. thread_app (Some p) = Some a \<and> (\<forall>sc. \<exists>run. legal_order sc a run)" for p
    using assembled_legal [OF thread_assembled, of p] by (simp add: thread_app_def)
  have "\<exists>a. lobby_main = Some a \<and> (\<forall>sc. \<exists>run. legal_order sc a run)"
    using lobby_assembled assembled_legal by fastforce
  moreover have "\<exists>a. server_app = Some a \<and> (\<forall>sc. \<exists>run. legal_order sc a run)"
    using assembled_legal [OF assembled_systems [OF assembled_plugin [OF assembled_new, of "Server 0 True \<lparr>svp_address = V4 2130706433 0\<rparr>"],
        where ns' = "[0]"]] by (simp add: server_app_def)
  moreover have "\<exists>a. sessions_app = Some a \<and> (\<forall>sc. \<exists>run. legal_order sc a run)"
  proof -
    have ord: "(([0, 1, 2, 3] :: nat list) ! j, ([0, 1, 2, 3] :: nat list) ! i) \<notin> set [(1, 2), (2, 3)]"
      if "i < j" "j < length ([0, 1, 2, 3] :: nat list)" for i j
      using that by (auto simp: nth_Cons' split: if_splits)
    obtain a where "sessions_app = Some a" "assembled [Server 0 True \<lparr>svp_address = V4 2130706433 0\<rparr>, Client 0 True ClientPlugin_new]
        [0, 1, 2, 3] [(1, 2), (2, 3)] a"
      using sessions_assembled by blast
    moreover from this(2) have "\<exists>run. legal_order sc a run" for sc
      by (rule assembled_legal [OF _ _ ord]) simp_all
    ultimately show ?thesis by blast
  qed
  ultimately show "\<forall>x \<in> set (hello_tcp_main @ hello_udp_main @ encrypted_main @ multiple_connections_main
      @ [lobby_main, server_app, sessions_app]). \<exists>a. x = Some a \<and> (\<forall>sc. \<exists>run. legal_order sc a run)"
    using thread by (auto simp: hello_tcp_main_def hello_udp_main_def encrypted_main_def multiple_connections_main_def localhost_3000_def)
  assume "sessions_app = Some a" and run: "legal_order Update a run"
  then have a: "assembled [Server 0 True \<lparr>svp_address = V4 2130706433 0\<rparr>, Client 0 True ClientPlugin_new] [0, 1, 2, 3] [(1, 2), (2, 3)] a"
    using sessions_assembled by (metis option.inject)
  show "precedes (UserSystem 1) (UserSystem 2) run \<and> precedes (UserSystem 2) (UserSystem 3) run"
    by (intro conjI legal_precedes [OF run]) (auto simp: assembled_before [OF a])
qed

text \<open>The configurations of the two larger examples fit on both ends, and the sessions' limits fit their options.\<close>

lemma larger_configs_fit:
  assumes "bitcode_laws enc_c dec_c" "bitcode_laws enc_s dec_s" "bitcode_laws enc_bc dec_bc" "bitcode_laws enc_bs dec_bs"
    and "bitcode_laws enc dec" "64 \<le> max_permits"
  shows "config_fits (lobby_config enc_c dec_c enc_s dec_s) \<and> config_fits (battle_config enc_bc dec_bc enc_bs dec_bs)
     \<and> config_fits (session_config enc dec)
     \<and> (\<exists>v. validated_new max_permits session_options = Inr v \<and> validated_max_payload_size v \<le> MAX_DATAGRAM_SIZE)"
  using assms
  by (simp add: config_fits_def lobby_config_def battle_config_def session_config_def bitcode_config_def bitcode_fit
      warn_if_stateful_over_datagrams_def validated_new_def max_payload_size_def session_options_def default_udp_options_def
      MAX_DATAGRAM_SIZE_def MAX_PEERS_def validated_max_payload_size_def)

end
