(* ===== verification/Bench_Fixtures.thy ===== *)
theory Bench_Fixtures
  imports Client_Endpoint Server_Endpoint Stream_Delivery
begin

text \<open>
  The socket-free fixtures of the benchmarks, \<^verbatim>\<open>src/benches/utils/\<close>: they feed messages to the receive systems
  of \<open>Client_Endpoint\<close> and \<open>Server_Endpoint\<close> and run frames until all of them have reached the
  observers. A failed assertion and the final \<open>panic!\<close> are \<open>None\<close>. The point of the theory is that
  neither happens, and what a measurement then counts.
\<close>

section \<open>Counting observers\<close>

datatype Scenario = OnlyPackets | Interleaved

record Delivery =
  d_frames :: usize
  d_packets :: usize
  d_established :: usize
  d_closed :: usize
  d_last_packet_frame :: usize
  d_last_close_frame :: usize

definition Delivery_default :: Delivery where
  "Delivery_default =
     \<lparr>d_frames = 0, d_packets = 0, d_established = 0, d_closed = 0, d_last_packet_frame = 0, d_last_close_frame = 0\<rparr>"

datatype event_kind = Establishing | Packeting | Closing

text \<open>What the three observers of a fixture do to \<open>Counts\<close>.\<close>

fun observe :: "event_kind \<Rightarrow> Delivery \<Rightarrow> Delivery" where
  "observe Establishing d = d\<lparr>d_established := usize_add (d_established d) 1\<rparr>"
| "observe Packeting d = d\<lparr>d_packets := usize_add (d_packets d) 1, d_last_packet_frame := d_frames d\<rparr>"
| "observe Closing d = d\<lparr>d_closed := usize_add (d_closed d) 1, d_last_close_frame := d_frames d\<rparr>"

definition count_frame :: "Delivery \<Rightarrow> Delivery" where
  "count_frame d = d\<lparr>d_frames := usize_add (d_frames d) 1\<rparr>"

text \<open>
  The loop of \<open>drain\<close>: \<open>frame\<close> counts a frame and updates the app. It returns the counts and the fixture.
\<close>

fun drain_loop ::
  "('s \<Rightarrow> 's) \<Rightarrow> ('s \<Rightarrow> Delivery) \<Rightarrow> ('s \<Rightarrow> usize) \<Rightarrow> usize \<Rightarrow> usize \<Rightarrow> nat \<Rightarrow> 's \<Rightarrow> (Delivery \<times> 's) option"
where
  "drain_loop frame counts visible expected_packets expected_closed 0 s = None"
| "drain_loop frame counts visible expected_packets expected_closed (Suc n) s =
     (let s' = frame s in
      if visible s' = expected_packets \<and> d_closed (counts s') = expected_closed then Some (counts s', s')
      else drain_loop frame counts visible expected_packets expected_closed n s')"

text \<open>Assertions in a loop.\<close>

fun foldM :: "('a \<Rightarrow> 's \<Rightarrow> 's option) \<Rightarrow> 'a list \<Rightarrow> 's \<Rightarrow> 's option" where
  "foldM g [] s = Some s"
| "foldM g (x # xs) s = (case g x s of None \<Rightarrow> None | Some s' \<Rightarrow> foldM g xs s')"

text \<open>\<open>while established < peers { app.update() }\<close>\<close>

partial_function (option) update_until ::
  "('s \<Rightarrow> 's) \<Rightarrow> ('s \<Rightarrow> Delivery) \<Rightarrow> usize \<Rightarrow> 's \<Rightarrow> 's option"
where
  "update_until update counts npeers f =
     (if d_established (counts f) < npeers then update_until update counts npeers (update f) else Some f)"

section \<open>Frames with a budget\<close>

definition ceil_div :: "nat \<Rightarrow> nat \<Rightarrow> nat" where
  "ceil_div a b = (a + b - 1) div b"

lemma ceil_div_Suc: "0 < b \<Longrightarrow> ceil_div (Suc a) b = Suc (a div b)"
  by (simp add: ceil_div_def div_add_self2)

lemma ceil_div_0 [simp]: "ceil_div 0 b = 0"
  by (cases b) (simp_all add: ceil_div_def)

lemma ceil_div_block: "r < b \<Longrightarrow> ceil_div (j * b + Suc r) b = Suc j"
  by (simp add: ceil_div_Suc)

lemma ceil_div_le: "0 < b \<Longrightarrow> ceil_div a b \<le> a"
  by (cases a) (simp_all add: ceil_div_Suc)

lemma less_ceil_div: "0 < b \<Longrightarrow> j * b < a \<Longrightarrow> j < ceil_div a b"
  by (cases a) (simp_all add: ceil_div_Suc less_eq_div_iff_mult_less_eq less_Suc_eq_le)

text \<open>One more than the position of the last event of a kind, or zero if there is none.\<close>

definition upto_last :: "event_kind \<Rightarrow> event_kind list \<Rightarrow> nat" where
  "upto_last k es = length (dropWhile (\<lambda>e. e \<noteq> k) (rev es))"

lemma upto_last_simps [simp]:
  "upto_last k [] = 0" "upto_last k (es @ [e]) = (if e = k then Suc (length es) else upto_last k es)"
  by (simp_all add: upto_last_def)

text \<open>The counts after \<open>j\<close> frames that have handled the events \<open>es\<close>, \<open>b\<close> at a time.\<close>

definition delivery_of :: "nat \<Rightarrow> nat \<Rightarrow> event_kind list \<Rightarrow> Delivery" where
  "delivery_of b j es =
     \<lparr>d_frames = j, d_packets = count_list es Packeting, d_established = count_list es Establishing,
      d_closed = count_list es Closing, d_last_packet_frame = ceil_div (upto_last Packeting es) b,
      d_last_close_frame = ceil_div (upto_last Closing es) b\<rparr>"

lemma count_list_le: "count_list xs x \<le> length xs"
  by (induction xs) auto

lemma observe_snoc:
  assumes "Suc (length es) \<le> usize_max" "ceil_div (Suc (length es)) b = j"
  shows "observe e (delivery_of b j es) = delivery_of b j (es @ [e])"
  using assms count_list_le [of es e] by (cases e) (simp_all add: delivery_of_def usize_add_exact)

lemma frame_events:
  assumes b: "0 < b" and xs: "length xs = j * b" and ys: "length ys \<le> b"
    and max: "length (xs @ ys) \<le> usize_max" "Suc j \<le> usize_max"
  shows "fold observe ys (count_frame (delivery_of b j xs)) = delivery_of b (Suc j) (xs @ ys)"
  using ys max
proof (induction ys rule: rev_induct)
  case Nil
  then show ?case using b by (simp add: count_frame_def delivery_of_def usize_add_exact)
next
  case (snoc y ys)
  have "ceil_div (Suc (length (xs @ ys))) b = Suc j"
    using ceil_div_block [of "length ys" b j] snoc.prems xs by simp
  from observe_snoc [OF _ this, of y] have "observe y (delivery_of b (Suc j) (xs @ ys)) = delivery_of b (Suc j) (xs @ ys @ [y])"
    using snoc.prems by simp
  then show ?case using snoc by simp
qed

text \<open>
  What a fixture is to its \<open>drain\<close>: events are pending, a frame hands the oldest ones within the budget to
  the observers, and \<open>visible\<close> shows the number of packets observed.
\<close>

locale event_pump =
  fixes frame :: "'s \<Rightarrow> 's" and counts :: "'s \<Rightarrow> Delivery" and visible :: "'s \<Rightarrow> usize"
    and pending :: "'s \<Rightarrow> event_kind list" and budget :: nat and inv :: "'s \<Rightarrow> bool"
  assumes frame_inv: "inv s \<Longrightarrow> inv (frame s)"
    and frame_pending: "inv s \<Longrightarrow> pending (frame s) = drop budget (pending s)"
    and frame_counts: "inv s \<Longrightarrow> counts (frame s) = fold observe (take budget (pending s)) (count_frame (counts s))"
    and frame_visible: "inv s \<Longrightarrow> visible (frame s) = d_packets (counts (frame s))"
begin

lemma drain_from:
  assumes b: "0 < budget" and es: "last es \<noteq> Establishing" "length es < usize_max"
    and s: "inv s" "pending s = drop (j * budget) es" "counts s = delivery_of budget j (take (j * budget) es)"
    and j: "j * budget < length es" and n: "ceil_div (length es) budget \<le> j + n"
  shows "\<exists>s'. drain_loop frame counts visible (count_list es Packeting) (count_list es Closing) n s
       = Some (delivery_of budget (ceil_div (length es) budget) es, s') \<and> inv s' \<and> pending s' = []"
  using s j n
proof (induction n arbitrary: s j)
  case 0
  then show ?case using less_ceil_div [OF b 0(4)] by simp
next
  case (Suc n)
  let ?s = "frame s" and ?done = "take (Suc j * budget) es"
  have "j * budget < usize_max" using Suc.prems(4) es(2) by simp
  moreover have "j \<le> j * budget" using b by simp
  ultimately have "j < usize_max" by (rule le_less_trans [rotated])
  then have max: "Suc j \<le> usize_max" by simp
  have step: "?done = take (j * budget) es @ take budget (drop (j * budget) es)"
    unfolding mult_Suc add.commute [of budget] by (rule take_add)
  have "length ?done \<le> usize_max" using es(2) by simp
  then have counts: "counts ?s = delivery_of budget (Suc j) ?done"
    using frame_events [OF b _ _ _ max, of "take (j * budget) es" "take budget (drop (j * budget) es)"] Suc.prems(4)
    unfolding frame_counts [OF Suc.prems(1)] Suc.prems(2,3) step by simp
  have pending: "pending ?s = drop (Suc j * budget) es"
    using frame_pending [OF Suc.prems(1)] Suc.prems(2) by (simp add: add.commute)
  note inv = frame_inv [OF Suc.prems(1)] and visible = frame_visible [OF Suc.prems(1)]
  show ?case
  proof (cases "Suc j * budget < length es")
    case False
    obtain r where r: "length es = j * budget + Suc r" using less_imp_Suc_add [OF Suc.prems(4)] by auto
    then have "r < budget" using False by simp
    then have len: "ceil_div (length es) budget = Suc j" unfolding r by (rule ceil_div_block)
    then show ?thesis using False counts pending inv visible by (simp add: delivery_of_def)
  next
    case True
    have split: "es = ?done @ drop (Suc j * budget) es" by simp
    have "last es \<in> set (drop (Suc j * budget) es)"
      using True by (metis drop_eq_Nil last_drop last_in_set not_le)
    then have "0 < count_list (drop (Suc j * budget) es) (last es)" by (simp add: count_list_0_iff zero_less_iff_neq_zero)
    then have "count_list ?done (last es) \<noteq> count_list es (last es)"
      by (subst (2) split) (simp del: append_take_drop_id)
    then have "\<not> (visible ?s = count_list es Packeting \<and> d_closed (counts ?s) = count_list es Closing)"
      using es(1) unfolding visible counts by (cases "last es") (auto simp: delivery_of_def)
    then have "drain_loop frame counts visible (count_list es Packeting) (count_list es Closing) (Suc n) s
        = drain_loop frame counts visible (count_list es Packeting) (count_list es Closing) n ?s"
      unfolding drain_loop.simps Let_def by (rule if_not_P)
    then show ?thesis using Suc.IH [OF inv pending counts True] Suc.prems(5) by simp
  qed
qed

lemma drain_all:
  assumes "0 < budget" "es \<noteq> []" "last es \<noteq> Establishing" "length es < usize_max"
    and "inv s" "pending s = es" "counts s = Delivery_default" and "length es \<le> n"
  shows "\<exists>s'. drain_loop frame counts visible (count_list es Packeting) (count_list es Closing) n s
       = Some (delivery_of budget (ceil_div (length es) budget) es, s') \<and> inv s' \<and> pending s' = []"
proof -
  have "ceil_div (length es) budget \<le> length es" using assms(1) by (rule ceil_div_le)
  then show ?thesis
    using assms drain_from [of es s 0 n] by (simp add: delivery_of_def Delivery_default_def ceil_div_def)
qed

end

section \<open>Settings and connections of a fixture\<close>

definition usize_mul :: "usize \<Rightarrow> usize \<Rightarrow> usize" where
  "usize_mul a b = (a * b) mod 2 ^ 64"

lemma usize_mul_exact: "a * b \<le> usize_max \<Longrightarrow> usize_mul a b = a * b"
  by (simp add: usize_mul_def usize_max_def)

text \<open>The packets of the fixtures, and what a fixture is built from: connections, settings, scenario and packets per connection.\<close>

type_synonym bench_packet = u64

type_synonym fixture_params = "ConnectionId list \<times> NetworkQueueSettings \<times> Scenario \<times> usize"

definition bench_local :: SocketAddr where "bench_local = V4 2130706433 1000"
definition bench_peer :: SocketAddr where "bench_peer = V4 2130706433 2000"

definition bench_settings :: "usize \<Rightarrow> usize \<Rightarrow> usize \<Rightarrow> NetworkQueueSettings" where
  "bench_settings budget npeers packets_per_connection =
     default_queue_settings\<lparr>receive_capacity := usize_mul npeers (usize_add packets_per_connection 2), events_per_frame := budget\<rparr>"

lemma resolve_global [simp]: "resolve_queues None (Some qs) = qs"
  by (simp add: resolve_queues_def)

text \<open>The connections, each with a token, an identifier, an outgoing queue and a handle of its own.\<close>

fun bench_connections ::
  "('k, 'ts) tokens \<Rightarrow> ('q, 'c) mpsc \<Rightarrow> NetworkQueueSettings \<Rightarrow> bool \<Rightarrow> 'h \<Rightarrow> nat \<Rightarrow> usize
     \<Rightarrow> ('q, 'c, 'h, 'k, 'ts, 'ev) endpoint_world \<Rightarrow> ConnectionId list \<times> usize \<times> ('q, 'c, 'h, 'k, 'ts, 'ev) endpoint_world"
where
  "bench_connections T MO qs datagram h 0 counter w = ([], counter, w)"
| "bench_connections T MO qs datagram h (Suc n) counter w =
     (case tok_new T (world_tokens w) of
        (tok, ts) \<Rightarrow>
          (case id_next counter of
             (i, counter') \<Rightarrow>
               (let ecs = \<lparr>disconnect_task = tok, conn_id = i, published = False,
                           packet_tx = fst (outgoing_channel MO qs datagram), conn_transport = h,
                           local_addr = bench_local, peer_addr = bench_peer\<rparr>;
                    w' = w\<lparr>conns := (conns w)(i \<mapsto> ecs), world_tokens := ts\<rparr>
                in case bench_connections T MO qs datagram h n counter' w' of
                     (is, counter'', w'') \<Rightarrow> (i # is, counter'', w''))))"

section \<open>What tokio documents of a bounded channel's room\<close>

text \<open>\<open>Semaphore::MAX_PERMITS\<close>, above which \<open>channel\<close> panics.\<close>

definition max_permits :: usize where
  "max_permits = usize_max div 8"

definition room_laws :: "('p, 'c) mpsc \<Rightarrow> ('c \<Rightarrow> 'p list) \<Rightarrow> bool" where
  "room_laws M pend \<longleftrightarrow>
     (\<forall>n. 0 < n \<and> n \<le> max_permits \<longrightarrow>
        mpsc_max_capacity M (mpsc_channel M n) = n \<and> \<not> mpsc_is_closed M (mpsc_channel M n) \<and> pend (mpsc_channel M n) = [])
     \<and> (\<forall>p c. \<not> mpsc_is_closed M c \<and> length (pend c) < mpsc_max_capacity M c \<longrightarrow>
          (\<exists>c'. mpsc_try_send M p c = (Inr (), c') \<and> pend c' = pend c @ [p]
             \<and> mpsc_max_capacity M c' = mpsc_max_capacity M c \<and> \<not> mpsc_is_closed M c'))
     \<and> (\<forall>c. mpsc_max_capacity M (snd (mpsc_try_recv M c)) = mpsc_max_capacity M c
          \<and> mpsc_is_closed M (snd (mpsc_try_recv M c)) = mpsc_is_closed M c)"

lemma list_room_laws: "room_laws list_mpsc lc_items"
  by (auto simp: room_laws_def list_mpsc_def split: list.split)

abbreviation open_with :: "('p, 'c) mpsc \<Rightarrow> usize \<Rightarrow> 'c \<Rightarrow> bool" where
  "open_with M cap c \<equiv> mpsc_max_capacity M c = cap \<and> \<not> mpsc_is_closed M c"

lemma drain_messages_open:
  assumes "room_laws M pend" "drain_messages M n c = (ms, c')" "open_with M cap c"
  shows "open_with M cap c'"
  using assms(2,3)
proof (induction n arbitrary: c ms)
  case (Suc n)
  obtain r c1 where r: "mpsc_try_recv M c = (r, c1)" by fastforce
  have c1: "open_with M cap c1" using assms(1) Suc.prems(2) r unfolding room_laws_def by (metis snd_conv)
  show ?case
  proof (cases r)
    case (Inl e)
    then show ?thesis using Suc.prems r c1 by simp
  next
    case (Inr m)
    then show ?thesis using Suc.prems(1) r Suc.IH [OF _ c1] by (auto split: prod.splits)
  qed
qed simp

lemma room_send:
  assumes "room_laws M pend" "open_with M cap c" "length (pend c) < cap"
  obtains c' where "mpsc_try_send M p c = (Inr (), c')" "pend c' = pend c @ [p]" "open_with M cap c'"
  using assms unfolding room_laws_def by metis

lemma room_channel:
  assumes "room_laws M pend" "0 < n" "n \<le> max_permits"
  shows "open_with M n (mpsc_channel M n)" "pend (mpsc_channel M n) = []"
  using assms unfolding room_laws_def by blast+

lemma bench_settings_exact:
  assumes "npeers * (n + 2) \<le> max_permits" "0 < npeers"
  shows "receive_capacity (bench_settings b npeers n) = npeers * (n + 2)" "events_per_frame (bench_settings b npeers n) = b"
proof -
  have "npeers * (n + 2) \<le> usize_max" using assms(1) by (simp add: max_permits_def)
  moreover have "1 * (n + 2) \<le> npeers * (n + 2)" by (rule mult_le_mono1) (use assms(2) in simp)
  ultimately have "usize_add n 2 = n + 2" "usize_mul npeers (n + 2) = npeers * (n + 2)"
    by (simp_all add: usize_add_exact usize_mul_exact)
  then show "receive_capacity (bench_settings b npeers n) = npeers * (n + 2)" by (simp add: bench_settings_def)
qed (simp add: bench_settings_def)

text \<open>A new token leaves the other ones as they are.\<close>

definition new_token_laws :: "('k, 'ts) tokens \<Rightarrow> bool" where
  "new_token_laws T \<longleftrightarrow>
     (\<forall>ts k ts' k'. tok_new T ts = (k, ts') \<and> \<not> tok_is_cancelled T ts k' \<longrightarrow> \<not> tok_is_cancelled T ts' k')"

lemma demo_new_token_laws: "new_token_laws demo_tokens"
  by (simp add: new_token_laws_def demo_tokens_def)

lemma bench_connections_length: "bench_connections T MO qs d h n c w = (is, c', w') \<Longrightarrow> length is = n"
  by (induction n arbitrary: c w "is" c' w') (auto simp: Let_def split: prod.splits)

lemma bench_connections_live:
  assumes "token_laws T" "new_token_laws T" and "bench_connections T MO qs d h n c w = (is, c', w')"
    and "\<And>i. \<not> world_cancelled T w i"
  shows "\<not> world_cancelled T w' i \<and> (i \<in> set is \<or> conns w i \<noteq> None \<longrightarrow> conns w' i \<noteq> None)"
  using assms(3,4)
proof (induction n arbitrary: c w "is" c' w')
  case (Suc n)
  obtain tok ts where tok: "tok_new T (world_tokens w) = (tok, ts)" by fastforce
  let ?e = "\<lparr>disconnect_task = tok, conn_id = c, published = False, packet_tx = fst (outgoing_channel MO qs d),
      conn_transport = h, local_addr = bench_local, peer_addr = bench_peer\<rparr>"
  let ?w = "w\<lparr>conns := (conns w)(c \<mapsto> ?e), world_tokens := ts\<rparr>"
  obtain js where r: "bench_connections T MO qs d h n (usize_add c 1) ?w = (js, c', w')" "is = c # js"
    using Suc.prems(1) tok by (auto simp: id_next_def Let_def split: prod.splits)
  have "\<not> tok_is_cancelled T ts tok" using assms(1) tok by (auto simp: token_laws_def)
  moreover have "\<not> tok_is_cancelled T ts k" if "\<not> tok_is_cancelled T (world_tokens w) k" for k
    using assms(2) tok that unfolding new_token_laws_def by blast
  ultimately have "\<not> world_cancelled T ?w j" for j
    using Suc.prems(2) [of j] by (auto simp: world_cancelled_def split: option.splits)
  from Suc.IH [OF r(1) this] show ?case by (auto simp: r(2))
qed simp

section \<open>Rounds of a measurement\<close>

text \<open>A round of a benchmark: \<open>enqueue\<close>, then \<open>drain\<close>; the clock of a round stamps its packets.\<close>

type_synonym bench_clock = "ConnectionId \<Rightarrow> nat \<Rightarrow> instant"

fun measure_rounds ::
  "(bench_clock \<Rightarrow> 's \<Rightarrow> 's option) \<Rightarrow> ('s \<Rightarrow> (Delivery \<times> 's) option) \<Rightarrow> bench_clock list \<Rightarrow> 's \<Rightarrow> Delivery list option"
where
  "measure_rounds enqueue drain [] s = Some []"
| "measure_rounds enqueue drain (c # cs) s =
     (case enqueue c s of
        None \<Rightarrow> None
      | Some s1 \<Rightarrow>
          (case drain s1 of
             None \<Rightarrow> None
           | Some (d, s2) \<Rightarrow> map_option ((#) d) (measure_rounds enqueue drain cs s2)))"

text \<open>What one connection contributes to a round, and what a round measures.\<close>

fun connection_events :: "Scenario \<Rightarrow> nat \<Rightarrow> event_kind list" where
  "connection_events OnlyPackets n = replicate n Packeting"
| "connection_events Interleaved n = Establishing # replicate n Packeting @ [Closing]"

lemma only_packets: "replicate n Packeting = concat (replicate (length [0 ..< n]) [Packeting])"
  by (simp add: concat_replicate_single)

definition round_events :: "Scenario \<Rightarrow> nat \<Rightarrow> nat \<Rightarrow> event_kind list" where
  "round_events sc npeers n = concat (replicate npeers (connection_events sc n))"

fun expected_delivery :: "Scenario \<Rightarrow> nat \<Rightarrow> nat \<Rightarrow> nat \<Rightarrow> Delivery" where
  "expected_delivery OnlyPackets b npeers n =
     \<lparr>d_frames = ceil_div (npeers * n) b, d_packets = npeers * n, d_established = 0, d_closed = 0,
      d_last_packet_frame = ceil_div (npeers * n) b, d_last_close_frame = 0\<rparr>"
| "expected_delivery Interleaved b npeers n =
     \<lparr>d_frames = ceil_div (npeers * (n + 2)) b, d_packets = npeers * n, d_established = npeers, d_closed = npeers,
      d_last_packet_frame = ceil_div (npeers * (n + 2) - 1) b, d_last_close_frame = ceil_div (npeers * (n + 2)) b\<rparr>"

lemma count_list_replicate [simp]: "count_list (replicate n x) y = (if x = y then n else 0)"
  by (induction n) auto

lemma round_events_counts:
  "length (round_events sc npeers n) = npeers * (case sc of OnlyPackets \<Rightarrow> n | Interleaved \<Rightarrow> n + 2)"
  "count_list (round_events sc npeers n) Packeting = npeers * n"
  "count_list (round_events sc npeers n) Establishing = (if sc = Interleaved then npeers else 0)"
  "count_list (round_events sc npeers n) Closing = (if sc = Interleaved then npeers else 0)"
  by (induction npeers; cases sc; simp add: round_events_def)+

lemma upto_last_absent: "k \<notin> set es \<Longrightarrow> upto_last k es = 0"
  by (auto simp: upto_last_def dropWhile_eq_Nil_conv)

lemma concat_replicate_snoc: "concat (replicate (Suc m) xs) = concat (replicate m xs) @ xs"
  by (induction m) simp_all

lemma round_packets: "round_events OnlyPackets npeers n = replicate (npeers * n) Packeting"
  by (induction npeers) (simp_all add: round_events_def replicate_add)

lemma round_interleaved:
  assumes "0 < npeers" "0 < n"
  obtains pre where "round_events Interleaved npeers n = (pre @ [Packeting]) @ [Closing]"
proof -
  obtain m n' where "npeers = Suc m" "n = Suc n'" using assms by (metis gr0_implies_Suc)
  then show thesis
    using that [of "concat (replicate m (connection_events Interleaved n)) @ Establishing # replicate n' Packeting"]
    by (simp add: round_events_def concat_replicate_snoc replicate_append_same del: replicate.simps(2))
      (simp add: replicate_append_same)
qed

lemma round_events_end:
  assumes "0 < npeers" "0 < n"
  shows "round_events sc npeers n \<noteq> []" "last (round_events sc npeers n) \<noteq> Establishing"
proof -
  have "round_events sc npeers n \<noteq> [] \<and> last (round_events sc npeers n) \<noteq> Establishing"
  proof (cases sc)
    case OnlyPackets
    then show ?thesis using assms by (simp add: round_packets)
  next
    case Interleaved
    then show ?thesis by (rule_tac round_interleaved [OF assms]) simp
  qed
  then show "round_events sc npeers n \<noteq> []" "last (round_events sc npeers n) \<noteq> Establishing" by simp_all
qed

lemma round_delivery:
  assumes "0 < npeers" "0 < n"
  shows "delivery_of b (ceil_div (length (round_events sc npeers n)) b) (round_events sc npeers n)
     = expected_delivery sc b npeers n"
proof (cases sc)
  case OnlyPackets
  obtain m where m: "npeers * n = Suc m" using assms by (metis gr0_implies_Suc nat_0_less_mult_iff)
  have "upto_last Packeting (replicate (npeers * n) Packeting) = npeers * n"
    unfolding m replicate_Suc by (subst replicate_append_same [symmetric]) simp
  then show ?thesis using OnlyPackets by (simp add: delivery_of_def round_packets upto_last_absent)
next
  case Interleaved
  obtain pre where pre: "round_events Interleaved npeers n = (pre @ [Packeting]) @ [Closing]"
    by (rule round_interleaved [OF assms])
  then have "npeers * (n + 2) = Suc (Suc (length pre))"
    using round_events_counts(1) [of Interleaved npeers n] by simp
  then have "upto_last Packeting (round_events Interleaved npeers n) = npeers * (n + 2) - 1"
    "upto_last Closing (round_events Interleaved npeers n) = npeers * (n + 2)"
    unfolding pre upto_last_simps by simp_all
  then show ?thesis using Interleaved round_events_counts [of Interleaved npeers n] by (simp add: delivery_of_def)
qed

section \<open>Fixtures\<close>

text \<open>An operation that puts the events \<open>ks\<close> behind the pending ones as long as they fit.\<close>

definition appends ::
  "('s \<Rightarrow> bool) \<Rightarrow> ('s \<Rightarrow> event_kind list) \<Rightarrow> ('s \<Rightarrow> Delivery) \<Rightarrow> nat \<Rightarrow> ('s \<Rightarrow> 's option) \<Rightarrow> event_kind list \<Rightarrow> bool"
where
  "appends ok pending counts cap g ks \<longleftrightarrow>
     (\<forall>s. ok s \<and> length (pending s) + length ks \<le> cap \<longrightarrow>
        (\<exists>s'. g s = Some s' \<and> ok s' \<and> pending s' = pending s @ ks \<and> counts s' = counts s))"

lemma appendsD:
  assumes "appends ok pending counts cap g ks" "ok s" "length (pending s) + length ks \<le> cap"
  obtains s' where "g s = Some s'" "ok s'" "pending s' = pending s @ ks" "counts s' = counts s"
  using assms unfolding appends_def by blast

lemma appends_Some [simp]: "appends ok pending counts cap Some []"
  by (simp add: appends_def)

lemma appends_foldM:
  assumes "\<And>x. x \<in> set xs \<Longrightarrow> appends ok pending counts cap (g x) ks"
  shows "appends ok pending counts cap (foldM g xs) (concat (replicate (length xs) ks))"
  using assms
proof (induction xs)
  case Nil
  then show ?case by (simp add: appends_def)
next
  case (Cons x xs)
  show ?case
    unfolding appends_def
  proof (intro allI impI, elim conjE, goal_cases)
    case (1 s)
    then obtain s1 where s1: "g x s = Some s1" "ok s1" "pending s1 = pending s @ ks" "counts s1 = counts s"
      using appendsD [OF Cons.prems [of x], of s] by auto
    then obtain s2 where "foldM g xs s1 = Some s2" "ok s2" "pending s2 = pending s1 @ concat (replicate (length xs) ks)"
        "counts s2 = counts s1"
      using appendsD [OF Cons.IH s1(2)] Cons.prems 1(2) by auto
    with s1 show ?case by simp
  qed
qed

text \<open>A connection's part of a round: it is established, sends its packets and closes, as the scenario asks.\<close>

lemma connection_appends:
  assumes est: "sc = Interleaved \<Longrightarrow> appends ok pending counts cap est [Establishing]"
    and pk: "appends ok pending counts cap (pk n) (replicate n Packeting)"
    and cl: "sc = Interleaved \<Longrightarrow> appends ok pending counts cap cl [Closing]"
    and stat: "\<And>s. ok s \<Longrightarrow> scen s = sc \<and> num s = n"
  shows "appends ok pending counts cap
     (\<lambda>s. case (if scen s = Interleaved then est s else Some s) of
            None \<Rightarrow> None
          | Some s1 \<Rightarrow>
              (case pk (num s1) s1 of
                 None \<Rightarrow> None
               | Some s2 \<Rightarrow> if scen s2 = Interleaved then cl s2 else Some s2))
     (connection_events sc n)"
  unfolding appends_def
proof (intro allI impI, elim conjE, goal_cases)
  case (1 s)
  have s: "scen s = sc" using stat 1(1) by blast
  show ?case
  proof (cases sc)
    case OnlyPackets
    then obtain s2 where s2: "pk n s = Some s2" "ok s2" "pending s2 = pending s @ replicate n Packeting" "counts s2 = counts s"
      using appendsD [OF pk 1(1)] 1(2) by auto
    then show ?thesis using OnlyPackets stat [OF 1(1)] stat [OF s2(2)] by simp
  next
    case Interleaved
    then obtain s1 where s1: "est s = Some s1" "ok s1" "pending s1 = pending s @ [Establishing]" "counts s1 = counts s"
      using appendsD [OF est 1(1)] 1(2) by auto
    then obtain s2 where s2: "pk n s1 = Some s2" "ok s2" "pending s2 = pending s1 @ replicate n Packeting" "counts s2 = counts s1"
      using appendsD [OF pk s1(2)] 1(2) Interleaved by auto
    then obtain s3 where s3: "cl s2 = Some s3" "ok s3" "pending s3 = pending s2 @ [Closing]" "counts s3 = counts s2"
      using appendsD [OF cl s2(2)] 1(2) s1(3) Interleaved by auto
    show ?thesis using Interleaved s s1 s2 s3 stat [OF s1(2)] stat [OF s2(2)] by simp
  qed
qed

text \<open>
  What a fixture is to a benchmark: events are pending, \<open>update\<close> hands the oldest ones within the budget to
  the observers, \<open>bump\<close> counts a frame and \<open>reset\<close> clears the counts.
\<close>

locale fixture =
  fixes update bump reset :: "'s \<Rightarrow> 's" and counts :: "'s \<Rightarrow> Delivery" and visible :: "'s \<Rightarrow> usize"
    and pending :: "'s \<Rightarrow> event_kind list" and budget cap :: nat and inv :: "'s \<Rightarrow> bool"
  assumes update_inv: "inv s \<Longrightarrow> inv (update s)"
    and update_pending: "inv s \<Longrightarrow> pending (update s) = drop budget (pending s)"
    and update_counts: "inv s \<Longrightarrow> counts (update s) = fold observe (take budget (pending s)) (counts s)"
    and update_visible: "inv s \<Longrightarrow> visible (update s) = d_packets (counts (update s))"
    and bump_inv: "inv s \<Longrightarrow> inv (bump s)" and bump_pending: "pending (bump s) = pending s"
    and bump_counts: "counts (bump s) = count_frame (counts s)"
    and reset_inv: "inv s \<Longrightarrow> inv (reset s)" and reset_pending: "pending (reset s) = pending s"
    and reset_counts: "counts (reset s) = Delivery_default"

sublocale fixture \<subseteq> event_pump "\<lambda>s. update (bump s)" counts visible pending budget inv
  by unfold_locales
    (simp_all add: update_inv update_pending update_counts update_visible bump_inv bump_pending bump_counts)

context fixture
begin

text \<open>Every round that fits measures the same.\<close>

lemma rounds_measure:
  assumes b: "0 < budget" "0 < npeers" "0 < n"
    and fit: "length (round_events sc npeers n) \<le> cap" "npeers * (n + 2) \<le> max_permits"
    and enq: "\<And>c s. inv s \<Longrightarrow> enqueue c s = feed c (reset s)"
      "\<And>c. appends inv pending counts cap (feed c) (round_events sc npeers n)"
    and dr: "\<And>s. inv s \<Longrightarrow> drain s = drain_loop (\<lambda>s. update (bump s)) counts visible (npeers * n)
        (if sc = Interleaved then npeers else 0) (npeers * n + npeers * 2 + 2) s"
    and s: "inv s" "pending s = []"
  shows "measure_rounds enqueue drain cs s = Some (replicate (length cs) (expected_delivery sc budget npeers n))"
  using s
proof (induction cs arbitrary: s)
  case (Cons c cs)
  let ?es = "round_events sc npeers n"
  have es: "length ?es \<le> npeers * (n + 2)" by (cases sc) (simp_all add: round_events_counts)
  then have small: "length ?es < usize_max" using fit(2) by (simp add: max_permits_def usize_max_def)
  have limit: "length ?es \<le> npeers * n + npeers * 2 + 2" using es by (simp add: algebra_simps)
  have "inv (reset s)" "length (pending (reset s)) + length ?es \<le> cap"
    using Cons.prems fit(1) by (simp_all add: reset_inv reset_pending)
  then obtain s1 where s1: "feed c (reset s) = Some s1" "inv s1" "pending s1 = ?es" "counts s1 = Delivery_default"
    using Cons.prems(2) appendsD [OF enq(2), of "reset s" c] by (metis append_Nil reset_pending reset_counts)
  obtain s2 where d: "drain_loop (\<lambda>s. update (bump s)) counts visible (count_list ?es Packeting) (count_list ?es Closing) (npeers * n + npeers * 2 + 2) s1
      = Some (delivery_of budget (ceil_div (length ?es) budget) ?es, s2)" and s2: "inv s2" "pending s2 = []"
    using drain_all [OF b(1) round_events_end [OF b(2,3)] small s1(2-4) limit] by blast
  have "drain s1 = Some (expected_delivery sc budget npeers n, s2)"
    using d unfolding dr [OF s1(2)] round_delivery [OF b(2,3)] round_events_counts(2,4) .
  then show ?case using Cons.IH [OF s2] s1(1) Cons.prems(1) by (simp add: enq(1))
qed simp

lemma establish_all:
  assumes b: "0 < budget" and s: "inv s" "pending s = replicate k Establishing"
    and n: "d_established (counts s) + k = npeers" "npeers \<le> usize_max"
  shows "\<exists>s'. update_until update counts npeers s = Some s' \<and> inv s' \<and> pending s' = []"
  using s n(1)
proof (induction k arbitrary: s rule: less_induct)
  case (less k)
  show ?case
  proof (cases "k = 0")
    case True
    then have "update_until update counts npeers s = Some s" using less.prems(3) by (subst update_until.simps) simp
    then show ?thesis using less.prems(1,2) True by simp
  next
    case False
    let ?j = "min budget k"
    have est: "d_established (fold observe (replicate m Establishing) d) = d_established d + m"
      if "d_established d + m \<le> usize_max" for d m
      using that by (induction m arbitrary: d) (simp_all add: usize_add_exact)
    have "take budget (pending s) = replicate ?j Establishing" using less.prems(2) by (simp add: min.commute)
    then have "counts (update s) = fold observe (replicate ?j Establishing) (counts s)"
      using update_counts [OF less.prems(1)] by simp
    then have c: "d_established (counts (update s)) + (k - ?j) = npeers"
      using est [of "counts s" ?j] less.prems(3) n(2) by simp
    have p: "pending (update s) = replicate (k - ?j) Establishing"
      using update_pending [OF less.prems(1)] less.prems(2) by (auto simp: min_def)
    have "update_until update counts npeers s = update_until update counts npeers (update s)"
      using False less.prems(3) by (subst update_until.simps) simp
    then show ?thesis using less.IH [OF _ update_inv [OF less.prems(1)] p c] b False by auto
  qed
qed

end

end
