(* ===== verification/Bench_Client.thy ===== *)
theory Bench_Client
  imports Bench_Fixtures
begin

text \<open>
  The client fixture of \<^verbatim>\<open>src/benches/utils/client.rs\<close>, over a stream transport and over datagrams: how it is
  built, a round of messages, and the frames that deliver them.
\<close>

section \<open>The fixture\<close>

text \<open>
  A fixture over a client endpoint; \<open>T\<close>, \<open>MI\<close> and \<open>MO\<close> are tokio's tokens and channels, \<open>datagram\<close> is
  \<open>P::DATAGRAM\<close>, \<open>rd\<close> the handle's \<open>record_drop\<close>. The clones of a connection share the state in the world.
\<close>

record ('inc, 'c, 'h, 'k, 'ts) ClientFixture =
  cf_world :: "(bench_packet, 'c, 'h, 'k, 'ts, (bench_packet, unit, unit) client_event) endpoint_world"
  cf_incoming :: 'inc
  cf_datagrams :: "bench_packet PacketReceiveEvent Shared"
  cf_connections :: "ConnectionId list"
  cf_settings :: NetworkQueueSettings
  cf_scenario :: Scenario
  cf_packets_per_connection :: usize
  cf_counts :: Delivery
  cf_update_packets :: usize

fun client_observe :: "(bench_packet, unit, unit) client_event \<Rightarrow> Delivery \<Rightarrow> Delivery" where
  "client_observe (CEstablishEvent _ _) d = observe Establishing d"
| "client_observe (CPacketEvent _) d = observe Packeting d"
| "client_observe (CDisconnectionEvent _ _ _) d = observe Closing d"

text \<open>\<open>app.update()\<close>: the receive systems with their observers, then the system in \<open>Update\<close>.\<close>

definition client_app_update ::
  "('k, 'ts) tokens \<Rightarrow> (QueueDropReason \<Rightarrow> 'h \<Rightarrow> 'h) \<Rightarrow> ((bench_packet, unit, unit) client_message, 'inc) mpsc \<Rightarrow> bool
     \<Rightarrow> ('inc, 'c, 'h, 'k, 'ts) ClientFixture \<Rightarrow> ('inc, 'c, 'h, 'k, 'ts) ClientFixture"
where
  "client_app_update T rd MI datagram f =
     (case client_incoming_system MI None (Some (cf_settings f)) (cf_incoming f) (cf_world f) of
        (rx, w1) \<Rightarrow>
          (case (if datagram then client_receive_datagram_packets T rd None (Some (cf_settings f)) (cf_datagrams f) w1
                 else (cf_datagrams f, w1)) of
             (sh, w2) \<Rightarrow>
               (let d = fold client_observe (drop (length (triggered (cf_world f))) (triggered w2)) (cf_counts f) in
                f\<lparr>cf_world := w2, cf_incoming := rx, cf_datagrams := sh, cf_counts := d,
                  cf_update_packets := (if datagram then d_packets d else cf_update_packets f)\<rparr>)))"

definition client_send_message ::
  "((bench_packet, unit, unit) client_message, 'inc) mpsc \<Rightarrow> (bench_packet, unit, unit) client_message
     \<Rightarrow> ('inc, 'c, 'h, 'k, 'ts) ClientFixture \<Rightarrow> ('inc, 'c, 'h, 'k, 'ts) ClientFixture option"
where
  "client_send_message MI m f =
     (case mpsc_try_send MI m (cf_incoming f) of (Inr _, c) \<Rightarrow> Some (f\<lparr>cf_incoming := c\<rparr>) | (Inl _, _) \<Rightarrow> None)"

definition client_establish ::
  "((bench_packet, unit, unit) client_message, 'inc) mpsc \<Rightarrow> ConnectionId
     \<Rightarrow> ('inc, 'c, 'h, 'k, 'ts) ClientFixture \<Rightarrow> ('inc, 'c, 'h, 'k, 'ts) ClientFixture option"
where
  "client_establish MI i f = client_send_message MI (CEstablished bench_peer i) f"

definition client_with_transport ::
  "('k, 'ts) tokens \<Rightarrow> (QueueDropReason \<Rightarrow> 'h \<Rightarrow> 'h) \<Rightarrow> ((bench_packet, unit, unit) client_message, 'inc) mpsc
     \<Rightarrow> (bench_packet, 'c) mpsc \<Rightarrow> bool \<Rightarrow> 'h \<Rightarrow> usize \<Rightarrow> 'ts \<Rightarrow> usize \<Rightarrow> usize \<Rightarrow> usize \<Rightarrow> Scenario
     \<Rightarrow> ('inc, 'c, 'h, 'k, 'ts) ClientFixture option"
where
  "client_with_transport T rd MI MO datagram h counter ts budget npeers packets_per_connection scenario =
     (if \<not> (0 < budget \<and> 0 < npeers \<and> 0 < packets_per_connection) then None
      else
        let qs = bench_settings budget npeers packets_per_connection;
            f0 = \<lparr>cf_world = \<lparr>conns = Map.empty, registry = [], current = None, world_tokens = ts, triggered = []\<rparr>,
                  cf_incoming = incoming_channel MI qs,
                  cf_datagrams = lossy_channel (if datagram then usize_mul npeers packets_per_connection else 1) usize_max DropNewest,
                  cf_connections = [], cf_settings = qs, cf_scenario = scenario,
                  cf_packets_per_connection = packets_per_connection, cf_counts = Delivery_default, cf_update_packets = 0\<rparr>;
            f1 = client_app_update T rd MI datagram f0
        in case bench_connections T MO qs datagram h npeers counter (cf_world f1) of
             (is, _, w) \<Rightarrow>
               (let f2 = f1\<lparr>cf_world := w, cf_connections := is\<rparr> in
                if scenario = OnlyPackets
                then (case foldM (client_establish MI) is f2 of
                        None \<Rightarrow> None
                      | Some f3 \<Rightarrow> update_until (client_app_update T rd MI datagram) cf_counts npeers f3)
                else Some f2))"

text \<open>\<open>enqueue\<close>; \<open>clock\<close> gives the instants at which the packets are made.\<close>

definition client_enqueue_packet ::
  "((bench_packet, unit, unit) client_message, 'inc) mpsc \<Rightarrow> bool \<Rightarrow> bench_clock \<Rightarrow> ConnectionId \<Rightarrow> nat
     \<Rightarrow> ('inc, 'c, 'h, 'k, 'ts) ClientFixture \<Rightarrow> ('inc, 'c, 'h, 'k, 'ts) ClientFixture option"
where
  "client_enqueue_packet MI datagram clock i packet f =
     (let event = \<lparr>pe_connection = i, pe_packet = of_nat packet, pe_received_at = clock i packet\<rparr> in
      if datagram
      then (case try_send event 8 (cf_datagrams f) of
              (Inr _, sh, _) \<Rightarrow> Some (f\<lparr>cf_datagrams := sh\<rparr>)
            | (Inl _, _, _) \<Rightarrow> None)
      else client_send_message MI (CStreamPacket event) f)"

definition client_enqueue_connection ::
  "((bench_packet, unit, unit) client_message, 'inc) mpsc \<Rightarrow> bool \<Rightarrow> bench_clock \<Rightarrow> ConnectionId
     \<Rightarrow> ('inc, 'c, 'h, 'k, 'ts) ClientFixture \<Rightarrow> ('inc, 'c, 'h, 'k, 'ts) ClientFixture option"
where
  "client_enqueue_connection MI datagram clock i f =
     (case (if cf_scenario f = Interleaved then client_establish MI i f else Some f) of
        None \<Rightarrow> None
      | Some f1 \<Rightarrow>
          (case foldM (client_enqueue_packet MI datagram clock i) [0 ..< cf_packets_per_connection f1] f1 of
             None \<Rightarrow> None
           | Some f2 \<Rightarrow>
               if cf_scenario f2 = Interleaved
               then client_send_message MI (CClosed IntentionalDisconnection bench_peer (Some i)) f2
               else Some f2))"

definition client_reset :: "bool \<Rightarrow> ('inc, 'c, 'h, 'k, 'ts) ClientFixture \<Rightarrow> ('inc, 'c, 'h, 'k, 'ts) ClientFixture" where
  "client_reset datagram f =
     f\<lparr>cf_counts := Delivery_default, cf_update_packets := (if datagram then 0 else cf_update_packets f)\<rparr>"

definition client_enqueue ::
  "((bench_packet, unit, unit) client_message, 'inc) mpsc \<Rightarrow> bool \<Rightarrow> bench_clock
     \<Rightarrow> ('inc, 'c, 'h, 'k, 'ts) ClientFixture \<Rightarrow> ('inc, 'c, 'h, 'k, 'ts) ClientFixture option"
where
  "client_enqueue MI datagram clock f =
     foldM (client_enqueue_connection MI datagram clock) (cf_connections f) (client_reset datagram f)"

text \<open>\<open>drain\<close>: a frame counts itself and updates the app.\<close>

definition client_bump :: "('inc, 'c, 'h, 'k, 'ts) ClientFixture \<Rightarrow> ('inc, 'c, 'h, 'k, 'ts) ClientFixture" where
  "client_bump f = f\<lparr>cf_counts := count_frame (cf_counts f)\<rparr>"

definition client_visible :: "bool \<Rightarrow> ('inc, 'c, 'h, 'k, 'ts) ClientFixture \<Rightarrow> usize" where
  "client_visible datagram f = (if datagram then cf_update_packets f else d_packets (cf_counts f))"

definition client_drain ::
  "('k, 'ts) tokens \<Rightarrow> (QueueDropReason \<Rightarrow> 'h \<Rightarrow> 'h) \<Rightarrow> ((bench_packet, unit, unit) client_message, 'inc) mpsc \<Rightarrow> bool
     \<Rightarrow> ('inc, 'c, 'h, 'k, 'ts) ClientFixture \<Rightarrow> (Delivery \<times> ('inc, 'c, 'h, 'k, 'ts) ClientFixture) option"
where
  "client_drain T rd MI datagram f =
     (let expected_packets = usize_mul (length (cf_connections f)) (cf_packets_per_connection f);
          expected_closed = (if cf_scenario f = Interleaved then length (cf_connections f) else 0)
      in drain_loop (\<lambda>f. client_app_update T rd MI datagram (client_bump f)) cf_counts (client_visible datagram) expected_packets expected_closed
           (usize_add (usize_add expected_packets (usize_mul (length (cf_connections f)) 2)) 2) f)"

section \<open>Messages and events\<close>

fun client_kind :: "('p, 'd, 'l) client_message \<Rightarrow> event_kind" where
  "client_kind (CStreamPacket _) = Packeting"
| "client_kind (CEstablished _ _) = Establishing"
| "client_kind (CClosed _ _ _) = Closing"

lemma client_observe_messages: "fold client_observe (map client_event_of ms) d = fold observe (map client_kind ms) d"
proof (induction ms arbitrary: d)
  case (Cons m ms)
  then show ?case by (cases m) simp_all
qed simp

lemma client_observe_packets: "fold client_observe (map CPacketEvent pes) d = fold observe (replicate (length pes) Packeting) d"
  by (induction pes arbitrary: d) simp_all

section \<open>Lifecycle messages over either transport\<close>

text \<open>
  The fixture while no datagram is queued: \<open>A\<close> collects connections whose establishment is announced, \<open>sh\<close> is the
  empty datagram queue and \<open>st\<close> what the fixture was built from.
\<close>

definition client_static :: "('inc, 'c, 'h, 'k, 'ts) ClientFixture \<Rightarrow> fixture_params" where
  "client_static f = (cf_connections f, cf_settings f, cf_scenario f, cf_packets_per_connection f)"

definition announced ::
  "('k, 'ts) tokens \<Rightarrow> ('p, 'd, 'l) client_message list \<Rightarrow> ConnectionId set
     \<Rightarrow> ('q, 'c, 'h, 'k, 'ts, ('p, 'd, 'l) client_event) endpoint_world \<Rightarrow> bool"
where
  "announced T ms A w \<longleftrightarrow> (\<forall>i \<in> A. conns w i \<noteq> None \<and> \<not> world_cancelled T w i
     \<and> (world_published w i \<or> (\<exists>m \<in> set ms. client_established m = Some i)))"

definition client_ready ::
  "('k, 'ts) tokens \<Rightarrow> ((bench_packet, unit, unit) client_message, 'inc) mpsc
     \<Rightarrow> ('inc \<Rightarrow> (bench_packet, unit, unit) client_message list) \<Rightarrow> ConnectionId set \<Rightarrow> bench_packet PacketReceiveEvent Shared
     \<Rightarrow> fixture_params \<Rightarrow> ('inc, 'c, 'h, 'k, 'ts) ClientFixture \<Rightarrow> bool"
where
  "client_ready T MI pend A sh st f \<longleftrightarrow>
     mpsc_laws MI pend \<and> room_laws MI pend \<and> items (state sh) = [] \<and> cf_datagrams f = sh \<and> client_static f = st
     \<and> open_with MI (max (receive_capacity (fst (snd st))) 1) (cf_incoming f)
     \<and> announced T (pend (cf_incoming f)) A (cf_world f)"

lemma client_apply_cancelled [simp]: "world_cancelled T (client_apply m w) i = world_cancelled T w i"
  by (cases m) (auto simp: client_apply_def client_remove_connection_def Let_def world_cancelled_def
      upd_conn_def trigger_def mark_published_def split: option.splits)

lemma announced_apply: "announced T (ms @ ns) A w \<Longrightarrow> announced T ns A (fold client_apply ms w)"
proof (induction ms arbitrary: w)
  case (Cons m ms)
  have "announced T (ms @ ns) A (client_apply m w)"
    using Cons.prems client_apply_conns [of m w]
    by (fastforce simp: announced_def client_apply_world_published)
  then show ?case using Cons.IH by simp
qed simp

lemma no_datagrams:
  assumes "items (state sh) = []"
  shows "datagram_frame T rd mk n sh w = (sh, w)"
  using assms by (cases n) (simp_all add: datagram_frame_def try_recv_if_form)

lemma client_update:
  assumes "client_ready T MI pend A sh st f"
  shows "client_ready T MI pend A sh st (client_app_update T rd MI datagram f)
     \<and> pend (cf_incoming (client_app_update T rd MI datagram f)) = drop (events_per_frame (fst (snd st))) (pend (cf_incoming f))
     \<and> cf_counts (client_app_update T rd MI datagram f)
         = fold observe (map client_kind (take (events_per_frame (fst (snd st))) (pend (cf_incoming f)))) (cf_counts f)
     \<and> cf_world (client_app_update T rd MI datagram f)
         = fold client_apply (take (events_per_frame (fst (snd st))) (pend (cf_incoming f))) (cf_world f)
     \<and> client_visible datagram (client_app_update T rd MI datagram f) = d_packets (cf_counts (client_app_update T rd MI datagram f))"
proof -
  let ?b = "events_per_frame (fst (snd st))" and ?ms = "pend (cf_incoming f)"
  have laws: "mpsc_laws MI pend" "room_laws MI pend" and sh: "items (state sh) = []" "cf_datagrams f = sh"
    and st: "client_static f = st" "cf_settings f = fst (snd st)"
    and ow: "open_with MI (max (receive_capacity (fst (snd st))) 1) (cf_incoming f)"
    and an: "announced T ?ms A (cf_world f)"
    using assms by (auto simp: client_ready_def client_static_def)
  obtain rx where rx: "drain_messages MI ?b (cf_incoming f) = (take ?b ?ms, rx)" "pend rx = drop ?b ?ms"
    using drain_messages_fifo [OF laws(1)] by blast
  define d where "d = fold observe (map client_kind (take ?b ?ms)) (cf_counts f)"
  have u: "client_app_update T rd MI datagram f =
      f\<lparr>cf_world := fold client_apply (take ?b ?ms) (cf_world f), cf_incoming := rx, cf_datagrams := sh, cf_counts := d,
        cf_update_packets := (if datagram then d_packets d else cf_update_packets f)\<rparr>"
    by (simp add: client_app_update_def client_incoming_system_def client_receive_datagram_packets_def st(2) rx sh
        no_datagrams client_apply_triggered client_observe_messages d_def Let_def)
  have "announced T (drop ?b ?ms) A (fold client_apply (take ?b ?ms) (cf_world f))"
    using announced_apply an by (metis append_take_drop_id)
  then have "client_ready T MI pend A sh st (client_app_update T rd MI datagram f)"
    using laws sh st drain_messages_open [OF laws(2) rx(1) ow] rx(2)
    by (simp add: u client_ready_def client_static_def)
  then show ?thesis by (simp add: u rx(2) d_def client_visible_def)
qed

lemma client_ready_bump [simp]: "client_ready T MI pend A sh st (client_bump f) = client_ready T MI pend A sh st f"
  by (simp add: client_bump_def client_ready_def client_static_def)

lemma client_ready_reset [simp]: "client_ready T MI pend A sh st (client_reset d f) = client_ready T MI pend A sh st f"
  by (simp add: client_reset_def client_ready_def client_static_def)

interpretation client_fixture: fixture "client_app_update T rd MI datagram" client_bump "client_reset datagram" cf_counts
    "client_visible datagram" "\<lambda>f. map client_kind (pend (cf_incoming f))" "events_per_frame (fst (snd st))"
    "max (receive_capacity (fst (snd st))) 1" "client_ready T MI pend A sh st"
  for T rd MI datagram pend A sh st
  by unfold_locales
    (simp_all add: client_update take_map drop_map, simp_all add: client_bump_def client_reset_def)

section \<open>A round of messages over a stream\<close>

text \<open>Sending keeps the announced connections announced.\<close>

lemma client_send:
  assumes "client_ready T MI pend A sh st f" "length (pend (cf_incoming f)) < max (receive_capacity (fst (snd st))) 1"
  obtains f' where "client_send_message MI m f = Some f'" "client_ready T MI pend A sh st f'"
    "pend (cf_incoming f') = pend (cf_incoming f) @ [m]" "cf_counts f' = cf_counts f" "cf_world f' = cf_world f"
proof -
  have "room_laws MI pend" "open_with MI (max (receive_capacity (fst (snd st))) 1) (cf_incoming f)"
    using assms(1) by (simp_all add: client_ready_def)
  then obtain c where c: "mpsc_try_send MI m (cf_incoming f) = (Inr (), c)" "pend c = pend (cf_incoming f) @ [m]"
      "open_with MI (max (receive_capacity (fst (snd st))) 1) c"
    using assms(2) by (rule room_send)
  have "announced T (pend (cf_incoming f)) A (cf_world f)" using assms(1) by (simp add: client_ready_def)
  then have "announced T (pend (cf_incoming f) @ [m]) A (cf_world f)" unfolding announced_def by auto
  then show thesis
    using that [of "f\<lparr>cf_incoming := c\<rparr>"] c assms(1)
    by (simp add: client_send_message_def client_ready_def client_static_def)
qed

abbreviation client_appends where
  "client_appends T MI pend A sh st \<equiv>
     appends (client_ready T MI pend A sh st) (\<lambda>f. map client_kind (pend (cf_incoming f))) cf_counts
       (max (receive_capacity (fst (snd st))) 1)"

lemma client_send_appends: "client_appends T MI pend A sh st (client_send_message MI m) [client_kind m]"
  unfolding appends_def
proof (intro allI impI, elim conjE)
  fix f assume "client_ready T MI pend A sh st f"
    and "length (map client_kind (pend (cf_incoming f))) + length [client_kind m] \<le> max (receive_capacity (fst (snd st))) 1"
  then obtain f' where "client_send_message MI m f = Some f'" "client_ready T MI pend A sh st f'"
    "pend (cf_incoming f') = pend (cf_incoming f) @ [m]" "cf_counts f' = cf_counts f"
    by (auto elim: client_send [of T MI pend A sh st f m])
  then show "\<exists>f'. client_send_message MI m f = Some f' \<and> client_ready T MI pend A sh st f'
      \<and> map client_kind (pend (cf_incoming f')) = map client_kind (pend (cf_incoming f)) @ [client_kind m]
      \<and> cf_counts f' = cf_counts f" by simp
qed

lemma client_packet_appends: "client_appends T MI pend A sh st (client_enqueue_packet MI False clock i p) [Packeting]"
  unfolding client_enqueue_packet_def [abs_def] Let_def if_False
  by (rule client_send_appends [where m = "CStreamPacket pe" for pe, unfolded client_kind.simps])

lemma client_packets_append:
  "client_appends T MI pend A sh st (foldM (client_enqueue_packet MI False clock i) [0 ..< n]) (replicate n Packeting)"
  unfolding only_packets by (rule appends_foldM) (rule client_packet_appends)

lemma client_establish_appends: "client_appends T MI pend A sh st (client_establish MI i) [Establishing]"
  unfolding client_establish_def [abs_def]
  by (rule client_send_appends [where m = "CEstablished bench_peer i", unfolded client_kind.simps])

lemmas client_close_appends = client_send_appends
  [where m = "CClosed IntentionalDisconnection bench_peer (Some i)" for i, unfolded client_kind.simps]

lemma client_connection_appends:
  assumes "snd (snd st) = (sc, n)"
  shows "client_appends T MI pend A sh st (client_enqueue_connection MI False clock i) (connection_events sc n)"
  unfolding client_enqueue_connection_def [abs_def]
  by (rule connection_appends, rule client_establish_appends, rule client_packets_append, rule client_close_appends)
    (use assms in \<open>auto simp: client_ready_def client_static_def\<close>)

section \<open>Building a fixture\<close>

lemma client_establish_all:
  assumes "client_ready T MI pend A sh st f"
    and "length (pend (cf_incoming f)) + length is \<le> max (receive_capacity (fst (snd st))) 1"
  shows "\<exists>f'. foldM (client_establish MI) is f = Some f' \<and> client_ready T MI pend A sh st f'
     \<and> pend (cf_incoming f') = pend (cf_incoming f) @ map (CEstablished bench_peer) is
     \<and> cf_counts f' = cf_counts f \<and> cf_world f' = cf_world f"
  using assms
proof (induction "is" arbitrary: f)
  case (Cons i "is")
  obtain f1 where f1: "client_send_message MI (CEstablished bench_peer i) f = Some f1" "client_ready T MI pend A sh st f1"
    "pend (cf_incoming f1) = pend (cf_incoming f) @ [CEstablished bench_peer i]" "cf_counts f1 = cf_counts f" "cf_world f1 = cf_world f"
    using Cons.prems by (auto elim: client_send [where m = "CEstablished bench_peer i"])
  then show ?case using Cons.IH [OF f1(2)] Cons.prems(2) by (auto simp: client_establish_def)
qed simp

lemma client_built:
  fixes MO :: "(bench_packet, 'c) mpsc" and h :: 'h and T :: "('k, 'ts) tokens"
    and MI :: "((bench_packet, unit, unit) client_message, 'inc) mpsc"
  assumes laws: "mpsc_laws MI pend" "room_laws MI pend"
    and pos: "0 < budget" "0 < npeers" "0 < n" and fit: "npeers * (n + 2) \<le> max_permits"
    and udp: "datagram \<longrightarrow> sc = OnlyPackets \<and> token_laws T \<and> new_token_laws T"
  shows "\<exists>is f. client_with_transport T rd MI MO datagram h counter ts budget npeers n sc = Some f \<and> length is = npeers
     \<and> client_ready T MI pend (if datagram then set is else {})
          (lossy_channel (if datagram then usize_mul npeers n else 1) usize_max DropNewest)
          (is, bench_settings budget npeers n, sc, n) f
     \<and> pend (cf_incoming f) = []"
proof -
  let ?qs = "bench_settings budget npeers n" and ?sh = "lossy_channel (if datagram then usize_mul npeers n else 1) usize_max DropNewest"
  let ?f0 = "\<lparr>cf_world = \<lparr>conns = Map.empty, registry = [], current = None, world_tokens = ts, triggered = []\<rparr>,
      cf_incoming = incoming_channel MI ?qs, cf_datagrams = ?sh, cf_connections = [], cf_settings = ?qs, cf_scenario = sc,
      cf_packets_per_connection = n, cf_counts = Delivery_default, cf_update_packets = 0\<rparr>
      :: ('inc, 'c, 'h, 'k, 'ts) ClientFixture"
  let ?f1 = "client_app_update T rd MI datagram ?f0"
  have cap: "receive_capacity ?qs = npeers * (n + 2)" "events_per_frame ?qs = budget" using fit by (simp_all add: bench_settings_exact pos)
  have len: "npeers \<le> npeers * (n + 2)" by simp
  have "client_ready T MI pend {} ?sh ([], ?qs, sc, n) ?f0" and e0: "pend (cf_incoming ?f0) = []"
    using room_channel [OF laws(2), of "npeers * (n + 2)"] fit laws pos
    by (simp_all add: client_ready_def client_static_def announced_def lossy_channel_def incoming_channel_def cap max_def)
  note u = client_update [OF this(1), of rd datagram]
  obtain "is" c w where bc: "bench_connections T MO ?qs datagram h npeers counter (cf_world ?f1) = (is, c, w)"
    by (metis prod_cases3)
  let ?f2 = "?f1\<lparr>cf_world := w, cf_connections := is\<rparr>" and ?st = "(is, ?qs, sc, n)"
  have f2: "client_ready T MI pend {} ?sh ?st ?f2" "pend (cf_incoming ?f2) = []" "cf_counts ?f2 = Delivery_default"
    using u e0 by (auto simp: client_ready_def client_static_def announced_def)
  have l: "length is = npeers" using bench_connections_length [OF bc] .
  have w: "announced T (map (CEstablished bench_peer) is) (set is) w" if datagram
  proof -
    have "cf_world ?f1 = cf_world ?f0" using u unfolding e0 by simp
    then have "\<not> world_cancelled T (cf_world ?f1) i" for i by (simp add: world_cancelled_def)
    from bench_connections_live [OF _ _ bc this] udp that show ?thesis by (auto simp: announced_def)
  qed
  have built: "client_with_transport T rd MI MO datagram h counter ts budget npeers n sc =
      (if sc = OnlyPackets
       then (case foldM (client_establish MI) is ?f2 of
               None \<Rightarrow> None
             | Some f3 \<Rightarrow> update_until (client_app_update T rd MI datagram) cf_counts npeers f3)
       else Some ?f2)"
    using pos by (simp add: client_with_transport_def Let_def bc)
  show ?thesis
  proof (cases sc)
    case OnlyPackets
    have "length (pend (cf_incoming ?f2)) + length is \<le> max (receive_capacity (fst (snd ?st))) 1"
      using l len unfolding f2(2) by (simp add: cap)
    from client_establish_all [OF f2(1) this] obtain f3
      where f3: "foldM (client_establish MI) is ?f2 = Some f3" "client_ready T MI pend {} ?sh ?st f3"
      "pend (cf_incoming f3) = map (CEstablished bench_peer) is" "cf_counts f3 = Delivery_default" "cf_world f3 = w"
      unfolding f2(2,3) by auto
    then have r3: "client_ready T MI pend (if datagram then set is else {}) ?sh ?st f3"
      using w by (auto simp: client_ready_def)
    have "map client_kind (pend (cf_incoming f3)) = replicate npeers Establishing"
      using f3(3) l by (simp add: comp_def map_replicate_const)
    moreover have "npeers \<le> usize_max" using fit len by (simp add: max_permits_def)
    moreover have "d_established (cf_counts f3) + npeers = npeers" using f3(4) by (simp add: Delivery_default_def)
    moreover have "0 < events_per_frame (fst (snd ?st))" using pos(1) by (simp add: cap)
    ultimately obtain f4 where "update_until (client_app_update T rd MI datagram) cf_counts npeers f3 = Some f4"
        "client_ready T MI pend (if datagram then set is else {}) ?sh ?st f4" "pend (cf_incoming f4) = []"
      using client_fixture.establish_all [where rd = rd and datagram = datagram, OF _ r3] by auto
    moreover from this(1) have "client_with_transport T rd MI MO datagram h counter ts budget npeers n sc = Some f4"
      unfolding built f3(1) by (simp add: OnlyPackets)
    ultimately show ?thesis using l by blast
  next
    case Interleaved
    then have "\<not> datagram" using udp by auto
    then have A: "(if datagram then set is else {}) = {}" by simp
    have "client_with_transport T rd MI MO datagram h counter ts budget npeers n sc = Some ?f2"
      unfolding built using Interleaved by simp
    moreover have "client_ready T MI pend (if datagram then set is else {}) ?sh ?st ?f2" using f2(1) by (simp only: A)
    ultimately show ?thesis using l f2(2) by blast
  qed
qed

section \<open>A round of datagrams\<close>

text \<open>The datagram queue of a fixture: room for a round of packets of eight bytes, all for its connections.\<close>

definition bench_queue :: "nat \<Rightarrow> ConnectionId list \<Rightarrow> bench_packet PacketReceiveEvent Shared \<Rightarrow> bool" where
  "bench_queue cap is sh \<longleftrightarrow>
     lossy_wf sh \<and> receiver_open (state sh) \<and> max_items sh = cap \<and> max_bytes sh = usize_max \<and> policy sh = DropNewest
     \<and> (\<forall>(pe, n) \<in> set (items (state sh)). n = 8 \<and> pe_connection pe \<in> set is)"

lemma bench_queue_recv:
  assumes "bench_queue cap is sh" "try_recv_if ready sh = (r, sh', ns)"
  shows "bench_queue cap is sh'"
proof -
  have "lossy_wf sh'" using assms try_recv_if_wf unfolding bench_queue_def by blast
  then show ?thesis using assms by (cases "items (state sh)") (auto simp: bench_queue_def try_recv_if_form split: if_splits)
qed

lemma bench_queue_send:
  assumes "bench_queue cap is sh" "length (items (state sh)) < cap" "8 * cap \<le> usize_max" "pe_connection pe \<in> set is"
  obtains sh' ns where "try_send pe 8 sh = (Inr [], sh', ns)" "bench_queue cap is sh'"
    "queue_contents sh' = queue_contents sh @ [pe]"
proof -
  have w: "weight xs = 8 * length xs" if "\<forall>(pe :: bench_packet PacketReceiveEvent, n) \<in> set xs. n = 8" for xs
    using that by (induction xs) auto
  have "bytes (state sh) = 8 * length (items (state sh))"
    using assms(1) w [of "items (state sh)"] by (auto simp: bench_queue_def lossy_wf_def)
  then have b: "bytes (state sh) + 8 \<le> usize_max" "\<not> usize_max - 8 < bytes (state sh)" "8 \<le> usize_max" using assms(2,3) by linarith+
  let ?sh = "sh\<lparr>state := (state sh)\<lparr>bytes := usize_add (bytes (state sh)) 8, items := items (state sh) @ [(pe, 8)]\<rparr>\<rparr>"
  have t: "try_send pe 8 sh = (Inr [], ?sh, [Changed_notify_one])"
    using assms(1,2) b by (auto simp: try_send_def try_send_where_def evict_oldest_def bench_queue_def Let_def)
  have "bench_queue cap is ?sh"
    using assms(1,2,4) b(1) by (auto simp: bench_queue_def lossy_wf_def usize_add_exact)
  then show thesis using that t by (simp add: queue_contents_def)
qed

definition udp_ready ::
  "('k, 'ts) tokens \<Rightarrow> ((bench_packet, unit, unit) client_message, 'inc) mpsc
     \<Rightarrow> ('inc \<Rightarrow> (bench_packet, unit, unit) client_message list) \<Rightarrow> nat \<Rightarrow> fixture_params
     \<Rightarrow> ('inc, 'c, 'h, 'k, 'ts) ClientFixture \<Rightarrow> bool"
where
  "udp_ready T MI pend cap st f \<longleftrightarrow>
     mpsc_laws MI pend \<and> client_static f = st \<and> pend (cf_incoming f) = [] \<and> 8 * cap \<le> usize_max
     \<and> bench_queue cap (fst st) (cf_datagrams f) \<and> announced T [] (set (fst st)) (cf_world f)"

lemma udp_ready_bump [simp]: "udp_ready T MI pend cap st (client_bump f) = udp_ready T MI pend cap st f"
  by (simp add: client_bump_def udp_ready_def client_static_def)

lemma udp_ready_reset [simp]: "udp_ready T MI pend cap st (client_reset d f) = udp_ready T MI pend cap st f"
  by (simp add: client_reset_def udp_ready_def client_static_def)

lemma udp_update:
  assumes "udp_ready T MI pend cap st f"
  shows "udp_ready T MI pend cap st (client_app_update T rd MI True f)
     \<and> length (queue_contents (cf_datagrams (client_app_update T rd MI True f)))
         = length (queue_contents (cf_datagrams f)) - events_per_frame (fst (snd st))
     \<and> cf_counts (client_app_update T rd MI True f)
         = fold observe (take (events_per_frame (fst (snd st))) (replicate (length (queue_contents (cf_datagrams f))) Packeting)) (cf_counts f)
     \<and> client_visible True (client_app_update T rd MI True f) = d_packets (cf_counts (client_app_update T rd MI True f))"
proof -
  let ?b = "events_per_frame (fst (snd st))" and ?w = "cf_world f" and ?q = "queue_contents (cf_datagrams f)"
  have M: "mpsc_laws MI pend" "pend (cf_incoming f) = []" and st: "client_static f = st" "cf_settings f = fst (snd st)"
    and q: "bench_queue cap (fst st) (cf_datagrams f)" and a: "announced T [] (set (fst st)) ?w" and cap: "8 * cap \<le> usize_max"
    using assms by (auto simp: udp_ready_def client_static_def)
  obtain rx where rx: "drain_messages MI ?b (cf_incoming f) = ([], rx)" "pend rx = []"
    using drain_messages_fifo [OF M(1), of ?b "cf_incoming f"] M(2) by auto
  have "world_published ?w (pe_connection pe) \<and> \<not> world_cancelled T ?w (pe_connection pe)" if "pe \<in> set ?q" for pe
    using that q a by (fastforce simp: announced_def bench_queue_def queue_contents_def)
  then obtain sh' where d: "datagram_frame T rd CPacketEvent ?b (cf_datagrams f) ?w
      = (sh', ?w\<lparr>triggered := triggered ?w @ map CPacketEvent (take ?b ?q)\<rparr>)" "queue_contents sh' = drop ?b ?q"
    by (rule datagram_frame_all)
  have q': "bench_queue cap (fst st) sh'"
    using take_datagrams_keeps [of "bench_queue cap (fst st)", OF bench_queue_recv q] d(1)
    by (fastforce simp: datagram_frame_def split: prod.splits)
  define c where "c = fold observe (replicate (min (length ?q) ?b) Packeting) (cf_counts f)"
  have u: "client_app_update T rd MI True f =
      f\<lparr>cf_world := ?w\<lparr>triggered := triggered ?w @ map CPacketEvent (take ?b ?q)\<rparr>, cf_incoming := rx, cf_datagrams := sh',
        cf_counts := c, cf_update_packets := d_packets c\<rparr>"
    by (simp add: client_app_update_def client_incoming_system_def client_receive_datagram_packets_def st(2) rx(1) d(1)
        client_observe_packets c_def Let_def)
  have "announced T [] (set (fst st)) (?w\<lparr>triggered := triggered ?w @ map CPacketEvent (take ?b ?q)\<rparr>)"
    using a by (simp add: announced_def)
  then show ?thesis
    using M(1) st q' rx(2) d(2) cap by (simp add: u udp_ready_def client_static_def client_visible_def c_def min.commute)
qed

interpretation udp_client: fixture "client_app_update T rd MI True" client_bump "client_reset True" cf_counts
    "client_visible True" "\<lambda>f. replicate (length (queue_contents (cf_datagrams f))) Packeting" "events_per_frame (fst (snd st))"
    cap "udp_ready T MI pend cap st"
  for T rd MI pend cap st
  by unfold_locales (simp_all add: udp_update, simp_all add: client_bump_def client_reset_def)

lemma udp_packet_appends:
  assumes "i \<in> set (fst st)"
  shows "appends (udp_ready T MI pend cap st) (\<lambda>f. replicate (length (queue_contents (cf_datagrams f))) Packeting) cf_counts cap
     (client_enqueue_packet MI True clock i p) [Packeting]"
  unfolding appends_def
proof (intro allI impI, elim conjE)
  fix f
  let ?pe = "\<lparr>pe_connection = i, pe_packet = of_nat p, pe_received_at = clock i p\<rparr>"
  assume f: "udp_ready T MI pend cap st f"
    and "length (replicate (length (queue_contents (cf_datagrams f))) Packeting) + length [Packeting] \<le> cap"
  then have "length (items (state (cf_datagrams f))) < cap" by (simp add: queue_contents_def)
  moreover have "bench_queue cap (fst st) (cf_datagrams f)" "8 * cap \<le> usize_max" using f by (simp_all add: udp_ready_def)
  ultimately obtain sh ns where "try_send ?pe 8 (cf_datagrams f) = (Inr [], sh, ns)" "bench_queue cap (fst st) sh"
    "queue_contents sh = queue_contents (cf_datagrams f) @ [?pe]"
    using bench_queue_send [of cap "fst st" "cf_datagrams f" ?pe] assms by auto
  with f show "\<exists>f'. client_enqueue_packet MI True clock i p f = Some f' \<and> udp_ready T MI pend cap st f'
      \<and> replicate (length (queue_contents (cf_datagrams f'))) Packeting
          = replicate (length (queue_contents (cf_datagrams f))) Packeting @ [Packeting] \<and> cf_counts f' = cf_counts f"
    by (simp add: client_enqueue_packet_def udp_ready_def client_static_def replicate_append_same)
qed

lemma udp_connection_appends:
  assumes "i \<in> set (fst st)" "snd (snd st) = (OnlyPackets, n)"
  shows "appends (udp_ready T MI pend cap st) (\<lambda>f. replicate (length (queue_contents (cf_datagrams f))) Packeting) cf_counts cap
     (client_enqueue_connection MI True clock i) (connection_events OnlyPackets n)"
  unfolding client_enqueue_connection_def [abs_def]
proof (rule connection_appends)
  show "appends (udp_ready T MI pend cap st) (\<lambda>f. replicate (length (queue_contents (cf_datagrams f))) Packeting) cf_counts cap
     (foldM (client_enqueue_packet MI True clock i) [0 ..< n]) (replicate n Packeting)"
    unfolding only_packets [of n] by (rule appends_foldM) (rule udp_packet_appends [OF assms(1)])
qed (use assms(2) in \<open>auto simp: udp_ready_def client_static_def\<close>)

section \<open>What a benchmark of the client measures\<close>

lemma client_drain_eq:
  assumes "client_static f = (is, qs, sc, n)" "length is * (n + 2) \<le> max_permits"
  shows "client_drain T rd MI datagram f = drain_loop (\<lambda>f. client_app_update T rd MI datagram (client_bump f)) cf_counts
     (client_visible datagram) (length is * n) (if sc = Interleaved then length is else 0) (length is * n + length is * 2 + 2) f"
proof -
  have "length is * n + length is * 2 + 2 \<le> usize_max" using assms(2) by (simp add: max_permits_def usize_max_def)
  then show ?thesis
    using assms(1) by (simp add: client_drain_def client_static_def usize_mul_exact usize_add_exact Let_def)
qed

lemma stream_rounds:
  assumes r: "client_ready T MI pend A sh (is, bench_settings b (length is) n, sc, n) f" and p: "pend (cf_incoming f) = []"
    and pos: "0 < b" "0 < length is" "0 < n" and fit: "length is * (n + 2) \<le> max_permits"
  shows "measure_rounds (client_enqueue MI False) (client_drain T rd MI False) clocks f
     = Some (replicate (length clocks) (expected_delivery sc b (length is) n))"
proof -
  let ?st = "(is, bench_settings b (length is) n, sc, n)"
  note cap = bench_settings_exact [OF fit pos(2), of b]
  have "length (round_events sc (length is) n) \<le> length is * (n + 2)" by (cases sc) (simp_all add: round_events_counts)
  then have 1: "length (round_events sc (length is) n) \<le> max (receive_capacity (fst (snd ?st))) 1" by (simp add: cap)
  have 2: "client_enqueue MI False c s = foldM (client_enqueue_connection MI False c) is (client_reset False s)"
    if "client_ready T MI pend A sh ?st s" for c s
    using that by (simp add: client_enqueue_def client_ready_def client_static_def)
  have 3: "client_appends T MI pend A sh ?st (foldM (client_enqueue_connection MI False c) is) (round_events sc (length is) n)" for c
    unfolding round_events_def by (rule appends_foldM) (rule client_connection_appends, simp)
  have 4: "client_drain T rd MI False s = drain_loop (\<lambda>f. client_app_update T rd MI False (client_bump f)) cf_counts
      (client_visible False) (length is * n) (if sc = Interleaved then length is else 0) (length is * n + length is * 2 + 2) s"
    if "client_ready T MI pend A sh ?st s" for s
    by (rule client_drain_eq [OF _ fit]) (use that in \<open>simp add: client_ready_def\<close>)
  have "0 < events_per_frame (fst (snd ?st))" using pos(1) by (simp add: cap)
  from client_fixture.rounds_measure [OF this pos(2,3) 1 fit 2 3 4 r] p show ?thesis by (simp add: cap)
qed

lemma datagram_rounds:
  assumes r: "udp_ready T MI pend (length is * n) (is, bench_settings b (length is) n, OnlyPackets, n) f"
    and e: "queue_contents (cf_datagrams f) = []"
    and pos: "0 < b" "0 < length is" "0 < n" and fit: "length is * (n + 2) \<le> max_permits"
  shows "measure_rounds (client_enqueue MI True) (client_drain T rd MI True) clocks f
     = Some (replicate (length clocks) (expected_delivery OnlyPackets b (length is) n))"
proof -
  let ?st = "(is, bench_settings b (length is) n, OnlyPackets, n)"
  note cap = bench_settings_exact [OF fit pos(2), of b]
  have 1: "length (round_events OnlyPackets (length is) n) \<le> length is * n" by (simp add: round_events_counts)
  have 2: "client_enqueue MI True c s = foldM (client_enqueue_connection MI True c) is (client_reset True s)"
    if "udp_ready T MI pend (length is * n) ?st s" for c s
    using that by (simp add: client_enqueue_def udp_ready_def client_static_def client_reset_def)
  have 3: "appends (udp_ready T MI pend (length is * n) ?st) (\<lambda>f. replicate (length (queue_contents (cf_datagrams f))) Packeting)
      cf_counts (length is * n) (foldM (client_enqueue_connection MI True c) is) (round_events OnlyPackets (length is) n)" for c
    unfolding round_events_def by (rule appends_foldM) (rule udp_connection_appends, simp_all)
  have 4: "client_drain T rd MI True s = drain_loop (\<lambda>f. client_app_update T rd MI True (client_bump f)) cf_counts
      (client_visible True) (length is * n) (if OnlyPackets = Interleaved then length is else 0) (length is * n + length is * 2 + 2) s"
    if "udp_ready T MI pend (length is * n) ?st s" for s
    by (rule client_drain_eq [OF _ fit]) (use that in \<open>simp add: udp_ready_def\<close>)
  have "0 < events_per_frame (fst (snd ?st))" using pos(1) by (simp add: cap)
  from udp_client.rounds_measure [OF this pos(2,3) 1 fit 2 3 4 r] e show ?thesis by (simp add: cap)
qed

lemma udp_ready_built:
  assumes "client_ready T MI pend (set is) (lossy_channel (usize_mul (length is) n) usize_max DropNewest) (is, qs, sc, n) f"
    and "pend (cf_incoming f) = []" "length is * (n + 2) \<le> max_permits"
  shows "udp_ready T MI pend (length is * n) (is, qs, sc, n) f \<and> queue_contents (cf_datagrams f) = []"
proof -
  have "8 * (length is * n) \<le> usize_max" using assms(3) by (simp add: max_permits_def usize_max_def)
  then show ?thesis
    using assms(1,2) by (simp add: udp_ready_def client_ready_def usize_mul_exact lossy_channel_def bench_queue_def lossy_wf_def
        queue_contents_def)
qed

text \<open>
  (C40) A benchmark of the client cannot fail and measures the same in every round. For positive parameters whose
  messages fit a channel, building the fixture returns, no assertion of any \<open>enqueue\<close> fails, and every \<open>drain\<close> returns
  before its panic: it has seen all packets and closures, taken as few frames as the budget allows, and met the
  last packet and the last closure in the frames that first-in first-out delivery gives.
\<close>

theorem client_fixture_measures:
  assumes laws: "mpsc_laws MI pend" "room_laws MI pend"
    and pos: "0 < budget" "0 < npeers" "0 < n" and fit: "npeers * (n + 2) \<le> max_permits"
    and udp: "datagram \<longrightarrow> sc = OnlyPackets \<and> token_laws T \<and> new_token_laws T"
  shows "\<exists>f. client_with_transport T rd MI MO datagram h counter ts budget npeers n sc = Some f
     \<and> measure_rounds (client_enqueue MI datagram) (client_drain T rd MI datagram) clocks f
         = Some (replicate (length clocks) (expected_delivery sc budget npeers n))"
proof -
  let ?qs = "bench_settings budget npeers n" and ?sh = "lossy_channel (if datagram then usize_mul npeers n else 1) usize_max DropNewest"
  obtain "is" f where f: "client_with_transport T rd MI MO datagram h counter ts budget npeers n sc = Some f"
    and l: "length is = npeers" and r: "client_ready T MI pend (if datagram then set is else {}) ?sh (is, ?qs, sc, n) f"
    and p: "pend (cf_incoming f) = []"
    using client_built [where rd = rd and MO = MO and h = h and counter = counter and ts = ts and sc = sc, OF laws pos fit udp]
    by (elim exE conjE)
  have *: "0 < length is" "length is * (n + 2) \<le> max_permits" using pos(2) fit l by simp_all
  show ?thesis
  proof (cases datagram)
    case True
    then have sc: "sc = OnlyPackets" using udp by simp
    have "udp_ready T MI pend (length is * n) (is, ?qs, sc, n) f \<and> queue_contents (cf_datagrams f) = []"
      by (rule udp_ready_built) (use True r p l *(2) in simp_all)
    then have "measure_rounds (client_enqueue MI True) (client_drain T rd MI True) clocks f
        = Some (replicate (length clocks) (expected_delivery OnlyPackets budget (length is) n))"
      by (intro datagram_rounds [where pend = pend, OF _ _ pos(1) *(1) pos(3) *(2)]) (simp_all add: sc l)
    then show ?thesis using f by (simp add: True sc l)
  next
    case False
    have "measure_rounds (client_enqueue MI False) (client_drain T rd MI False) clocks f
        = Some (replicate (length clocks) (expected_delivery sc budget (length is) n))"
      by (rule stream_rounds [where pend = pend, OF _ p pos(1) *(1) pos(3) *(2)]) (use r l False in simp)
    then show ?thesis using f by (simp add: False l)
  qed
qed

theorem client_fixture_measures_witness:
  "(\<exists>f. client_with_transport demo_tokens record_drop list_mpsc list_mpsc True (handle_new 1200 None) 0 (0, []) 3 2 4 OnlyPackets = Some f
     \<and> measure_rounds (client_enqueue list_mpsc True) (client_drain demo_tokens record_drop list_mpsc True) [\<lambda>_ _. 0, \<lambda>_ _. 9] f
         = Some [\<lparr>d_frames = 3, d_packets = 8, d_established = 0, d_closed = 0, d_last_packet_frame = 3, d_last_close_frame = 0\<rparr>, \<lparr>d_frames = 3, d_packets = 8, d_established = 0, d_closed = 0, d_last_packet_frame = 3, d_last_close_frame = 0\<rparr>])
   \<and> (\<exists>f. client_with_transport demo_tokens record_drop list_mpsc list_mpsc False (handle_new 1200 None) 0 (0, []) 5 8 1 Interleaved = Some f
     \<and> measure_rounds (client_enqueue list_mpsc False) (client_drain demo_tokens record_drop list_mpsc False) [\<lambda>_ _. 0, \<lambda>_ _. 9] f
         = Some [\<lparr>d_frames = 5, d_packets = 8, d_established = 8, d_closed = 8, d_last_packet_frame = 5, d_last_close_frame = 5\<rparr>, \<lparr>d_frames = 5, d_packets = 8, d_established = 8, d_closed = 8, d_last_packet_frame = 5, d_last_close_frame = 5\<rparr>])"
  using client_fixture_measures [OF list_mpsc_laws list_room_laws, of 3 2 4 True OnlyPackets demo_tokens record_drop list_mpsc
      "handle_new 1200 None" 0 "(0, [])" "[\<lambda>_ _. 0, \<lambda>_ _. 9]"]
    client_fixture_measures [OF list_mpsc_laws list_room_laws, of 5 8 1 False Interleaved demo_tokens record_drop list_mpsc
      "handle_new 1200 None" 0 "(0, [])" "[\<lambda>_ _. 0, \<lambda>_ _. 9]"]
  by (simp add: demo_tokens_laws demo_new_token_laws max_permits_def usize_max_def ceil_div_def del: measure_rounds.simps)

end
