(* ===== verification/Bench_Server.thy ===== *)
theory Bench_Server
  imports Bench_Fixtures
begin

text \<open>
  The server fixture of \<^verbatim>\<open>src/benches/utils/server.rs\<close>, over a stream transport: how it is built, a round of
  messages, and the frames that deliver them.
\<close>

section \<open>The fixture\<close>

record ('inc, 'c, 'k, 'ts) ServerFixture =
  sf_world :: "(bench_packet, 'c, unit, 'k, 'ts, (bench_packet, unit, unit) server_event) endpoint_world"
  sf_incoming :: 'inc
  sf_connections :: "ConnectionId list"
  sf_settings :: NetworkQueueSettings
  sf_scenario :: Scenario
  sf_packets_per_connection :: usize
  sf_counts :: Delivery

fun server_observe :: "(bench_packet, unit, unit) server_event \<Rightarrow> Delivery \<Rightarrow> Delivery" where
  "server_observe (NewConnectionEvent _ _) d = observe Establishing d"
| "server_observe (SPacketEvent _) d = observe Packeting d"
| "server_observe (SDisconnectionEvent _ _) d = observe Closing d"

text \<open>\<open>app.update()\<close>: the receive system with its observers.\<close>

definition server_app_update ::
  "((bench_packet, unit, unit) server_message, 'inc) mpsc \<Rightarrow> ('inc, 'c, 'k, 'ts) ServerFixture \<Rightarrow> ('inc, 'c, 'k, 'ts) ServerFixture"
where
  "server_app_update MI f =
     (case server_incoming_system MI None (Some (sf_settings f)) (sf_incoming f) (sf_world f) of
        (rx, w) \<Rightarrow>
          f\<lparr>sf_world := w, sf_incoming := rx,
            sf_counts := fold server_observe (drop (length (triggered (sf_world f))) (triggered w)) (sf_counts f)\<rparr>)"

definition server_send_message ::
  "((bench_packet, unit, unit) server_message, 'inc) mpsc \<Rightarrow> (bench_packet, unit, unit) server_message
     \<Rightarrow> ('inc, 'c, 'k, 'ts) ServerFixture \<Rightarrow> ('inc, 'c, 'k, 'ts) ServerFixture option"
where
  "server_send_message MI m f =
     (case mpsc_try_send MI m (sf_incoming f) of (Inr _, c) \<Rightarrow> Some (f\<lparr>sf_incoming := c\<rparr>) | (Inl _, _) \<Rightarrow> None)"

definition server_establish ::
  "((bench_packet, unit, unit) server_message, 'inc) mpsc \<Rightarrow> ConnectionId
     \<Rightarrow> ('inc, 'c, 'k, 'ts) ServerFixture \<Rightarrow> ('inc, 'c, 'k, 'ts) ServerFixture option"
where
  "server_establish MI i = server_send_message MI (SEstablished bench_peer i)"

definition server_fixture_new ::
  "('k, 'ts) tokens \<Rightarrow> ((bench_packet, unit, unit) server_message, 'inc) mpsc \<Rightarrow> (bench_packet, 'c) mpsc \<Rightarrow> usize \<Rightarrow> 'ts
     \<Rightarrow> usize \<Rightarrow> usize \<Rightarrow> usize \<Rightarrow> Scenario \<Rightarrow> ('inc, 'c, 'k, 'ts) ServerFixture option"
where
  "server_fixture_new T MI MO counter ts budget npeers packets_per_connection scenario =
     (if \<not> (0 < budget \<and> 0 < npeers \<and> 0 < packets_per_connection) then None
      else
        let qs = bench_settings budget npeers packets_per_connection;
            f0 = \<lparr>sf_world = \<lparr>conns = Map.empty, registry = [], current = None, world_tokens = ts, triggered = []\<rparr>,
                  sf_incoming = incoming_channel MI qs, sf_connections = [], sf_settings = qs, sf_scenario = scenario,
                  sf_packets_per_connection = packets_per_connection, sf_counts = Delivery_default\<rparr>;
            f1 = server_app_update MI f0
        in case bench_connections T MO qs False () npeers counter (sf_world f1) of
             (is, _, w) \<Rightarrow>
               (let f2 = f1\<lparr>sf_world := w, sf_connections := is\<rparr> in
                if scenario = OnlyPackets
                then (case foldM (server_establish MI) is f2 of
                        None \<Rightarrow> None
                      | Some f3 \<Rightarrow> update_until (server_app_update MI) sf_counts npeers f3)
                else Some f2))"

text \<open>\<open>enqueue\<close>; \<open>clock\<close> gives the instants at which the packets are made.\<close>

definition server_enqueue_packet ::
  "((bench_packet, unit, unit) server_message, 'inc) mpsc \<Rightarrow> bench_clock \<Rightarrow> ConnectionId \<Rightarrow> nat
     \<Rightarrow> ('inc, 'c, 'k, 'ts) ServerFixture \<Rightarrow> ('inc, 'c, 'k, 'ts) ServerFixture option"
where
  "server_enqueue_packet MI clock i packet =
     server_send_message MI (SStreamPacket \<lparr>pe_connection = i, pe_packet = of_nat packet, pe_received_at = clock i packet\<rparr>)"

definition server_enqueue_connection ::
  "((bench_packet, unit, unit) server_message, 'inc) mpsc \<Rightarrow> bench_clock \<Rightarrow> ConnectionId
     \<Rightarrow> ('inc, 'c, 'k, 'ts) ServerFixture \<Rightarrow> ('inc, 'c, 'k, 'ts) ServerFixture option"
where
  "server_enqueue_connection MI clock i f =
     (case (if sf_scenario f = Interleaved then server_establish MI i f else Some f) of
        None \<Rightarrow> None
      | Some f1 \<Rightarrow>
          (case foldM (server_enqueue_packet MI clock i) [0 ..< sf_packets_per_connection f1] f1 of
             None \<Rightarrow> None
           | Some f2 \<Rightarrow>
               if sf_scenario f2 = Interleaved then server_send_message MI (SClosed IntentionalDisconnection i) f2
               else Some f2))"

definition server_reset :: "('inc, 'c, 'k, 'ts) ServerFixture \<Rightarrow> ('inc, 'c, 'k, 'ts) ServerFixture" where
  "server_reset f = f\<lparr>sf_counts := Delivery_default\<rparr>"

definition server_enqueue ::
  "((bench_packet, unit, unit) server_message, 'inc) mpsc \<Rightarrow> bench_clock
     \<Rightarrow> ('inc, 'c, 'k, 'ts) ServerFixture \<Rightarrow> ('inc, 'c, 'k, 'ts) ServerFixture option"
where
  "server_enqueue MI clock f = foldM (server_enqueue_connection MI clock) (sf_connections f) (server_reset f)"

text \<open>\<open>drain\<close>: a frame counts itself and updates the app.\<close>

definition server_bump :: "('inc, 'c, 'k, 'ts) ServerFixture \<Rightarrow> ('inc, 'c, 'k, 'ts) ServerFixture" where
  "server_bump f = f\<lparr>sf_counts := count_frame (sf_counts f)\<rparr>"

definition server_drain ::
  "((bench_packet, unit, unit) server_message, 'inc) mpsc
     \<Rightarrow> ('inc, 'c, 'k, 'ts) ServerFixture \<Rightarrow> (Delivery \<times> ('inc, 'c, 'k, 'ts) ServerFixture) option"
where
  "server_drain MI f =
     (let expected_packets = usize_mul (length (sf_connections f)) (sf_packets_per_connection f);
          expected_closed = (if sf_scenario f = Interleaved then length (sf_connections f) else 0)
      in drain_loop (\<lambda>f. server_app_update MI (server_bump f)) sf_counts (\<lambda>f. d_packets (sf_counts f))
           expected_packets expected_closed
           (usize_add (usize_add expected_packets (usize_mul (length (sf_connections f)) 2)) 2) f)"

section \<open>Frames\<close>

fun server_kind :: "('p, 'd, 'l) server_message \<Rightarrow> event_kind" where
  "server_kind (SStreamPacket _) = Packeting"
| "server_kind (SEstablished _ _) = Establishing"
| "server_kind (SClosed _ _) = Closing"

lemma server_observe_messages: "fold server_observe (map server_event_of ms) d = fold observe (map server_kind ms) d"
proof (induction ms arbitrary: d)
  case (Cons m ms)
  then show ?case by (cases m) simp_all
qed simp

definition server_static :: "('inc, 'c, 'k, 'ts) ServerFixture \<Rightarrow> fixture_params" where
  "server_static f = (sf_connections f, sf_settings f, sf_scenario f, sf_packets_per_connection f)"

definition server_ready ::
  "((bench_packet, unit, unit) server_message, 'inc) mpsc \<Rightarrow> ('inc \<Rightarrow> (bench_packet, unit, unit) server_message list)
     \<Rightarrow> fixture_params \<Rightarrow> ('inc, 'c, 'k, 'ts) ServerFixture \<Rightarrow> bool"
where
  "server_ready MI pend st f \<longleftrightarrow>
     mpsc_laws MI pend \<and> room_laws MI pend \<and> server_static f = st
     \<and> open_with MI (max (receive_capacity (fst (snd st))) 1) (sf_incoming f)"

lemma server_update:
  assumes "server_ready MI pend st f"
  shows "server_ready MI pend st (server_app_update MI f)
     \<and> pend (sf_incoming (server_app_update MI f)) = drop (events_per_frame (fst (snd st))) (pend (sf_incoming f))
     \<and> sf_counts (server_app_update MI f)
         = fold observe (map server_kind (take (events_per_frame (fst (snd st))) (pend (sf_incoming f)))) (sf_counts f)"
proof -
  let ?b = "events_per_frame (fst (snd st))" and ?ms = "pend (sf_incoming f)"
  have laws: "mpsc_laws MI pend" "room_laws MI pend" and st: "server_static f = st" "sf_settings f = fst (snd st)"
    and ow: "open_with MI (max (receive_capacity (fst (snd st))) 1) (sf_incoming f)"
    using assms by (auto simp: server_ready_def server_static_def)
  obtain rx where rx: "drain_messages MI ?b (sf_incoming f) = (take ?b ?ms, rx)" "pend rx = drop ?b ?ms"
    using drain_messages_fifo [OF laws(1)] by blast
  have u: "server_app_update MI f =
      f\<lparr>sf_world := fold server_apply (take ?b ?ms) (sf_world f), sf_incoming := rx,
        sf_counts := fold observe (map server_kind (take ?b ?ms)) (sf_counts f)\<rparr>"
    by (simp add: server_app_update_def server_incoming_system_def st(2) rx(1) server_fold_triggered server_observe_messages)
  show ?thesis
    using laws st drain_messages_open [OF laws(2) rx(1) ow] rx(2) by (simp add: u server_ready_def server_static_def)
qed

lemma server_ready_bump [simp]: "server_ready MI pend st (server_bump f) = server_ready MI pend st f"
  by (simp add: server_bump_def server_ready_def server_static_def)

lemma server_ready_reset [simp]: "server_ready MI pend st (server_reset f) = server_ready MI pend st f"
  by (simp add: server_reset_def server_ready_def server_static_def)

interpretation server_fixture: fixture "server_app_update MI" server_bump server_reset sf_counts
    "\<lambda>f. d_packets (sf_counts f)" "\<lambda>f. map server_kind (pend (sf_incoming f))" "events_per_frame (fst (snd st))"
    "max (receive_capacity (fst (snd st))) 1" "server_ready MI pend st"
  for MI pend st
  by unfold_locales (simp_all add: server_update take_map drop_map, simp_all add: server_bump_def server_reset_def)

section \<open>A round of messages\<close>

abbreviation server_appends where
  "server_appends MI pend st \<equiv>
     appends (server_ready MI pend st) (\<lambda>f. map server_kind (pend (sf_incoming f))) sf_counts
       (max (receive_capacity (fst (snd st))) 1)"

lemma server_send_appends: "server_appends MI pend st (server_send_message MI m) [server_kind m]"
  unfolding appends_def
proof (intro allI impI, elim conjE)
  fix f assume f: "server_ready MI pend st f"
    and "length (map server_kind (pend (sf_incoming f))) + length [server_kind m] \<le> max (receive_capacity (fst (snd st))) 1"
  then have "room_laws MI pend" "open_with MI (max (receive_capacity (fst (snd st))) 1) (sf_incoming f)"
    "length (pend (sf_incoming f)) < max (receive_capacity (fst (snd st))) 1"
    by (simp_all add: server_ready_def)
  then obtain c where "mpsc_try_send MI m (sf_incoming f) = (Inr (), c)" "pend c = pend (sf_incoming f) @ [m]"
      "open_with MI (max (receive_capacity (fst (snd st))) 1) c"
    by (rule room_send)
  with f show "\<exists>f'. server_send_message MI m f = Some f' \<and> server_ready MI pend st f'
      \<and> map server_kind (pend (sf_incoming f')) = map server_kind (pend (sf_incoming f)) @ [server_kind m] \<and> sf_counts f' = sf_counts f"
    by (simp add: server_send_message_def server_ready_def server_static_def)
qed

lemma server_establish_appends: "server_appends MI pend st (server_establish MI i) [Establishing]"
  unfolding server_establish_def by (rule server_send_appends [where m = "SEstablished bench_peer i", unfolded server_kind.simps])

lemmas server_close_appends = server_send_appends
  [where m = "SClosed IntentionalDisconnection i" for i, unfolded server_kind.simps]

lemma server_packets_append:
  "server_appends MI pend st (foldM (server_enqueue_packet MI clock i) [0 ..< n]) (replicate n Packeting)"
  unfolding only_packets server_enqueue_packet_def
  by (rule appends_foldM) (rule server_send_appends [where m = "SStreamPacket pe" for pe, unfolded server_kind.simps])

lemma server_connection_appends:
  assumes "snd (snd st) = (sc, n)"
  shows "server_appends MI pend st (server_enqueue_connection MI clock i) (connection_events sc n)"
  unfolding server_enqueue_connection_def [abs_def]
  by (rule connection_appends, rule server_establish_appends, rule server_packets_append, rule server_close_appends)
    (use assms in \<open>auto simp: server_ready_def server_static_def\<close>)

section \<open>What a benchmark of the server measures\<close>

lemma server_establish_all:
  "server_appends MI pend st (foldM (server_establish MI) is) (replicate (length is) Establishing)"
proof -
  have "replicate (length is) Establishing = concat (replicate (length is) [Establishing])"
    by (simp add: concat_replicate_single)
  then show ?thesis by (simp only:) (rule appends_foldM, rule server_establish_appends)
qed

lemma server_built:
  fixes MO :: "(bench_packet, 'c) mpsc" and T :: "('k, 'ts) tokens" and MI :: "((bench_packet, unit, unit) server_message, 'inc) mpsc"
  assumes laws: "mpsc_laws MI pend" "room_laws MI pend"
    and pos: "0 < budget" "0 < npeers" "0 < n" and fit: "npeers * (n + 2) \<le> max_permits"
  shows "\<exists>is f. server_fixture_new T MI MO counter ts budget npeers n sc = Some f \<and> length is = npeers
     \<and> server_ready MI pend (is, bench_settings budget npeers n, sc, n) f \<and> pend (sf_incoming f) = []"
proof -
  let ?qs = "bench_settings budget npeers n"
  let ?f0 = "\<lparr>sf_world = \<lparr>conns = Map.empty, registry = [], current = None, world_tokens = ts, triggered = []\<rparr>,
      sf_incoming = incoming_channel MI ?qs, sf_connections = [], sf_settings = ?qs, sf_scenario = sc,
      sf_packets_per_connection = n, sf_counts = Delivery_default\<rparr> :: ('inc, 'c, 'k, 'ts) ServerFixture"
  let ?f1 = "server_app_update MI ?f0"
  note cap = bench_settings_exact [OF fit pos(2), of budget]
  have len: "npeers \<le> npeers * (n + 2)" by simp
  have "server_ready MI pend ([], ?qs, sc, n) ?f0" and e0: "pend (sf_incoming ?f0) = []"
    using room_channel [OF laws(2), of "npeers * (n + 2)"] fit laws pos
    by (simp_all add: server_ready_def server_static_def incoming_channel_def cap max_def)
  note u = server_update [OF this(1)]
  obtain "is" c w where bc: "bench_connections T MO ?qs False () npeers counter (sf_world ?f1) = (is, c, w)"
    by (metis prod_cases3)
  let ?f2 = "?f1\<lparr>sf_world := w, sf_connections := is\<rparr>" and ?st = "(is, ?qs, sc, n)"
  have f2: "server_ready MI pend ?st ?f2" "pend (sf_incoming ?f2) = []" "sf_counts ?f2 = Delivery_default"
    using u e0 by (auto simp: server_ready_def server_static_def)
  have l: "length is = npeers" using bench_connections_length [OF bc] .
  have built: "server_fixture_new T MI MO counter ts budget npeers n sc =
      (if sc = OnlyPackets
       then (case foldM (server_establish MI) is ?f2 of
               None \<Rightarrow> None
             | Some f3 \<Rightarrow> update_until (server_app_update MI) sf_counts npeers f3)
       else Some ?f2)"
    using pos by (simp add: server_fixture_new_def Let_def bc)
  show ?thesis
  proof (cases sc)
    case OnlyPackets
    have "length (map server_kind (pend (sf_incoming ?f2))) + length (replicate (length is) Establishing)
        \<le> max (receive_capacity (fst (snd ?st))) 1"
      using len l unfolding f2(2) by (simp add: cap)
    from appendsD [OF server_establish_all f2(1) this] obtain f3
      where f3: "foldM (server_establish MI) is ?f2 = Some f3" "server_ready MI pend ?st f3"
      and p3: "map server_kind (pend (sf_incoming f3)) = replicate npeers Establishing" and c3: "sf_counts f3 = Delivery_default"
      unfolding f2(2,3) l by auto
    have "npeers \<le> usize_max" using fit len by (simp add: max_permits_def)
    moreover have "d_established (sf_counts f3) + npeers = npeers" using c3 by (simp add: Delivery_default_def)
    moreover have "0 < events_per_frame (fst (snd ?st))" using pos(1) by (simp add: cap)
    ultimately obtain f4 where "update_until (server_app_update MI) sf_counts npeers f3 = Some f4"
        "server_ready MI pend ?st f4" "pend (sf_incoming f4) = []"
      using server_fixture.establish_all [OF _ f3(2) p3] by auto
    moreover from this(1) have "server_fixture_new T MI MO counter ts budget npeers n sc = Some f4"
      unfolding built f3(1) by (simp add: OnlyPackets)
    ultimately show ?thesis using l by blast
  next
    case Interleaved
    have "server_fixture_new T MI MO counter ts budget npeers n sc = Some ?f2"
      unfolding built using Interleaved by simp
    then show ?thesis using l f2(1,2) by blast
  qed
qed

lemma server_drain_eq:
  assumes "server_static f = (is, qs, sc, n)" "length is * (n + 2) \<le> max_permits"
  shows "server_drain MI f = drain_loop (\<lambda>f. server_app_update MI (server_bump f)) sf_counts (\<lambda>f. d_packets (sf_counts f))
     (length is * n) (if sc = Interleaved then length is else 0) (length is * n + length is * 2 + 2) f"
proof -
  have "length is * n + length is * 2 + 2 \<le> usize_max" using assms(2) by (simp add: max_permits_def usize_max_def)
  then show ?thesis
    using assms(1) by (simp add: server_drain_def server_static_def usize_mul_exact usize_add_exact Let_def)
qed

lemma server_rounds:
  assumes r: "server_ready MI pend (is, bench_settings b (length is) n, sc, n) f" and p: "pend (sf_incoming f) = []"
    and pos: "0 < b" "0 < length is" "0 < n" and fit: "length is * (n + 2) \<le> max_permits"
  shows "measure_rounds (server_enqueue MI) (server_drain MI) clocks f
     = Some (replicate (length clocks) (expected_delivery sc b (length is) n))"
proof -
  let ?st = "(is, bench_settings b (length is) n, sc, n)"
  note cap = bench_settings_exact [OF fit pos(2), of b]
  have "length (round_events sc (length is) n) \<le> length is * (n + 2)" by (cases sc) (simp_all add: round_events_counts)
  then have 1: "length (round_events sc (length is) n) \<le> max (receive_capacity (fst (snd ?st))) 1" by (simp add: cap)
  have 2: "server_enqueue MI c s = foldM (server_enqueue_connection MI c) is (server_reset s)"
    if "server_ready MI pend ?st s" for c s
    using that by (simp add: server_enqueue_def server_ready_def server_static_def)
  have 3: "server_appends MI pend ?st (foldM (server_enqueue_connection MI c) is) (round_events sc (length is) n)" for c
    unfolding round_events_def by (rule appends_foldM) (rule server_connection_appends, simp)
  have 4: "server_drain MI s = drain_loop (\<lambda>f. server_app_update MI (server_bump f)) sf_counts (\<lambda>f. d_packets (sf_counts f))
      (length is * n) (if sc = Interleaved then length is else 0) (length is * n + length is * 2 + 2) s"
    if "server_ready MI pend ?st s" for s
    by (rule server_drain_eq [OF _ fit]) (use that in \<open>simp add: server_ready_def\<close>)
  have "0 < events_per_frame (fst (snd ?st))" using pos(1) by (simp add: cap)
  from server_fixture.rounds_measure [OF this pos(2,3) 1 fit 2 3 4 r] p show ?thesis by (simp add: cap)
qed

text \<open>
  A benchmark of the server cannot fail and measures what the client's does with the same parameters.
\<close>

theorem server_fixture_measures:
  assumes laws: "mpsc_laws MI pend" "room_laws MI pend"
    and pos: "0 < budget" "0 < npeers" "0 < n" and fit: "npeers * (n + 2) \<le> max_permits"
  shows "\<exists>f. server_fixture_new T MI MO counter ts budget npeers n sc = Some f
     \<and> measure_rounds (server_enqueue MI) (server_drain MI) clocks f
         = Some (replicate (length clocks) (expected_delivery sc budget npeers n))"
proof -
  obtain "is" f where f: "server_fixture_new T MI MO counter ts budget npeers n sc = Some f"
    and l: "length is = npeers" and r: "server_ready MI pend (is, bench_settings budget npeers n, sc, n) f"
    and p: "pend (sf_incoming f) = []"
    using server_built [where T = T and MO = MO and counter = counter and ts = ts and sc = sc, OF laws pos fit] by (elim exE conjE)
  have *: "0 < length is" "length is * (n + 2) \<le> max_permits" using pos(2) fit l by simp_all
  have "measure_rounds (server_enqueue MI) (server_drain MI) clocks f
      = Some (replicate (length clocks) (expected_delivery sc budget (length is) n))"
    by (rule server_rounds [where pend = pend, OF _ p pos(1) *(1) pos(3) *(2)]) (use r l in simp)
  then show ?thesis using f by (simp add: l)
qed

end
