(* ===== verification/Bench_Udp.thy ===== *)
theory Bench_Udp
  imports Bench_Fixtures Datagram_Delivery
begin

text \<open>
  The raw UDP fixture of \<^verbatim>\<open>src/benches/utils/udp.rs\<close>: one registered peer of a listener whose read half is driven by
  hand. A failed \<open>unwrap\<close> or assertion, and a \<open>block_on\<close> that would wait for ever, is \<open>None\<close>. The read half and
  the peer share the raw queue and the handle, which live in the listener's entry.
\<close>

section \<open>The fixture\<close>

text \<open>\<open>LengthCodec\<close>: a packet is the length of its datagram.\<close>

definition LengthCodec :: "(usize, usize, unit, unit, unit) Serializer" where
  "LengthCodec = \<lparr>ser_serialize = (\<lambda>_ z. (Inr [], z)), ser_deserialize = (\<lambda>bs z. (Inr (length bs), z))\<rparr>"

record ('k, 'ts, 'sm) RawPeer =
  rp_listener :: "('k, 'ts, 'sm) UdpNetworkListener"
  rp_read :: Incoming
  rp_write :: UdpWriteHalf
  rp_address :: SocketAddr
  rp_limits :: ReceiveLimits

definition raw_receive ::
  "('k, 'ts) tokens \<Rightarrow> ('k, 'ts, 'sm) RawPeer \<Rightarrow> (usize \<times> ('k, 'ts, 'sm) RawPeer) option"
where
  "raw_receive T p =
     (case rp_read p of
        IncomingSocket \<Rightarrow> None
      | IncomingQueue reg \<Rightarrow>
          (let w = rp_listener p; i = reg_state reg; e = entries w ! i in
           case (udp_receive queue_next (peer_is_closed T i w) False LengthCodec (rp_limits p) (peer_queue e)
                   (ps_handle (peer_state e)) ()
                 :: (((unit, unit) ReceiveError + usize \<times> instant) poll \<times> bool \<times> QueuedDatagram Shared \<times> UdpConnectionHandle \<times> unit) option) of
             Some (Ready (Inr (n, _)), _, q, h, _) \<Rightarrow>
               Some (n, p\<lparr>rp_listener := upd_entry i (\<lambda>e. e\<lparr>peer_queue := q,
                               peer_state := (peer_state e)\<lparr>ps_handle := h\<rparr>\<rparr>) w\<rparr>)
           | _ \<Rightarrow> None))"

text \<open>\<open>RawPeer::new\<close>; \<open>bound\<close> is the outcome of the bind and \<open>at\<close> the time of the first datagram.\<close>

definition raw_peer_new ::
  "('k, 'ts) tokens \<Rightarrow> 'sm semaphore \<Rightarrow> 'ts \<Rightarrow> io_error + (io_error + SocketAddr) \<times> (io_error + SocketAddr) \<Rightarrow> instant
     \<Rightarrow> ('k, 'ts, 'sm) RawPeer option"
where
  "raw_peer_new T Sm ts bound at =
     (case listener_bind max_permits Sm ts bound default_udp_options of
        Inl _ \<Rightarrow> None
      | Inr w \<Rightarrow>
          (let address = V4 2130706433 1234 in
           case dispatch T Sm [] address at w of
             (None, _) \<Rightarrow> None
           | (Some reg, w') \<Rightarrow>
               (case server_into_split (map_option unat (rate (ps_handle (peer_state (entries w' ! reg_state reg)))))
                       (listener_options w') (server_stream_accepted reg address (listener_addr w')) of
                  (read, write) \<Rightarrow>
                    (case raw_receive T \<lparr>rp_listener = w', rp_read = read, rp_write = write, rp_address = address,
                                        rp_limits = default_limits\<rparr> of
                       None \<Rightarrow> None
                     | Some (n, p) \<Rightarrow> if n = 0 then Some p else None))))"

definition raw_roundtrip ::
  "('k, 'ts) tokens \<Rightarrow> 'sm semaphore \<Rightarrow> byte list \<times> instant \<Rightarrow> ('k, 'ts, 'sm) RawPeer \<Rightarrow> (usize \<times> ('k, 'ts, 'sm) RawPeer) option"
where
  "raw_roundtrip T Sm d p =
     (case dispatch T Sm (fst d) (rp_address p) (snd d) (rp_listener p) of
        (Some _, _) \<Rightarrow> None
      | (None, w) \<Rightarrow> raw_receive T (p\<lparr>rp_listener := w\<rparr>))"

text \<open>A dropped \<open>UdpServerStream\<close> drops its registration, then its receiver.\<close>

definition drop_server_stream ::
  "('k, 'ts) tokens \<Rightarrow> 'sm semaphore \<Rightarrow> PeerRegistration \<Rightarrow> ('k, 'ts, 'sm) UdpNetworkListener \<Rightarrow> ('k, 'ts, 'sm) UdpNetworkListener"
where
  "drop_server_stream T Sm reg w = upd_entry (reg_state reg) tracked_drop (registration_drop T Sm reg w)"

definition raw_create_and_drop_peer ::
  "('k, 'ts) tokens \<Rightarrow> 'sm semaphore \<Rightarrow> byte list \<times> instant \<Rightarrow> ('k, 'ts, 'sm) RawPeer \<Rightarrow> ('k, 'ts, 'sm) RawPeer option"
where
  "raw_create_and_drop_peer T Sm d p =
     (case dispatch T Sm (fst d) (V4 2130706433 1235) (snd d) (rp_listener p) of
        (None, _) \<Rightarrow> None
      | (Some reg, w) \<Rightarrow> Some (p\<lparr>rp_listener := drop_server_stream T Sm reg w\<rparr>))"

text \<open>A benchmark repeats one of the two.\<close>

fun raw_roundtrips ::
  "('k, 'ts) tokens \<Rightarrow> 'sm semaphore \<Rightarrow> (byte list \<times> instant) list \<Rightarrow> ('k, 'ts, 'sm) RawPeer \<Rightarrow> usize list option"
where
  "raw_roundtrips T Sm [] p = Some []"
| "raw_roundtrips T Sm (d # ds) p =
     (case raw_roundtrip T Sm d p of
        None \<Rightarrow> None
      | Some (n, p') \<Rightarrow> map_option ((#) n) (raw_roundtrips T Sm ds p'))"

section \<open>Admitting a peer\<close>

lemma dispatch_admits:
  assumes laws: "sem_laws Sm avail" and inv: "listener_inv avail w live" and few: "length live < 1024"
    and o: "options (listener_options w) = default_udp_options" and new: "map_of (peers w) addr = None"
    and len: "length bs \<le> MAX_DATAGRAM_SIZE"
  obtains sm st ts where "peer_state_new T (listener_options w) (tokens_state w) = (st, ts)"
    "dispatch T Sm bs addr at w = (Some (PeerRegistration addr (length (entries w))),
       w\<lparr>slots := sm, tokens_state := ts,
         entries := entries w @ [received_datagram (length bs) \<lparr>peer_state = st, peer_queue =
           \<lparr>state = \<lparr>items = [(\<lparr>qd_bytes = bs, qd_received_at = at\<rparr>, length bs)], bytes = length bs, senders = 1, receiver_open = True\<rparr>,
            max_items = 1024, max_bytes = 2 ^ 20, policy = DropNewest\<rparr>\<rparr>],
         peers := AList.update addr (length (entries w)) (peers w)\<rparr>)"
proof -
  obtain b sm where sm: "sem_try_acquire Sm (slots w) = (b, sm)" by fastforce
  have "0 < avail (slots w)" using inv few by (simp add: listener_inv_def o default_udp_options_def)
  then have b: b using sem_acquire [OF laws sm] by (auto split: if_splits)
  obtain st ts where st: "peer_state_new T (listener_options w) (tokens_state w) = (st, ts)" by fastforce
  have l: "length bs \<le> 2 ^ 20" using len by (simp add: MAX_DATAGRAM_SIZE_def)
  have t: "try_send \<lparr>qd_bytes = bs, qd_received_at = at\<rparr> (length bs) (lossy_channel 1024 (2 ^ 20) DropNewest)
      = (Inr [], \<lparr>state = \<lparr>items = [(\<lparr>qd_bytes = bs, qd_received_at = at\<rparr>, length bs)], bytes = length bs, senders = 1, receiver_open = True\<rparr>,
            max_items = 1024, max_bytes = 2 ^ 20, policy = DropNewest\<rparr>, [Changed_notify_one])"
    by (rule try_send_fresh) (use l in \<open>simp_all add: usize_max_def\<close>)
  show thesis
    by (rule that [OF st]) (use new len b sm st l t in \<open>simp add: dispatch_def dispatch_new_def o default_udp_options_def drop_peer_at_def Let_def\<close>)
qed

section \<open>Receiving\<close>

text \<open>The fixture between two operations: its peer is open, routed under its address, and its queue is empty.\<close>

definition raw_ready ::
  "('k, 'ts) tokens \<Rightarrow> ('sm \<Rightarrow> nat) \<Rightarrow> nat \<Rightarrow> ('k, 'ts, 'sm) RawPeer \<Rightarrow> bool"
where
  "raw_ready T avail i p \<longleftrightarrow>
     (let w = rp_listener p in
      rp_read p = IncomingQueue (PeerRegistration (V4 2130706433 1234) i) \<and> rp_limits p = default_limits
      \<and> rp_address p = V4 2130706433 1234 \<and> alive w \<and> options (listener_options w) = default_udp_options
      \<and> listener_inv avail w [PeerRegistration (V4 2130706433 1234) i] \<and> map_of (peers w) (V4 2130706433 1234) = Some i
      \<and> \<not> peer_is_closed T i w \<and> items (state (peer_queue (entries w ! i))) = [] \<and> receiver_open (state (peer_queue (entries w ! i)))
      \<and> policy (peer_queue (entries w ! i)) = DropNewest)"

lemma raw_receive_one:
  assumes "rp_read p = IncomingQueue (PeerRegistration a i)" "rp_limits p = default_limits" "\<not> peer_is_closed T i (rp_listener p)"
    and "peer_queue (entries (rp_listener p) ! i) = q" "items (state q) = [(\<lparr>qd_bytes = bs, qd_received_at = at\<rparr>, length bs)]"
    and "length bs \<le> MAX_DATAGRAM_SIZE" "bytes (state q) = length bs"
  shows "raw_receive T p = Some (length bs, p\<lparr>rp_listener := upd_entry i (\<lambda>e. e\<lparr>peer_queue :=
      q\<lparr>state := (state q)\<lparr>items := [], bytes := 0\<rparr>\<rparr>, peer_state := (peer_state e)
        \<lparr>ps_handle := ps_handle (peer_state (entries (rp_listener p) ! i))\<rparr>\<rparr>) (rp_listener p)\<rparr>)"
proof -
  have n: "queue_next q = (Ready (Inr (bs, at)), q\<lparr>state := (state q)\<lparr>items := [], bytes := 0\<rparr>\<rparr>)"
    using assms(5,7) by (simp add: queue_next_def recv_poll_def try_recv_def try_recv_if_form)
  have "length bs \<le> usize_max" using assms(6) by (simp add: MAX_DATAGRAM_SIZE_def usize_max_def)
  then have "max_packet_size default_limits \<ge> length bs" by (simp add: default_limits_def max_packet_size_def limits_new_def)
  then show ?thesis
    using assms n by (simp add: raw_receive_def Let_def udp_receive.simps LengthCodec_def)
qed

text \<open>A peer that has received its only datagram is ready again.\<close>

lemma raw_ready_received:
  fixes p :: "('k, 'ts, 'sm) RawPeer"
  assumes p: "rp_read p = IncomingQueue (PeerRegistration (V4 2130706433 1234) i)" "rp_limits p = default_limits"
      "rp_address p = V4 2130706433 1234" "alive (rp_listener p)" "options (listener_options (rp_listener p)) = default_udp_options"
      "map_of (peers (rp_listener p)) (V4 2130706433 1234) = Some i" "\<not> peer_is_closed T i (rp_listener p)"
    and inv: "listener_inv avail (rp_listener p) [PeerRegistration (V4 2130706433 1234) i]"
    and q: "peer_queue (entries (rp_listener p) ! i) = q" "items (state q) = [(\<lparr>qd_bytes = bs, qd_received_at = at\<rparr>, length bs)]"
      "bytes (state q) = length bs" "receiver_open (state q)" "policy q = DropNewest"
    and len: "length bs \<le> MAX_DATAGRAM_SIZE"
  shows "\<exists>p'. raw_receive T p = Some (length bs, p') \<and> raw_ready T avail i p'"
proof -
  let ?w = "rp_listener p" and ?q = "q\<lparr>state := (state q)\<lparr>items := [], bytes := 0\<rparr>\<rparr>"
  let ?f = "\<lambda>e :: 'k Peer. e\<lparr>peer_queue := ?q, peer_state := (peer_state e)\<lparr>ps_handle := ps_handle (peer_state (entries ?w ! i))\<rparr>\<rparr>"
  have i: "i < length (entries ?w)" using inv by (simp add: listener_inv_def)
  then have "entry_ok (listener_options ?w) (entries ?w ! i)" using inv by (simp add: listener_inv_def entries_ok_def)
  then have "entry_ok (listener_options ?w) (?f e)" for e
    using q(1) by (auto simp: entry_ok_def lossy_wf_def)
  then have inv': "listener_inv avail (upd_entry i ?f ?w) [PeerRegistration (V4 2130706433 1234) i]"
    by (intro listener_inv_upd [OF inv])
  have e: "entries (upd_entry i ?f ?w) ! i = ?f (entries ?w ! i)" using i by (simp add: upd_entry_def)
  have "raw_ready T avail i (p\<lparr>rp_listener := upd_entry i ?f ?w\<rparr>)"
    using p q(4,5) inv' e by (simp add: raw_ready_def Let_def peer_is_closed_def)
  then show ?thesis using raw_receive_one [OF p(1,2,7) q(1,2) len q(3)] by blast
qed

lemma raw_roundtrip_ready:
  assumes laws: "sem_laws Sm avail" and r: "raw_ready T avail i p" and len: "length (fst d) \<le> MAX_DATAGRAM_SIZE"
  shows "\<exists>p'. raw_roundtrip T Sm d p = Some (length (fst d), p') \<and> raw_ready T avail i p'"
proof -
  obtain bs at where d: "d = (bs, at)" by fastforce
  let ?w = "rp_listener p" and ?a = "V4 2130706433 1234"
  have p: "rp_read p = IncomingQueue (PeerRegistration ?a i)" "rp_limits p = default_limits"
      "rp_address p = ?a" "alive ?w" "options (listener_options ?w) = default_udp_options"
      "map_of (peers ?w) ?a = Some i" "\<not> peer_is_closed T i ?w"
    and inv: "listener_inv avail ?w [PeerRegistration ?a i]"
    and q: "items (state (peer_queue (entries ?w ! i))) = []" "receiver_open (state (peer_queue (entries ?w ! i)))"
      "policy (peer_queue (entries ?w ! i)) = DropNewest"
    using r by (simp_all add: raw_ready_def Let_def)
  have i: "i < length (entries ?w)" using inv by (simp add: listener_inv_def)
  then have "entry_ok (listener_options ?w) (entries ?w ! i)" using inv by (simp add: listener_inv_def entries_ok_def)
  then have lim: "bytes (state (peer_queue (entries ?w ! i))) = 0" "max_items (peer_queue (entries ?w ! i)) = 1024"
      "max_bytes (peer_queue (entries ?w ! i)) = 2 ^ 20"
    using q(1) p(5) by (simp_all add: entry_ok_def lossy_wf_def default_udp_options_def)
  define w where "w = upd_entry i (\<lambda>e. peer_push False bs at (received_datagram (length bs) e)) ?w"
  have disp: "dispatch T Sm bs ?a at ?w = (None, w)"
    using len p(6,7) by (simp add: dispatch_def d w_def)
  from dispatch_inv [OF laws inv p(4) disp] have inv': "listener_inv avail w [PeerRegistration ?a i]" by simp
  have "length bs \<le> usize_max" "length bs \<le> 2 ^ 20" using len by (simp_all add: d MAX_DATAGRAM_SIZE_def usize_max_def)
  then have t: "try_send \<lparr>qd_bytes = bs, qd_received_at = at\<rparr> (length bs) (peer_queue (entries ?w ! i))
      = (Inr [], (peer_queue (entries ?w ! i))\<lparr>state := (state (peer_queue (entries ?w ! i)))
          \<lparr>bytes := length bs, items := [(\<lparr>qd_bytes = bs, qd_received_at = at\<rparr>, length bs)]\<rparr>\<rparr>, [Changed_notify_one])"
    using q lim by (simp add: try_send_def try_send_where_def evict_oldest_def Let_def usize_add_exact)
  have e: "entries w ! i = peer_push False bs at (received_datagram (length bs) (entries ?w ! i))"
    using i by (simp add: w_def upd_entry_def)
  have "\<not> peer_is_closed T i w"
    using p(7) i by (simp add: peer_is_closed_def e peer_push_def t) (simp add: w_def received_datagram_def)
  then show ?thesis
    using raw_ready_received [of "p\<lparr>rp_listener := w\<rparr>" i T avail "peer_queue (entries w ! i)" bs at] p q inv' len disp
    by (simp add: raw_roundtrip_def d e peer_push_def t) (simp add: w_def)
qed

lemma raw_peer_ready:
  fixes T :: "('k, 'ts) tokens" and Sm :: "'sm semaphore"
  assumes laws: "sem_laws Sm avail" "token_laws T" and bound: "bound = Inr (Inl e, Inr local_address)"
  shows "\<exists>p. raw_peer_new T Sm ts bound at = Some p \<and> raw_ready T avail 0 p"
proof -
  let ?a = "V4 2130706433 1234"
  let ?w = "\<lparr>listener_addr = local_address, peers = [], entries = [], slots = sem_new Sm 1024,
      listener_options = ValidatedOptions default_udp_options, tokens_state = ts, alive = True\<rparr> :: ('k, 'ts, 'sm) UdpNetworkListener"
  have b: "listener_bind max_permits Sm ts bound default_udp_options = Inr ?w"
    by (simp add: listener_bind_def listener_from_socket_def validated_new_def bound max_payload_size_def default_udp_options_def
        MAX_DATAGRAM_SIZE_def max_permits_def usize_max_def)
  have inv: "listener_inv avail ?w []"
    using laws(1) by (simp add: listener_inv_def sem_laws_def entries_ok_def default_udp_options_def usize_max_def)
  have z: "length ([] :: byte list) \<le> MAX_DATAGRAM_SIZE" by simp
  obtain sm st ts' where st: "peer_state_new T (listener_options ?w) (tokens_state ?w) = (st, ts')"
    and d: "dispatch T Sm [] ?a at ?w = (Some (PeerRegistration ?a 0),
       ?w\<lparr>slots := sm, tokens_state := ts', entries := [received_datagram 0 \<lparr>peer_state = st, peer_queue =
           \<lparr>state = \<lparr>items = [(\<lparr>qd_bytes = [], qd_received_at = at\<rparr>, 0)], bytes = 0, senders = 1, receiver_open = True\<rparr>,
            max_items = 1024, max_bytes = 2 ^ 20, policy = DropNewest\<rparr>\<rparr>],
         peers := [(?a, 0)]\<rparr>)" (is "_ = (_, ?w')")
    by (rule dispatch_admits [OF laws(1) inv _ _ _ z, where addr = ?a and at = at and T = T]) simp_all
  from dispatch_inv [OF laws(1) inv _ d] have inv': "listener_inv avail ?w' [PeerRegistration ?a 0]" by simp
  have "\<not> tok_is_cancelled T ts' (ps_closed st)"
    using st laws(2) by (auto simp: peer_state_new_def token_laws_def split: prod.splits)
  then have opn: "\<not> peer_is_closed T 0 ?w'" by (simp add: peer_is_closed_def received_datagram_def)
  obtain read wr where split: "server_into_split (map_option unat (rate (ps_handle (peer_state (entries ?w' ! 0)))))
      (listener_options ?w') (server_stream_accepted (PeerRegistration ?a 0) ?a (listener_addr ?w')) = (read, wr)" by fastforce
  then have read: "read = IncomingQueue (PeerRegistration ?a 0)" by (auto simp: server_into_split_def server_stream_accepted_def)
  let ?p = "\<lparr>rp_listener = ?w', rp_read = read, rp_write = wr, rp_address = ?a, rp_limits = default_limits\<rparr>"
  have "\<exists>p'. raw_receive T ?p = Some (length ([] :: byte list), p') \<and> raw_ready T avail 0 p'"
    by (rule raw_ready_received [where q = "peer_queue (entries ?w' ! 0)" and at = at])
      (use inv' opn read in \<open>simp_all add: received_datagram_def\<close>)
  then show ?thesis using split by (auto simp: raw_peer_new_def b d)
qed

lemma raw_create_ready:
  assumes laws: "sem_laws Sm avail" and w: "listener_inv avail (rp_listener p) [PeerRegistration (V4 2130706433 1234) i]"
      "alive (rp_listener p)" "options (listener_options (rp_listener p)) = default_udp_options"
    and len: "length (fst d) \<le> MAX_DATAGRAM_SIZE"
  shows "\<exists>p'. raw_create_and_drop_peer T Sm d p = Some p'
     \<and> listener_inv avail (rp_listener p') [PeerRegistration (V4 2130706433 1234) i] \<and> alive (rp_listener p')
     \<and> options (listener_options (rp_listener p')) = default_udp_options"
proof -
  let ?w = "rp_listener p" and ?a = "V4 2130706433 1235" and ?live = "[PeerRegistration (V4 2130706433 1234) i]"
  have "map_of (peers ?w) ?a = None"
    using w(1) by (auto simp: listener_inv_def map_of_eq_None_iff)
  then obtain w' where d: "dispatch T Sm (fst d) ?a (snd d) ?w = (Some (PeerRegistration ?a (length (entries ?w))), w')"
    using dispatch_admits [OF laws w(1) _ w(3) _ len, where addr = ?a and T = T and at = "snd d"] by auto
  let ?reg = "PeerRegistration ?a (length (entries ?w))"
  from dispatch_inv [OF laws w(1,2) d] have "listener_inv avail w' (?reg # ?live)" by simp
  from registration_drop_inv [OF laws this, of ?reg T] have "listener_inv avail (registration_drop T Sm ?reg w') ?live" by simp
  then have "listener_inv avail (drop_server_stream T Sm ?reg w') ?live"
    unfolding drop_server_stream_def by (intro listener_inv_upd tracked_drop_entry_ok)
  then show ?thesis
    using d w(2,3) udp_alive [of T Sm] dispatch_options [of T Sm "fst d" ?a "snd d" ?w]
    by (auto simp: raw_create_and_drop_peer_def drop_server_stream_def)
     (metis snd_conv udp_alive(1))
qed

text \<open>
  The raw UDP benchmarks cannot fail. On an unconnected socket the fixture is built; every datagram of at most
  65507 bytes that is dispatched to its peer comes back out of the read half with its length, however often; and a
  peer can be created and dropped any number of times, since each time its slot and its address become free again.
\<close>

theorem raw_peer_benchmarks:
  assumes laws: "sem_laws Sm avail" "token_laws T"
    and len: "\<And>d. d \<in> set ds \<Longrightarrow> length (fst d) \<le> MAX_DATAGRAM_SIZE"
  shows "\<exists>p. raw_peer_new T Sm ts (Inr (Inl e, Inr local_address)) at = Some p
     \<and> raw_roundtrips T Sm ds p = Some (map (length \<circ> fst) ds)
     \<and> (\<exists>p'. foldM (raw_create_and_drop_peer T Sm) ds p = Some p' \<and> avail (slots (rp_listener p')) = 1023)"
proof -
  obtain p where p: "raw_peer_new T Sm ts (Inr (Inl e, Inr local_address)) at = Some p" and r: "raw_ready T avail 0 p"
    using raw_peer_ready [OF laws refl] by blast
  have 1: "raw_roundtrips T Sm ds p = Some (map (length \<circ> fst) ds)"
    using r len
  proof (induction ds arbitrary: p)
    case (Cons d ds)
    obtain p' where "raw_roundtrip T Sm d p = Some (length (fst d), p')" "raw_ready T avail 0 p'"
      using raw_roundtrip_ready [OF laws(1) Cons.prems(1), of d] Cons.prems(2) by auto
    then show ?case using Cons.IH [of p'] Cons.prems(2) by simp
  qed simp
  let ?live = "[PeerRegistration (V4 2130706433 1234) 0]"
  have w: "listener_inv avail (rp_listener p) ?live" "alive (rp_listener p)" "options (listener_options (rp_listener p)) = default_udp_options"
    using r by (simp_all add: raw_ready_def Let_def)
  have "\<exists>p'. foldM (raw_create_and_drop_peer T Sm) ds p = Some p' \<and> avail (slots (rp_listener p')) = 1023"
    using w len
  proof (induction ds arbitrary: p)
    case Nil
    then show ?case by (simp add: listener_inv_def default_udp_options_def)
  next
    case (Cons d ds)
    obtain p' where "raw_create_and_drop_peer T Sm d p = Some p'" "listener_inv avail (rp_listener p') ?live"
        "alive (rp_listener p')" "options (listener_options (rp_listener p')) = default_udp_options"
      using raw_create_ready [where T = T, OF laws(1) Cons.prems(1-3), of d] Cons.prems(4) by auto
    then show ?case using Cons.IH [of p'] Cons.prems(4) by simp
  qed
  then show ?thesis using p 1 by blast
qed

theorem raw_peer_benchmarks_witness:
  "\<exists>p. raw_peer_new demo_tokens nat_semaphore (0, []) (Inr (Inl (IoError NotConnected ''''), Inr (V4 2130706433 9))) 7 = Some p
     \<and> raw_roundtrips demo_tokens nat_semaphore [([1, 2], 8), ([], 9), (replicate 65507 0, 10)] p = Some [2, 0, 65507]
     \<and> (\<exists>p'. foldM (raw_create_and_drop_peer demo_tokens nat_semaphore) [([1, 2], 8), ([], 9), (replicate 65507 0, 10)] p = Some p'
          \<and> id (slots (rp_listener p')) = 1023)"
proof -
  let ?ds = "[([1, 2], 8), ([], 9), (replicate 65507 0, 10)] :: (byte list \<times> instant) list"
  have "length (fst d) \<le> MAX_DATAGRAM_SIZE" if "d \<in> set ?ds" for d
    using that by (auto simp: MAX_DATAGRAM_SIZE_def)
  from raw_peer_benchmarks [where ds = ?ds and ts = "(0, [])" and e = "IoError NotConnected ''''" and local_address = "V4 2130706433 9" and at = 7,
      OF nat_semaphore_laws demo_tokens_laws this]
  show ?thesis by (simp add: numeral_2_eq_2 del: raw_roundtrips.simps foldM.simps)
qed

end
