(* ===== verification/Spec2Isabelle.thy ===== *)
theory Spec2Isabelle
  imports Slinet_Prelude Queue_Interface Lossy_Queue Transport_Handle Outgoing_Queue Net_Settings
    Ecs_Connection Length_Prefix Serializer_Adapter Framing Tcp_Protocol Udp_Settings Udp_Peer Udp_Stream
    Conn_Tasks Endpoint_Frame Client_Endpoint Server_Endpoint Connection_Life Connection_Pool
    Stream_Delivery Datagram_Delivery Protocol_Traits Net_Runtime Runtime_Thread
    Browser_Runtime Scheduling Library_Serializers App_Sessions Session_Protocol Lobby_Battle Example_Apps
    Packet_Halves Example_Mains Bench_Fixtures Bench_Client Bench_Server Bench_Udp
begin

text \<open>
  \<^bold>\<open>Verification of bevy_slinet.\<close> The crate connects Bevy applications over TCP, UDP or a custom
  transport. A client or server plugin starts tasks on a runtime; the tasks own the sockets and talk
  to the ECS through bounded queues; two systems per frame turn what arrived into Bevy events. This
  development models that machinery in HOL and proves what an application relies on: packets are not
  lost, duplicated or reordered without being accounted for, limits hold, failures are reported with
  their cause, and shutdown reaches everything.

  \<^bold>\<open>Reading guide.\<close> One theory per component, in dependency order. Source paths are below
  \<^verbatim>\<open>src/src/\<close> unless given in full.

  \<^item> \<open>Slinet_Prelude\<close>: machine integers, results, I/O errors, cancellation tokens, list lemmas.
  \<^item> \<open>Queue_Interface\<close>: the contract of a queue that may drop (locale \<open>drop_queue\<close>) and its
    accounting lemmas.
  \<^item> \<open>Lossy_Queue\<close>: \<^verbatim>\<open>connection/queue/lossy.rs\<close>. One definition per critical section on the state
    behind the mutex, with the notifications it sends; invariant, FIFO log, refinement of the overflow
    policy, wake-ups. Interprets \<open>drop_queue\<close> as \<open>lq\<close>.
  \<^item> \<open>Transport_Handle\<close>: \<^verbatim>\<open>protocols/transport.rs\<close>, \<^verbatim>\<open>protocols/udp/diagnostics.rs\<close>. Drop reasons and
    counters; locale \<open>counting_handle\<close>, interpreted as \<open>uh\<close>.
  \<^item> \<open>Outgoing_Queue\<close>: \<^verbatim>\<open>connection/queue/mod.rs\<close>, \<^verbatim>\<open>connection/send_error.rs\<close>. The queue from ECS to the
    writer in its reliable and lossy forms, and the forwarder of received packets.
  \<^item> \<open>Net_Settings\<close>: \<^verbatim>\<open>connection/settings.rs\<close> and the receive limits of \<^verbatim>\<open>connection/mod.rs\<close>.
  \<^item> \<open>Ecs_Connection\<close>: \<^verbatim>\<open>connection/mod.rs\<close>, \<^verbatim>\<open>parts.rs\<close>, \<^verbatim>\<open>transport.rs\<close>. Both sides of a connection.
  \<^item> \<open>Length_Prefix\<close>, \<open>Serializer_Adapter\<close>: \<^verbatim>\<open>serializers/packet_length_serializer.rs\<close>,
    \<^verbatim>\<open>serializer.rs\<close>, \<^verbatim>\<open>custom_crypt.rs\<close>. Length codecs (locale \<open>length_codec\<close>, interpreted as \<open>lp\<close>), the
    adapter with mutex poisoning, and the example cipher (locale \<open>stream_cipher\<close>, interpreted as
    \<open>xor_pair\<close>).
  \<^item> \<open>Framing\<close>, \<open>Tcp_Protocol\<close>: \<^verbatim>\<open>protocols/framing.rs\<close>, \<^verbatim>\<open>packet.rs\<close>, \<^verbatim>\<open>tcp.rs\<close>. Packets over byte
    streams: round trip of whole conversations, enforcement of the receive limit.
  \<^item> \<open>Udp_Settings\<close>, \<open>Udp_Peer\<close>, \<open>Udp_Stream\<close>: \<^verbatim>\<open>protocols/udp/\<close>. Options and pacing; the listener
    that routes datagrams to peers, as a state machine with reachability; reading (locale
    \<open>datagram_source\<close>, interpreted for the raw queue and for the socket) and sending.
  \<^item> \<open>Conn_Tasks\<close>: \<^verbatim>\<open>connection/tasks.rs\<close> and the receive tasks of \<^verbatim>\<open>client.rs\<close> and \<^verbatim>\<open>server.rs\<close>. The
    writer as a state machine, the reader as a loop over what its iterations meet.
  \<^item> \<open>Endpoint_Frame\<close>, \<open>Client_Endpoint\<close>, \<open>Server_Endpoint\<close>: \<^verbatim>\<open>client.rs\<close>, \<^verbatim>\<open>server.rs\<close>. Lifecycle
    messages, registries (locale \<open>connection_registry\<close>, interpreted for both endpoints), delivery of
    datagrams, connection attempts, and the accept loop over any listener that keeps its contract
    (locale \<open>server_listener\<close>, interpreted for UDP as \<open>udp_srv\<close>).
  \<^item> \<open>Connection_Life\<close>: \<open>ConnectedTransport::run\<close> of \<^verbatim>\<open>client.rs\<close> and \<^verbatim>\<open>server.rs\<close>. The two tasks of a
    connection interleaved over their shared token and oneshot; they end together (locale
    \<open>winding_down\<close>, interpreted for the reader as \<open>rdr\<close> and for the writer as \<open>wtr\<close>), and the reader
    refines the loop of \<open>Conn_Tasks\<close>.
  \<^item> \<open>Connection_Pool\<close>: the concurrency of \<^verbatim>\<open>client.rs\<close> (connection attempts), \<^verbatim>\<open>connection/tasks.rs\<close>
    (\<open>run_connections\<close>) and \<^verbatim>\<open>server.rs\<close>. The contract of a pool that runs a bounded number of jobs
    (locale \<open>bounded_pool\<close>) is interpreted for \<open>run_connections\<close> as \<open>rc\<close> and for the driver of
    connection requests as \<open>cd\<close>: the limit holds, no request is lost and every one is answered.
  \<^item> \<open>Stream_Delivery\<close>: the composition of \<open>Outgoing_Queue\<close>, \<open>Conn_Tasks\<close>, \<open>Framing\<close> and
    \<open>Server_Endpoint\<close>: what the client sends over a stream is what the server's observers see.
  \<^item> \<open>Datagram_Delivery\<close>: the composition of \<open>Udp_Peer\<close>, \<open>Udp_Stream\<close>, \<open>Outgoing_Queue\<close>, \<open>Lossy_Queue\<close>
    and \<open>Server_Endpoint\<close>: where the packets that observers of a UDP server see come from, over any
    interleaving of arrivals, reads, frames and the ends of connections.
  \<^item> \<open>Protocol_Traits\<close>: the trait of \<^verbatim>\<open>protocols/protocol.rs\<close> and its implementations in \<^verbatim>\<open>tcp.rs\<close> and
    \<^verbatim>\<open>udp/settings.rs\<close>. What endpoints rely on (locale \<open>protocol_contract\<close>) is interpreted for both.
  \<^item> \<open>Net_Runtime\<close>, \<open>Runtime_Thread\<close>: \<^verbatim>\<open>runtime/mod.rs\<close>, \<^verbatim>\<open>runtime/task.rs\<close>. Tracked tasks, the local
    thread and shutdown; then app, workers and local thread as concurrent steps over a clock, with the
    shutdown of an owned tokio runtime, its time budget, and termination of the whole.
  \<^item> \<open>Browser_Runtime\<close>: \<^verbatim>\<open>runtime/wasm.rs\<close>, and its equivalence with the native runtime.
  \<^item> \<open>Scheduling\<close>: \<^verbatim>\<open>scheduling.rs\<close> and the plugins of \<^verbatim>\<open>client.rs\<close>, \<^verbatim>\<open>server.rs\<close> and the runtimes. What
    they register in an app, and what every order that respects it guarantees; such an order exists.
  \<^item> \<open>Library_Serializers\<close>: \<^verbatim>\<open>serializers/bincode.rs\<close>, \<^verbatim>\<open>bincode_serde.rs\<close>, \<^verbatim>\<open>bitcode.rs\<close>,
    \<^verbatim>\<open>bitcode_serde.rs\<close>.
  \<^item> \<open>App_Sessions\<close>, \<open>Session_Protocol\<close>: \<^verbatim>\<open>src/examples/udp_application_sessions/session.rs\<close> and
    \<^verbatim>\<open>src/examples/udp_application_sessions.rs\<close>. The session table; both ends of the handshake over a
    network that loses, repeats and reorders, with agreement as an invariant and progress of retries.
  \<^item> \<open>Lobby_Battle\<close>: \<^verbatim>\<open>src/examples/lobby_and_battle_servers.rs\<close>. Handlers and keepalive timers.
  \<^item> \<open>Example_Apps\<close>: the configuration traits of \<^verbatim>\<open>lib.rs\<close>, and the configurations, packets and observers of
    the other examples, each a conversation over a network that loses, repeats and reorders (locale
    \<open>answering_app\<close>, interpreted for all four).
  \<^item> \<open>Packet_Halves\<close>: the traits \<open>PacketReader\<close> and \<open>PacketWriter\<close> of \<^verbatim>\<open>protocols/packet.rs\<close>, the framing adapters
    of \<^verbatim>\<open>protocols/framing.rs\<close>, and the halves of both transports. The contract of a reader (locale
    \<open>packet_reader\<close>, extended by \<open>limited_reader\<close>) is interpreted for a transport with the default methods,
    for framed streams and for UDP, the one of a writer (\<open>packet_writer\<close>) for both transports.
  \<^item> \<open>Example_Mains\<close>: the configurations of the larger examples, and the Apps that the \<open>main\<close> functions of all
    examples assemble; each has an order in which its systems can run.
  \<^item> \<open>Bench_Fixtures\<close>, \<open>Bench_Client\<close>, \<open>Bench_Server\<close>, \<open>Bench_Udp\<close>: \<^verbatim>\<open>src/benches/utils/\<close>. What a fixture is to a
    benchmark (locale \<open>fixture\<close>, a \<open>sublocale\<close> of \<open>event_pump\<close>) is interpreted for the client over streams
    and over datagrams and for the server: no assertion fails, draining ends before its panic, and every
    round measures what the parameters give. The raw UDP fixture sends datagrams of every size through the
    listener and back.

  \<^bold>\<open>Conventions.\<close> \<open>usize\<close> is a natural number with the wrap-around of a release build written out;
  \<open>u64\<close> counters are 64-bit words; instants and durations are nanoseconds. A \<open>Result\<close> is a sum with
  the error on the left, a panic or a loop that does not return is \<open>None\<close>. State shared through \<open>Arc\<close>
  is one value; a critical section is one function on it, and interleavings are lists of events or
  step relations over these functions. An \<open>async\<close> function is the function of one poll, or a step
  machine over the points at which it can be suspended; what it meets from outside (socket results,
  elapsed time, cancellation, the outcome of awaiting a bounded channel) is an argument.

  \<^bold>\<open>Code outside the repository\<close> is a parameter with named laws, each with an instance that shows the
  laws can hold: tokio's bounded channel (\<open>mpsc_laws\<close>, \<open>room_laws\<close>), cancellation tokens (\<open>token_laws\<close>,
  \<open>child_laws\<close>, \<open>new_token_laws\<close>), semaphores (\<open>sem_laws\<close>), byte streams (\<open>read_laws\<close>, \<open>read_fills\<close>, \<open>write_laws\<close>), bitcode
  (\<open>bitcode_laws\<close>, \<open>serde_laws\<close>), bincode (\<open>bincode_laws\<close>), sockets (\<open>tcp_net_laws\<close>, \<open>udp_net_laws\<close>), packet codecs in step (\<open>codec_sync\<close>), Bevy's
  timers (\<open>timer_laws\<close>). The order of tokio's bounded channel is \<open>fifo_laws\<close>. The Bevy scheduler is any
  order of systems that respects what was registered.

  \<^bold>\<open>Termination.\<close> Loops that could in principle run on (draining a channel, reading a length prefix, the
  UDP read loop) are partial functions in the option monad, and are proved to return; no fuel is
  used. Loops over an environment consume the list of what they meet and return \<open>Pending\<close> or \<open>None\<close>
  at its end.

  \<^bold>\<open>Not modelled.\<close> Logging, \<open>Debug\<close> output and plain accessors, what a tokio runtime does when it is
  shut down, printing and the joining of threads in the \<open>main\<close> functions of the examples, the timing
  harness of the benches, and tests. In \<open>Datagram_Delivery\<close> the counters of the handles are not followed, since the
  components' own theorems account for them.

  \<^bold>\<open>Observations on the code\<close> that the proofs turned up: evicting from a lossy queue frees byte
  capacity without notifying waiting senders (\<open>eviction_without_space_wakeup\<close> in \<open>Lossy_Queue\<close>), which
  no caller in the crate depends on; and the prefix loop of the framed reader trusts a custom length
  codec not to ask for zero more bytes.
\<close>

end
